(* ===== verification/Kernel_Prelude.thy ===== *)
theory Kernel_Prelude
  imports Main "HOL-Library.Word"
begin

text \<open>
  Shared vocabulary of the development: the outcome type of code that may panic, the C++
  integer types of the i686 target with their conversions, and the generic facts about
  saturation and C++ division that the component theories use.
\<close>

section \<open>Panics as values\<close>

text \<open>
  \<^verbatim>\<open>VERIFY(e)\<close> halts the program when \<open>e\<close> is false, \<^verbatim>\<open>VERIFY_NOT_REACHED()\<close> always does
  (\<^verbatim>\<open>Kernel/Assertions.h\<close>), and an access outside an array or through a null pointer is
  undefined.  An operation that can do one of these returns a value of \<open>'a res\<close>, with the
  fault on the left.
\<close>

datatype fault = Verify_failed | Not_reached | Out_of_bounds | Null_deref | Div_by_zero | Panicked

type_synonym 'a res = "fault + 'a"

definition verify :: "bool \<Rightarrow> 'a res \<Rightarrow> 'a res" where
  "verify c r = (if c then r else Inl Verify_failed)"

definition bind_res :: "'a res \<Rightarrow> ('a \<Rightarrow> 'b res) \<Rightarrow> 'b res" where
  "bind_res r f = (case r of Inl e \<Rightarrow> Inl e | Inr x \<Rightarrow> f x)"

named_theorems res_simps \<open>evaluation of code that may panic\<close>

lemma verify_True [simp, res_simps]: "verify True r = r"
  by (simp add: verify_def)

lemma verify_False [simp, res_simps]: "verify False r = Inl Verify_failed"
  by (simp add: verify_def)

lemma verify_Inr_iff [simp]: "verify c r = Inr x \<longleftrightarrow> c \<and> r = Inr x"
  by (simp add: verify_def)

lemma verify_if: "c \<Longrightarrow> verify c r = r"
  by simp

lemma bind_res_Inr [simp, res_simps]: "bind_res (Inr x) f = f x"
  by (simp add: bind_res_def)

lemma bind_res_Inl [simp, res_simps]: "bind_res (Inl e) f = Inl e"
  by (simp add: bind_res_def)

lemma bind_res_Inr_iff: "bind_res r f = Inr y \<longleftrightarrow> (\<exists>x. r = Inr x \<and> f x = Inr y)"
  by (cases r) auto

lemma bind_res_cong [fundef_cong]:
  "r = r' \<Longrightarrow> (\<And>x. r' = Inr x \<Longrightarrow> f x = g x) \<Longrightarrow> bind_res r f = bind_res r' g"
  by (cases r') auto

lemma verify_cong [fundef_cong]:
  "c = c' \<Longrightarrow> (c' \<Longrightarrow> r = r') \<Longrightarrow> verify c r = verify c' r'"
  by (simp add: verify_def)

text \<open>The same for code whose loops may not end: \<open>None\<close> is a run that does not return.\<close>

definition bind_run :: "'a res option \<Rightarrow> ('a \<Rightarrow> 'b res option) \<Rightarrow> 'b res option" where
  "bind_run r f = (case r of None \<Rightarrow> None | Some (Inl e) \<Rightarrow> Some (Inl e) | Some (Inr x) \<Rightarrow> f x)"

lemma bind_run_simps [simp, res_simps]:
  "bind_run None f = None" "bind_run (Some (Inl e)) f = Some (Inl e)" "bind_run (Some (Inr x)) f = f x"
  by (simp_all add: bind_run_def)

lemma bind_run_cong [fundef_cong]:
  "r = r' \<Longrightarrow> (\<And>x. r' = Some (Inr x) \<Longrightarrow> f x = g x) \<Longrightarrow> bind_run r f = bind_run r' g"
  by (auto simp: bind_run_def split: option.splits sum.splits)

section \<open>C++ integer types\<close>

text \<open>
  An integer type is its width in bits and its signedness; a value of it is an \<open>int\<close> that
  \<open>fits\<close>.  \<open>wrap\<close> is the conversion to the type, modulo \<open>2 ^ width\<close> and in two's complement.
\<close>

record int_type =
  width :: nat
  signedness :: bool

definition type_min :: "int_type \<Rightarrow> int" where
  "type_min t = (if signedness t then - (2 ^ (width t - 1)) else 0)"

definition type_max :: "int_type \<Rightarrow> int" where
  "type_max t = (if signedness t then 2 ^ (width t - 1) - 1 else 2 ^ width t - 1)"

definition fits :: "int_type \<Rightarrow> int \<Rightarrow> bool" where
  "fits t x \<longleftrightarrow> type_min t \<le> x \<and> x \<le> type_max t"

definition wrap :: "int_type \<Rightarrow> int \<Rightarrow> int" where
  "wrap t x =
     (if signedness t then (x + 2 ^ (width t - 1)) mod 2 ^ width t - 2 ^ (width t - 1)
      else x mod 2 ^ width t)"

definition u8_t :: int_type where "u8_t = \<lparr>width = 8, signedness = False\<rparr>"
definition u16_t :: int_type where "u16_t = \<lparr>width = 16, signedness = False\<rparr>"
definition u32_t :: int_type where "u32_t = \<lparr>width = 32, signedness = False\<rparr>"
definition u64_t :: int_type where "u64_t = \<lparr>width = 64, signedness = False\<rparr>"
definition i8_t :: int_type where "i8_t = \<lparr>width = 8, signedness = True\<rparr>"
definition i32_t :: int_type where "i32_t = \<lparr>width = 32, signedness = True\<rparr>"
definition i64_t :: int_type where "i64_t = \<lparr>width = 64, signedness = True\<rparr>"

lemmas int_type_defs =
  u8_t_def u16_t_def u32_t_def u64_t_def i8_t_def i32_t_def i64_t_def

lemmas int_range_defs = fits_def type_min_def type_max_def

lemma two_power_pred: "0 < w \<Longrightarrow> (2::int) ^ w = 2 * 2 ^ (w - 1)"
  by (cases w) simp_all

text \<open>
  The two powers of two that bound a type, kept opaque so that range arguments stay linear.
\<close>

definition half_range :: "int_type \<Rightarrow> int" where
  "half_range t = 2 ^ (width t - 1)"

definition full_range :: "int_type \<Rightarrow> int" where
  "full_range t = 2 ^ width t"

lemma full_half: "0 < width t \<Longrightarrow> full_range t = 2 * half_range t"
  by (simp add: full_range_def half_range_def two_power_pred)

lemma half_range_pos: "0 < half_range t"
  by (simp add: half_range_def)

lemma full_range_pos [simp]: "0 < full_range t"
  by (simp add: full_range_def)

lemma half_range_mono: "width s \<le> width d \<Longrightarrow> half_range s \<le> half_range d"
  by (simp add: half_range_def power_increasing diff_le_mono)

lemma full_range_mono: "width s \<le> width d \<Longrightarrow> full_range s \<le> full_range d"
  by (simp add: full_range_def power_increasing)

lemma full_half_mono: "width s < width d \<Longrightarrow> full_range s \<le> half_range d"
  by (simp add: half_range_def full_range_def power_increasing)

lemma type_min_range: "type_min t = (if signedness t then - half_range t else 0)"
  by (simp add: type_min_def half_range_def)

lemma type_max_range:
  "type_max t = (if signedness t then half_range t - 1 else full_range t - 1)"
  by (simp add: type_max_def half_range_def full_range_def)

lemma fits_range:
  "fits t x \<longleftrightarrow>
     (if signedness t then - half_range t \<le> x \<and> x < half_range t
      else 0 \<le> x \<and> x < full_range t)"
  by (auto simp: fits_def type_min_range type_max_range)

lemma wrap_range:
  "wrap t x =
     (if signedness t then (x + half_range t) mod full_range t - half_range t
      else x mod full_range t)"
  by (simp add: wrap_def half_range_def full_range_def)

lemmas range_simps = fits_range type_min_range type_max_range

lemma fits_wrap: "0 < width t \<Longrightarrow> fits t (wrap t x)"
  using full_half [of t] half_range_pos [of t] by (simp add: fits_range wrap_range)

lemma wrap_id: "0 < width t \<Longrightarrow> fits t x \<Longrightarrow> wrap t x = x"
  using full_half [of t] by (auto simp: fits_range wrap_range split: if_splits)

lemma wrap_eq_iff_fits: "0 < width t \<Longrightarrow> wrap t x = x \<longleftrightarrow> fits t x"
  using fits_wrap [of t x] wrap_id [of t x] by auto

lemma fits_i64: "fits i64_t x \<longleftrightarrow> - (2 ^ 63) \<le> x \<and> x < 2 ^ 63"
  by (auto simp: int_range_defs int_type_defs)

lemma fits_i32: "fits i32_t x \<longleftrightarrow> - (2 ^ 31) \<le> x \<and> x < 2 ^ 31"
  by (auto simp: int_range_defs int_type_defs)

lemma fits_u32: "fits u32_t x \<longleftrightarrow> 0 \<le> x \<and> x < 2 ^ 32"
  by (auto simp: int_range_defs int_type_defs)

lemmas fits_simps = fits_i64 fits_i32 fits_u32

lemma width_pos [simp]:
  "0 < width u8_t" "0 < width u16_t" "0 < width u32_t" "0 < width u64_t"
  "0 < width i8_t" "0 < width i32_t" "0 < width i64_t"
  by (simp_all add: int_type_defs)

section \<open>C++ division, saturation\<close>

text \<open>C++ division truncates towards zero; \<open>div\<close> and \<open>mod\<close> of HOL round down.\<close>

definition cdiv :: "int \<Rightarrow> int \<Rightarrow> int" where
  "cdiv a b = sgn a * sgn b * (\<bar>a\<bar> div \<bar>b\<bar>)"

definition cmod :: "int \<Rightarrow> int \<Rightarrow> int" where
  "cmod a b = a - cdiv a b * b"

lemma cdiv_nonneg: "0 \<le> a \<Longrightarrow> 0 < b \<Longrightarrow> cdiv a b = a div b"
  by (cases "a = 0") (simp_all add: cdiv_def)

lemma cmod_nonneg: "0 \<le> a \<Longrightarrow> 0 < b \<Longrightarrow> cmod a b = a mod b"
  by (simp add: cmod_def cdiv_nonneg minus_div_mult_eq_mod)

lemma cdiv_neg: "a < 0 \<Longrightarrow> 0 < b \<Longrightarrow> cdiv a b = - ((- a) div b)"
  by (simp add: cdiv_def)

lemma cmod_neg: "a < 0 \<Longrightarrow> 0 < b \<Longrightarrow> cmod a b = - ((- a) mod b)"
  by (simp add: cmod_def cdiv_neg minus_mult_div_eq_mod [symmetric] algebra_simps)

definition saturate :: "int \<Rightarrow> int \<Rightarrow> int \<Rightarrow> int" where
  "saturate lo hi x = (if x < lo then lo else if hi < x then hi else x)"

lemma saturate_bounds: "lo \<le> hi \<Longrightarrow> lo \<le> saturate lo hi x \<and> saturate lo hi x \<le> hi"
  by (simp add: saturate_def)

lemma saturate_id: "lo \<le> x \<Longrightarrow> x \<le> hi \<Longrightarrow> saturate lo hi x = x"
  by (simp add: saturate_def)

lemma saturate_mono: "lo \<le> hi \<Longrightarrow> x \<le> y \<Longrightarrow> saturate lo hi x \<le> saturate lo hi y"
  by (simp add: saturate_def)

end
