(* ===== verification/Checked.thy ===== *)
theory Checked
  imports Kernel_Prelude
begin

text \<open>
  \<^verbatim>\<open>AK/Checked.h\<close> and \<^verbatim>\<open>AK/NumericLimits.h\<close>: integers with a sticky overflow flag.  The
  template parameter \<^verbatim>\<open>T\<close> is a value of \<open>int_type\<close>.  \<^verbatim>\<open>__builtin_add_overflow\<close> and its kin
  compute the exact result, store it converted to the type and report whether it changed.
\<close>

section \<open>Range checks between integer types\<close>

definition make_unsigned :: "int_type \<Rightarrow> int_type" where
  "make_unsigned t = t\<lparr>signedness := False\<rparr>"

text \<open>
  The eight specialisations of \<^verbatim>\<open>TypeBoundsChecker<Destination, Source, wider, dest signed,
  source signed>\<close>, in their order.
\<close>

fun type_bounds_check :: "bool \<Rightarrow> bool \<Rightarrow> bool \<Rightarrow> int_type \<Rightarrow> int_type \<Rightarrow> int \<Rightarrow> bool" where
  "type_bounds_check False False False d s v = (v \<le> type_max d)"
| "type_bounds_check False True True d s v = (v \<le> type_max d \<and> type_min d \<le> v)"
| "type_bounds_check False False True d s v = (wrap (make_unsigned s) v \<le> type_max d)"
| "type_bounds_check False True False d s v = (v \<le> wrap s (type_max d))"
| "type_bounds_check True False False d s v = True"
| "type_bounds_check True True True d s v = True"
| "type_bounds_check True False True d s v = (0 \<le> v)"
| "type_bounds_check True True False d s v =
     (if width s < width d then True else v \<le> wrap s (type_max d))"

definition is_within_range :: "int_type \<Rightarrow> int_type \<Rightarrow> int \<Rightarrow> bool" where
  "is_within_range d s v =
     type_bounds_check (width s \<le> width d) (signedness d) (signedness s) d s v"

section \<open>The checked integer\<close>

record checked =
  m_value :: int
  m_overflow :: bool

definition checked_of :: "int \<Rightarrow> checked" where
  "checked_of v = \<lparr>m_value = v, m_overflow = False\<rparr>"

text \<open>The converting constructor \<^verbatim>\<open>Checked(U value)\<close>.\<close>

definition checked_from :: "int_type \<Rightarrow> int_type \<Rightarrow> int \<Rightarrow> checked" where
  "checked_from t u v = \<lparr>m_value = wrap t v, m_overflow = \<not> is_within_range t u v\<rparr>"

definition checked_value :: "checked \<Rightarrow> int res" where
  "checked_value c = verify (\<not> m_overflow c) (Inr (m_value c))"

definition store_result :: "int_type \<Rightarrow> checked \<Rightarrow> int \<Rightarrow> checked" where
  "store_result t c x =
     \<lparr>m_value = wrap t x, m_overflow = (m_overflow c \<or> wrap t x \<noteq> x)\<rparr>"

definition checked_add :: "int_type \<Rightarrow> checked \<Rightarrow> int \<Rightarrow> checked" where
  "checked_add t c x = store_result t c (m_value c + x)"

definition checked_sub :: "int_type \<Rightarrow> checked \<Rightarrow> int \<Rightarrow> checked" where
  "checked_sub t c x = store_result t c (m_value c - x)"

definition checked_mul :: "int_type \<Rightarrow> checked \<Rightarrow> int \<Rightarrow> checked" where
  "checked_mul t c x = store_result t c (m_value c * x)"

text \<open>
  \<^verbatim>\<open>m_value /= other\<close> leaves the flag alone.  The processor traps on a zero divisor and, at 32
  bits and wider, on the one signed quotient that does not fit.
\<close>

definition checked_div :: "int_type \<Rightarrow> checked \<Rightarrow> int \<Rightarrow> checked res" where
  "checked_div t c x =
     (if x = 0 \<or> 32 \<le> width t \<and> \<not> fits t (cdiv (m_value c) x) then Inl Div_by_zero
      else Inr (c\<lparr>m_value := wrap t (cdiv (m_value c) x)\<rparr>))"

text \<open>
  The operators on two checked values: \<^verbatim>\<open>op=\<close> merges the flag of the right operand and then
  reads it through \<^verbatim>\<open>value()\<close>, which panics when that operand has overflowed.
\<close>

definition checked_add_assign :: "int_type \<Rightarrow> checked \<Rightarrow> checked \<Rightarrow> checked res" where
  "checked_add_assign t c d =
     bind_res (checked_value d)
       (\<lambda>x. Inr (checked_add t (c\<lparr>m_overflow := m_overflow c \<or> m_overflow d\<rparr>) x))"

definition checked_sub_assign :: "int_type \<Rightarrow> checked \<Rightarrow> checked \<Rightarrow> checked res" where
  "checked_sub_assign t c d =
     bind_res (checked_value d)
       (\<lambda>x. Inr (checked_sub t (c\<lparr>m_overflow := m_overflow c \<or> m_overflow d\<rparr>) x))"

definition checked_mul_assign :: "int_type \<Rightarrow> checked \<Rightarrow> checked \<Rightarrow> checked res" where
  "checked_mul_assign t c d =
     bind_res (checked_value d)
       (\<lambda>x. Inr (checked_mul t (c\<lparr>m_overflow := m_overflow c \<or> m_overflow d\<rparr>) x))"

definition checked_div_assign :: "int_type \<Rightarrow> checked \<Rightarrow> checked \<Rightarrow> checked res" where
  "checked_div_assign t c d =
     bind_res (checked_value d)
       (\<lambda>x. checked_div t (c\<lparr>m_overflow := m_overflow c \<or> m_overflow d\<rparr>) x)"

definition checked_inc :: "int_type \<Rightarrow> checked \<Rightarrow> checked" where
  "checked_inc t c = checked_add t c 1"

definition checked_dec :: "int_type \<Rightarrow> checked \<Rightarrow> checked" where
  "checked_dec t c = checked_sub t c 1"

definition checked_plus :: "int_type \<Rightarrow> checked \<Rightarrow> checked \<Rightarrow> checked res" where
  "checked_plus t a b = bind_res (checked_value b) (\<lambda>x. Inr (checked_add t a x))"

definition checked_minus :: "int_type \<Rightarrow> checked \<Rightarrow> checked \<Rightarrow> checked res" where
  "checked_minus t a b = bind_res (checked_value b) (\<lambda>x. Inr (checked_sub t a x))"

definition checked_times :: "int_type \<Rightarrow> checked \<Rightarrow> checked \<Rightarrow> checked res" where
  "checked_times t a b = bind_res (checked_value b) (\<lambda>x. Inr (checked_mul t a x))"

definition checked_less :: "checked \<Rightarrow> int \<Rightarrow> bool res" where
  "checked_less a b = bind_res (checked_value a) (\<lambda>x. Inr (x < b))"

text \<open>
  The static predicates.  GCC computes \<^verbatim>\<open>__builtin_add_overflow_p\<close> on the exact sum; the Clang
  branch runs the checked integer itself.
\<close>

definition addition_would_overflow :: "int_type \<Rightarrow> int \<Rightarrow> int \<Rightarrow> bool" where
  "addition_would_overflow t u v = (\<not> fits t (u + v))"

definition addition_would_overflow_clang ::
    "int_type \<Rightarrow> int_type \<Rightarrow> int \<Rightarrow> int \<Rightarrow> bool" where
  "addition_would_overflow_clang t ut u v = m_overflow (checked_add t (checked_from t ut u) v)"

definition multiplication_would_overflow :: "int_type \<Rightarrow> int \<Rightarrow> int \<Rightarrow> bool" where
  "multiplication_would_overflow t u v = (\<not> fits t (u * v))"

definition multiplication_would_overflow3 ::
    "int_type \<Rightarrow> int_type \<Rightarrow> int \<Rightarrow> int \<Rightarrow> int \<Rightarrow> bool" where
  "multiplication_would_overflow3 t ut u v x =
     m_overflow (checked_mul t (checked_mul t (checked_from t ut u) v) x)"

text \<open>A sequence of in-place operations, on the checked integer and on exact integers.\<close>

datatype checked_op = Op_add int | Op_sub int | Op_mul int

primrec checked_step :: "int_type \<Rightarrow> checked \<Rightarrow> checked_op \<Rightarrow> checked" where
  "checked_step t c (Op_add x) = checked_add t c x"
| "checked_step t c (Op_sub x) = checked_sub t c x"
| "checked_step t c (Op_mul x) = checked_mul t c x"

primrec exact_step :: "int \<Rightarrow> checked_op \<Rightarrow> int" where
  "exact_step v (Op_add x) = v + x"
| "exact_step v (Op_sub x) = v - x"
| "exact_step v (Op_mul x) = v * x"

fun checked_run :: "int_type \<Rightarrow> checked \<Rightarrow> checked_op list \<Rightarrow> checked" where
  "checked_run t c [] = c"
| "checked_run t c (x # xs) = checked_run t (checked_step t c x) xs"

fun exact_run :: "int_type \<Rightarrow> int \<Rightarrow> checked_op list \<Rightarrow> int option" where
  "exact_run t v [] = Some v"
| "exact_run t v (x # xs) =
     (if fits t (exact_step v x) then exact_run t (exact_step v x) xs else None)"

section \<open>Correctness\<close>

lemma m_overflow_store [simp]:
  "0 < width t \<Longrightarrow> m_overflow (store_result t c x) \<longleftrightarrow> m_overflow c \<or> \<not> fits t x"
  by (simp add: store_result_def wrap_eq_iff_fits)

lemma m_value_store [simp]:
  "0 < width t \<Longrightarrow> fits t x \<Longrightarrow> m_value (store_result t c x) = x"
  by (simp add: store_result_def wrap_id)

lemmas checked_op_defs =
  checked_add_def checked_sub_def checked_mul_def checked_inc_def checked_dec_def

lemma checked_of_sel [simp]: "m_value (checked_of v) = v" "\<not> m_overflow (checked_of v)"
  by (simp_all add: checked_of_def)

lemma negative_as_unsigned:
  assumes "signedness s" and "width d < width s" and "\<not> signedness d" and "fits s v"
  shows "wrap (make_unsigned s) v \<le> type_max d \<longleftrightarrow> 0 \<le> v \<and> v \<le> type_max d"
proof -
  have range: "half_range (make_unsigned s) = half_range s"
      "full_range (make_unsigned s) = full_range s" "full_range s = 2 * half_range s"
      "full_range d \<le> half_range s"
    using assms(2) by (simp_all add: half_range_def full_range_def make_unsigned_def
        full_half_mono [unfolded half_range_def full_range_def] two_power_pred)
  have "v mod full_range s = (if 0 \<le> v then v else v + full_range s)"
    using assms(1,4) range(3) by (auto simp: fits_range intro: int_mod_pos_eq [where q = "-1"])
  with assms range show ?thesis
    by (auto simp: range_simps wrap_range make_unsigned_def)
qed

lemma max_fits_unsigned:
  assumes "\<not> signedness s" and "signedness d" and "width d \<le> width s" and "0 < width d"
  shows "wrap s (type_max d) = type_max d"
  using assms full_range_mono [of d s] full_half [of d] half_range_pos [of d]
  by (intro wrap_id) (auto simp: range_simps)

lemma is_within_range_iff:
  assumes "0 < width d" and "0 < width s" and "fits s v"
  shows "is_within_range d s v \<longleftrightarrow> fits d v"
proof (cases "width s \<le> width d")
  case True
  note bounds = half_range_mono [OF True] full_range_mono [OF True] full_half_mono [of s d]
    full_half [OF assms(1)] full_half [OF assms(2)] half_range_pos [of s]
  show ?thesis
    using assms True bounds max_fits_unsigned [of s d]
    by (cases "signedness d"; cases "signedness s")
      (auto simp: is_within_range_def range_simps)
next
  case False
  then have narrow: "width d < width s" by simp
  note bounds = full_half_mono [OF narrow] full_half [OF assms(1)] full_half [OF assms(2)]
    half_range_pos [of d]
  show ?thesis
    using assms narrow bounds max_fits_unsigned [of s d] negative_as_unsigned [of s d v]
    by (cases "signedness d"; cases "signedness s")
      (auto simp: is_within_range_def range_simps)
qed

text \<open>
  The eight template specialisations of the range check together decide exactly whether a
  value of the source type is representable in the destination type: constructing a checked
  integer from a value of another type yields that value, or panics on use when it does not fit.
\<close>

theorem checked_from_exact:
  assumes "0 < width t" and "0 < width u" and "fits u v"
  shows "checked_value (checked_from t u v) = (if fits t v then Inr v else Inl Verify_failed)"
  using assms by (simp add: checked_value_def checked_from_def is_within_range_iff wrap_id)

theorem checked_from_exact_witness:
  "checked_value (checked_from u8_t i32_t (- 1)) =
     (if fits u8_t (- 1) then Inr (- 1) else Inl Verify_failed)"
  by (rule checked_from_exact) (simp_all add: fits_simps)

lemma checked_step_store:
  "checked_step t c x = store_result t c (exact_step (m_value c) x)"
  by (cases x) (simp_all add: checked_op_defs)

lemma checked_run_overflowed: "0 < width t \<Longrightarrow> m_overflow c \<Longrightarrow> m_overflow (checked_run t c xs)"
  by (induction xs arbitrary: c) (simp_all add: checked_step_store)

lemma store_result_fits:
  "0 < width t \<Longrightarrow> fits t x \<Longrightarrow> store_result t (checked_of v) x = checked_of x"
  by (simp add: store_result_def checked_of_def wrap_id)

lemma checked_run_value:
  assumes "0 < width t"
  shows "checked_value (checked_run t (checked_of v) xs) =
    (case exact_run t v xs of None \<Rightarrow> Inl Verify_failed | Some x \<Rightarrow> Inr x)"
proof (induction xs arbitrary: v)
  case Nil
  show ?case by (simp add: checked_value_def)
next
  case (Cons x xs)
  show ?case
  proof (cases "fits t (exact_step v x)")
    case True
    with Cons.IH [of "exact_step v x"] assms show ?thesis
      by (simp add: checked_step_store store_result_fits)
  next
    case False
    with assms checked_run_overflowed [of t "checked_step t (checked_of v) x" xs] show ?thesis
      by (simp add: checked_step_store checked_value_def)
  qed
qed

text \<open>
  C31. However long a chain of additions, subtractions and multiplications on a checked integer,
  reading its value at the end yields the exact mathematical result when every intermediate
  result fits the type, and panics otherwise: no wrapped value ever escapes.
\<close>

theorem checked_run_exact:
  assumes "0 < width t"
  shows "checked_value (checked_run t (checked_of v) xs) =
    (case exact_run t v xs of None \<Rightarrow> Inl Verify_failed | Some x \<Rightarrow> Inr x)"
  using assms by (rule checked_run_value)

theorem checked_run_exact_witness:
  "checked_value (checked_run i64_t (checked_of (2 ^ 62)) [Op_mul 2, Op_sub 1]) =
    (case exact_run i64_t (2 ^ 62) [Op_mul 2, Op_sub 1] of
       None \<Rightarrow> Inl Verify_failed | Some x \<Rightarrow> Inr x)"
  by (rule checked_run_exact) simp

text \<open>
  The two compiler branches of the static overflow predicate agree on operands of the type:
  running the checked integer reports overflow exactly when the exact sum does not fit.
\<close>

theorem addition_would_overflow_branches_agree:
  assumes "0 < width t" and "0 < width ut" and "fits ut u" and "fits t u"
  shows "addition_would_overflow_clang t ut u v = addition_would_overflow t u v"
  using assms
  by (simp add: addition_would_overflow_clang_def addition_would_overflow_def checked_from_def
      checked_add_def is_within_range_iff wrap_id)

theorem addition_would_overflow_branches_agree_witness:
  "addition_would_overflow_clang u32_t u32_t (2 ^ 32 - 1) 1 =
   addition_would_overflow u32_t (2 ^ 32 - 1) 1"
  by (rule addition_would_overflow_branches_agree) (simp_all add: fits_simps)

end
