(* ===== verification/AK_Time.thy ===== *)
theory AK_Time
  imports Checked
begin

text \<open>
  \<^verbatim>\<open>AK/Time.h\<close> and \<^verbatim>\<open>AK/Time.cpp\<close>: the calendar helpers, the saturating time amount \<^verbatim>\<open>Time\<close>
  (seconds as \<^verbatim>\<open>i64\<close>, nanoseconds as \<^verbatim>\<open>u32\<close> below \<open>10 ^ 9\<close>) and the \<^verbatim>\<open>timeval\<close>/\<^verbatim>\<open>timespec\<close>
  helpers.  Every \<^verbatim>\<open>Time\<close> operation is shown to be exact arithmetic on the total number of
  nanoseconds, saturated at the ends of the representable range.
\<close>

section \<open>The calendar helpers\<close>

text \<open>
  The calendar works on \<^verbatim>\<open>int\<close>; the model is exact for years whose day numbers stay inside
  32 bits (about five million), beyond which the source's signed arithmetic is undefined.
\<close>

definition is_leap_year :: "int \<Rightarrow> bool" where
  "is_leap_year year \<longleftrightarrow> cmod year 4 = 0 \<and> (cmod year 100 \<noteq> 0 \<or> cmod year 400 = 0)"

definition days_in_year :: "int \<Rightarrow> int" where
  "days_in_year year = 365 + (if is_leap_year year then 1 else 0)"

function add_years :: "int \<Rightarrow> int \<Rightarrow> int \<Rightarrow> int" where
  "add_years current_year year days =
     (if current_year < year
      then add_years (current_year + 1) year (days + days_in_year current_year) else days)"
  by pat_completeness auto
termination
  by (relation "measure (\<lambda>(c, y, d). nat (y - c))") auto

function sub_years :: "int \<Rightarrow> int \<Rightarrow> int" where
  "sub_years current_year days =
     (if current_year < 1970
      then sub_years (current_year + 1) (days - days_in_year current_year) else days)"
  by pat_completeness auto
termination
  by (relation "measure (\<lambda>(c, d). nat (1970 - c))") auto

definition years_to_days_since_epoch :: "int \<Rightarrow> int" where
  "years_to_days_since_epoch year = sub_years year (add_years 1970 year 0)"

definition day_of_year_seek_table :: "int list" where
  "day_of_year_seek_table = [0, 31, 59, 90, 120, 151, 181, 212, 243, 273, 304, 334]"

definition day_of_year :: "int \<Rightarrow> nat \<Rightarrow> int \<Rightarrow> int res" where
  "day_of_year year month day =
     verify (1 \<le> month \<and> month \<le> 12)
       (Inr (day_of_year_seek_table ! (month - 1) + day - 1
             + (if is_leap_year year \<and> 3 \<le> month then 1 else 0)))"

definition days_in_month :: "int \<Rightarrow> nat \<Rightarrow> int res" where
  "days_in_month year month =
     verify (1 \<le> month \<and> month \<le> 12)
       (Inr (if month = 2 then (if is_leap_year year then 29 else 28)
             else if month \<in> {1, 3, 5, 7, 8, 10, 12} then 31 else 30))"

definition day_of_week_seek_table :: "int list" where
  "day_of_week_seek_table = [0, 3, 2, 5, 0, 3, 5, 1, 4, 6, 2, 4]"

definition day_of_week :: "int \<Rightarrow> nat \<Rightarrow> int \<Rightarrow> int res" where
  "day_of_week year month day =
     verify (1 \<le> month \<and> month \<le> 12)
       (let y = (if month < 3 then year - 1 else year)
        in Inr (wrap u32_t (cmod (y + cdiv y 4 - cdiv y 100 + cdiv y 400
                                  + day_of_week_seek_table ! (month - 1) + day) 7)))"

section \<open>Time\<close>

record ak_time =
  m_seconds :: int
  m_nanoseconds :: int

definition Time :: "int \<Rightarrow> int \<Rightarrow> ak_time" where
  "Time s ns = \<lparr>m_seconds = s, m_nanoseconds = ns\<rparr>"

definition time_min :: ak_time where "time_min = Time (- (2 ^ 63)) 0"
definition time_zero :: ak_time where "time_zero = Time 0 0"
definition time_max :: ak_time where "time_max = Time (2 ^ 63 - 1) 999999999"

definition is_zero :: "ak_time \<Rightarrow> bool" where
  "is_zero t \<longleftrightarrow> m_seconds t = 0 \<and> m_nanoseconds t = 0"

text \<open>\<^verbatim>\<open>sane_mod\<close> returns the quotient and updates the numerator; the model returns both.\<close>

definition sane_mod :: "int \<Rightarrow> int \<Rightarrow> (int \<times> int) res" where
  "sane_mod numerator denominator =
     verify (2 \<le> denominator \<and> denominator \<le> 1000000000)
       (Inr (if cmod numerator denominator < 0
             then (cdiv numerator denominator - 1, cmod numerator denominator + denominator)
             else (cdiv numerator denominator, cmod numerator denominator)))"

definition sane_mod_i32 :: "int \<Rightarrow> int \<Rightarrow> (int \<times> int) res" where
  "sane_mod_i32 numerator denominator =
     bind_res (sane_mod numerator denominator)
       (\<lambda>(dividend, numerator_64). Inr (wrap i32_t dividend, wrap i32_t numerator_64))"

definition from_seconds :: "int \<Rightarrow> ak_time" where
  "from_seconds s = Time s 0"

definition from_nanoseconds :: "int \<Rightarrow> ak_time res" where
  "from_nanoseconds n =
     bind_res (sane_mod n 1000000000) (\<lambda>(s, n'). Inr (Time s (wrap u32_t n')))"

definition from_microseconds :: "int \<Rightarrow> ak_time res" where
  "from_microseconds n =
     bind_res (sane_mod n 1000000) (\<lambda>(s, n'). Inr (Time s (wrap u32_t (n' * 1000))))"

definition from_milliseconds :: "int \<Rightarrow> ak_time res" where
  "from_milliseconds n =
     bind_res (sane_mod n 1000) (\<lambda>(s, n'). Inr (Time s (wrap u32_t (n' * 1000000))))"

definition from_half_sanitized :: "int \<Rightarrow> int \<Rightarrow> int \<Rightarrow> ak_time res" where
  "from_half_sanitized seconds extra_seconds nanoseconds =
     verify (nanoseconds < 1000000000)
       (let opposite = (seconds \<le> 0 \<and> 0 < extra_seconds) \<or> (0 \<le> seconds \<and> extra_seconds < 0);
            s = (if opposite then seconds + extra_seconds else seconds);
            e = (if opposite then 0 else extra_seconds)
        in if addition_would_overflow i64_t s e
           then Inr (if s < 0 then time_min else time_max)
           else Inr (Time (s + e) nanoseconds))"

text \<open>A \<^verbatim>\<open>timespec\<close> or \<^verbatim>\<open>timeval\<close>: seconds and the fractional field.\<close>

record timeparts =
  tv_sec :: int
  tv_frac :: int

definition from_timespec :: "timeparts \<Rightarrow> ak_time res" where
  "from_timespec ts =
     bind_res (sane_mod_i32 (wrap i32_t (tv_frac ts)) 1000000000)
       (\<lambda>(extra_secs, nsecs). from_half_sanitized (tv_sec ts) extra_secs (wrap u32_t nsecs))"

definition from_timeval :: "timeparts \<Rightarrow> ak_time res" where
  "from_timeval tv =
     bind_res (sane_mod_i32 (wrap i32_t (tv_frac tv)) 1000000)
       (\<lambda>(extra_secs, usecs).
          verify (0 \<le> usecs \<and> usecs < 1000000)
            (from_half_sanitized (tv_sec tv) extra_secs (wrap u32_t (usecs * 1000))))"

text \<open>
  The conversions to a number of units share the shape: scale the seconds (one second short of
  them when negative, so that nothing overflows early), add the fraction, adjust for rounding,
  put the second back, and saturate when the checked integer has overflowed.
\<close>

definition saturated_i64 :: "ak_time \<Rightarrow> checked \<Rightarrow> int res" where
  "saturated_i64 t c =
     (if \<not> m_overflow c then checked_value c
      else Inr (if m_seconds t < 0 then - (2 ^ 63) else 2 ^ 63 - 1))"

definition scaled_seconds :: "ak_time \<Rightarrow> int \<Rightarrow> checked" where
  "scaled_seconds t units =
     checked_mul i64_t
       (checked_of (if m_seconds t < 0 then m_seconds t + 1 else m_seconds t)) units"

definition to_truncated_seconds :: "ak_time \<Rightarrow> int res" where
  "to_truncated_seconds t =
     verify (m_nanoseconds t < 1000000000)
       (Inr (if m_seconds t < 0 \<and> m_nanoseconds t \<noteq> 0 then m_seconds t + 1 else m_seconds t))"

definition to_truncated_milliseconds :: "ak_time \<Rightarrow> int res" where
  "to_truncated_milliseconds t =
     verify (m_nanoseconds t < 1000000000)
       (let c1 = checked_add i64_t (scaled_seconds t 1000) (m_nanoseconds t div 1000000);
            c2 = (if m_seconds t < 0 then
                    let c = (if m_nanoseconds t mod 1000000 \<noteq> 0 then checked_inc i64_t c1 else c1)
                    in checked_sub i64_t c 1000
                  else c1)
        in saturated_i64 t c2)"

definition to_truncated_microseconds :: "ak_time \<Rightarrow> int res" where
  "to_truncated_microseconds t =
     verify (m_nanoseconds t < 1000000000)
       (let c1 = checked_add i64_t (scaled_seconds t 1000000) (m_nanoseconds t div 1000);
            c2 = (if m_seconds t < 0 then
                    let c = (if m_nanoseconds t mod 1000 \<noteq> 0 then checked_inc i64_t c1 else c1)
                    in checked_sub i64_t c 1000000
                  else c1)
        in saturated_i64 t c2)"

definition to_seconds :: "ak_time \<Rightarrow> int res" where
  "to_seconds t =
     verify (m_nanoseconds t < 1000000000)
       (if 0 \<le> m_seconds t \<and> m_nanoseconds t \<noteq> 0 then
          let seconds = checked_inc i64_t (checked_of (m_seconds t))
          in if m_overflow seconds then Inr (2 ^ 63 - 1) else checked_value seconds
        else Inr (m_seconds t))"

definition to_milliseconds :: "ak_time \<Rightarrow> int res" where
  "to_milliseconds t =
     verify (m_nanoseconds t < 1000000000)
       (let c1 = checked_add i64_t (scaled_seconds t 1000) (m_nanoseconds t div 1000000);
            c2 = (if 0 \<le> m_seconds t \<and> m_nanoseconds t mod 1000000 \<noteq> 0
                  then checked_inc i64_t c1 else c1);
            c3 = (if m_seconds t < 0 then checked_sub i64_t c2 1000 else c2)
        in saturated_i64 t c3)"

definition to_microseconds :: "ak_time \<Rightarrow> int res" where
  "to_microseconds t =
     verify (m_nanoseconds t < 1000000000)
       (let c1 = checked_add i64_t (scaled_seconds t 1000000) (m_nanoseconds t div 1000);
            c2 = (if 0 \<le> m_seconds t \<and> m_nanoseconds t mod 1000 \<noteq> 0
                  then checked_inc i64_t c1 else c1);
            c3 = (if m_seconds t < 0 then checked_sub i64_t c2 1000000 else c2)
        in saturated_i64 t c3)"

definition to_nanoseconds :: "ak_time \<Rightarrow> int res" where
  "to_nanoseconds t =
     verify (m_nanoseconds t < 1000000000)
       (let c1 = checked_add i64_t (scaled_seconds t 1000000000) (m_nanoseconds t);
            c2 = (if m_seconds t < 0 then checked_sub i64_t c1 1000000000 else c1)
        in saturated_i64 t c2)"

definition to_timespec :: "ak_time \<Rightarrow> timeparts res" where
  "to_timespec t =
     verify (m_nanoseconds t < 1000000000)
       (Inr \<lparr>tv_sec = m_seconds t, tv_frac = wrap i32_t (m_nanoseconds t)\<rparr>)"

definition to_timeval :: "ak_time \<Rightarrow> timeparts res" where
  "to_timeval t =
     verify (m_nanoseconds t < 1000000000)
       (Inr \<lparr>tv_sec = m_seconds t, tv_frac = cdiv (wrap i32_t (m_nanoseconds t)) 1000\<rparr>)"

text \<open>The helpers on \<^verbatim>\<open>timeval\<close> (microseconds) and \<^verbatim>\<open>timespec\<close> (nanoseconds) pairs.\<close>

definition timeval_sub :: "timeparts \<Rightarrow> timeparts \<Rightarrow> timeparts" where
  "timeval_sub a b =
     (let r = \<lparr>tv_sec = tv_sec a - tv_sec b, tv_frac = tv_frac a - tv_frac b\<rparr>
      in if tv_frac r < 0 then \<lparr>tv_sec = tv_sec r - 1, tv_frac = tv_frac r + 1000000\<rparr> else r)"

definition timeval_add :: "timeparts \<Rightarrow> timeparts \<Rightarrow> timeparts" where
  "timeval_add a b =
     (let r = \<lparr>tv_sec = tv_sec a + tv_sec b, tv_frac = tv_frac a + tv_frac b\<rparr>
      in if 1000000 \<le> tv_frac r
         then \<lparr>tv_sec = tv_sec r + 1, tv_frac = tv_frac r - 1000000\<rparr> else r)"

definition timespec_sub :: "timeparts \<Rightarrow> timeparts \<Rightarrow> timeparts" where
  "timespec_sub a b =
     (let r = \<lparr>tv_sec = tv_sec a - tv_sec b, tv_frac = tv_frac a - tv_frac b\<rparr>
      in if tv_frac r < 0 then \<lparr>tv_sec = tv_sec r - 1, tv_frac = tv_frac r + 1000000000\<rparr> else r)"

definition timespec_add :: "timeparts \<Rightarrow> timeparts \<Rightarrow> timeparts" where
  "timespec_add a b =
     (let r = \<lparr>tv_sec = tv_sec a + tv_sec b, tv_frac = tv_frac a + tv_frac b\<rparr>
      in if 1000000000 \<le> tv_frac r
         then \<lparr>tv_sec = tv_sec r + 1, tv_frac = tv_frac r - 1000000000\<rparr> else r)"

definition timespec_add_timeval :: "timeparts \<Rightarrow> timeparts \<Rightarrow> timeparts" where
  "timespec_add_timeval a b =
     (let r = \<lparr>tv_sec = tv_sec a + tv_sec b, tv_frac = tv_frac a + tv_frac b * 1000\<rparr>
      in if 1000000000 \<le> tv_frac r
         then \<lparr>tv_sec = tv_sec r + 1, tv_frac = tv_frac r - 1000000000\<rparr> else r)"

definition timeval_to_timespec :: "timeparts \<Rightarrow> timeparts" where
  "timeval_to_timespec tv = \<lparr>tv_sec = tv_sec tv, tv_frac = tv_frac tv * 1000\<rparr>"

definition timespec_to_timeval :: "timeparts \<Rightarrow> timeparts" where
  "timespec_to_timeval ts = \<lparr>tv_sec = tv_sec ts, tv_frac = cdiv (tv_frac ts) 1000\<rparr>"

text \<open>\<^verbatim>\<open>operator+\<close>: the carry of the nanoseconds is put where it cannot overflow.\<close>

definition time_plus :: "ak_time \<Rightarrow> ak_time \<Rightarrow> ak_time res" where
  "time_plus a b =
     verify (m_nanoseconds a < 1000000000)
      (verify (m_nanoseconds b < 1000000000)
        (let sum = wrap u32_t (m_nanoseconds a + m_nanoseconds b);
             extra_secs = sum div 1000000000;
             new_nsecs = sum mod 1000000000
         in if extra_secs \<noteq> 0 \<and> m_seconds a = 2 ^ 63 - 1 \<and> m_seconds b = 2 ^ 63 - 1 then
              verify (extra_secs = 1) (Inr time_max)
            else verify (extra_secs \<noteq> 0 \<longrightarrow> extra_secs = 1)
             (let this_secs = (if extra_secs \<noteq> 0 \<and> m_seconds a \<noteq> 2 ^ 63 - 1
                               then m_seconds a + 1 else m_seconds a);
                  other_secs = (if extra_secs \<noteq> 0 \<and> m_seconds a = 2 ^ 63 - 1
                                then m_seconds b + 1 else m_seconds b);
                  new_secs = checked_add i64_t (checked_of this_secs) other_secs
              in if m_overflow new_secs
                 then Inr (if 0 < other_secs then time_max else time_min)
                 else bind_res (checked_value new_secs) (\<lambda>s. Inr (Time s new_nsecs)))))"

definition time_minus :: "ak_time \<Rightarrow> ak_time \<Rightarrow> ak_time res" where
  "time_minus a b =
     verify (m_nanoseconds a < 1000000000)
      (verify (m_nanoseconds b < 1000000000)
        (if m_nanoseconds b \<noteq> 0 then
           time_plus a (Time (wrap i64_t (2 ^ 64 - 1 - wrap u64_t (m_seconds b)))
                             (1000000000 - m_nanoseconds b))
         else if m_seconds b \<noteq> - (2 ^ 63) then time_plus a (Time (- m_seconds b) 0)
         else if 0 \<le> m_seconds a then Inr time_max
         else Inr (Time (m_seconds a + 2 ^ 62 + 2 ^ 62) (m_nanoseconds a))))"

definition time_less :: "ak_time \<Rightarrow> ak_time \<Rightarrow> bool" where
  "time_less a b \<longleftrightarrow>
     m_seconds a < m_seconds b \<or> (m_seconds a = m_seconds b \<and> m_nanoseconds a < m_nanoseconds b)"

definition time_less_eq :: "ak_time \<Rightarrow> ak_time \<Rightarrow> bool" where
  "time_less_eq a b \<longleftrightarrow>
     m_seconds a < m_seconds b \<or> (m_seconds a = m_seconds b \<and> m_nanoseconds a \<le> m_nanoseconds b)"

definition time_greater :: "ak_time \<Rightarrow> ak_time \<Rightarrow> bool" where
  "time_greater a b \<longleftrightarrow>
     m_seconds b < m_seconds a \<or> (m_seconds a = m_seconds b \<and> m_nanoseconds b < m_nanoseconds a)"

definition time_greater_eq :: "ak_time \<Rightarrow> ak_time \<Rightarrow> bool" where
  "time_greater_eq a b \<longleftrightarrow>
     m_seconds b < m_seconds a \<or> (m_seconds a = m_seconds b \<and> m_nanoseconds b \<le> m_nanoseconds a)"

section \<open>The abstract time: a saturated number of nanoseconds\<close>

definition total_ns :: "ak_time \<Rightarrow> int" where
  "total_ns t = m_seconds t * 1000000000 + m_nanoseconds t"

definition time_ok :: "ak_time \<Rightarrow> bool" where
  "time_ok t \<longleftrightarrow> fits i64_t (m_seconds t) \<and> 0 \<le> m_nanoseconds t \<and> m_nanoseconds t < 1000000000"

definition saturate_time :: "int \<Rightarrow> int" where
  "saturate_time = saturate (total_ns time_min) (total_ns time_max)"

definition saturate_i64 :: "int \<Rightarrow> int" where
  "saturate_i64 = saturate (- (2 ^ 63)) (2 ^ 63 - 1)"

lemma Time_sel [simp]: "m_seconds (Time s n) = s" "m_nanoseconds (Time s n) = n"
  by (simp_all add: Time_def)

lemma time_limits [simp]:
  "m_seconds time_min = - 9223372036854775808" "m_nanoseconds time_min = 0"
  "m_seconds time_max = 9223372036854775807" "m_nanoseconds time_max = 999999999"
  by (simp_all add: time_min_def time_max_def)

lemma total_ns_limits:
  "total_ns time_min = - 9223372036854775808000000000"
  "total_ns time_max = 9223372036854775807999999999"
  by (simp_all add: total_ns_def)

lemmas saturate_time_simps = saturate_time_def saturate_def total_ns_limits

lemma time_ok_bounds:
  "time_ok t \<longleftrightarrow> - 9223372036854775808 \<le> m_seconds t \<and> m_seconds t \<le> 9223372036854775807 \<and>
     0 \<le> m_nanoseconds t \<and> m_nanoseconds t \<le> 999999999"
  by (auto simp: time_ok_def fits_i64)

lemma fits_i64_bounds:
  "fits i64_t x \<longleftrightarrow> - 9223372036854775808 \<le> x \<and> x \<le> 9223372036854775807"
  by (auto simp: fits_i64)

lemma wrap_u32_id: "0 \<le> x \<Longrightarrow> x < 4294967296 \<Longrightarrow> wrap u32_t x = x"
  by (rule wrap_id) (simp_all add: fits_u32)

lemma wrap_i32_id: "- 2147483648 \<le> x \<Longrightarrow> x < 2147483648 \<Longrightarrow> wrap i32_t x = x"
  by (rule wrap_id) (simp_all add: fits_i32)

lemma wrap_i64_id: "fits i64_t x \<Longrightarrow> wrap i64_t x = x"
  by (rule wrap_id) simp_all

lemma time_plus_sat:
  assumes "time_ok a" and "time_ok b"
  shows "\<exists>r. time_plus a b = Inr r \<and> time_ok r \<and>
           total_ns r = saturate_time (total_ns a + total_ns b)"
proof (cases "m_nanoseconds a + m_nanoseconds b < 1000000000")
  case True
  with assms have "(m_nanoseconds a + m_nanoseconds b) div 1000000000 = 0"
    and "(m_nanoseconds a + m_nanoseconds b) mod 1000000000 = m_nanoseconds a + m_nanoseconds b"
    by (auto simp: time_ok_bounds)
  with assms True show ?thesis
    by (auto simp: time_plus_def time_ok_bounds wrap_u32_id Let_def checked_add_def
        checked_value_def fits_i64_bounds saturate_time_simps total_ns_def)
next
  case False
  with assms have "(m_nanoseconds a + m_nanoseconds b) div 1000000000 = 1"
    and "(m_nanoseconds a + m_nanoseconds b) mod 1000000000
         = m_nanoseconds a + m_nanoseconds b - 1000000000"
    by (auto simp: time_ok_bounds intro: int_div_pos_eq int_mod_pos_eq [where q = 1])
  with assms False show ?thesis
    by (auto simp: time_plus_def time_ok_bounds wrap_u32_id Let_def checked_add_def
        checked_value_def fits_i64_bounds saturate_time_simps total_ns_def)
qed

lemma complement_seconds:
  assumes "fits i64_t s"
  shows "wrap i64_t (18446744073709551615 - wrap u64_t s) = - s - 1"
proof -
  note bounds = assms [unfolded fits_i64_bounds]
  have u: "wrap u64_t s = (if 0 \<le> s then s else s + 18446744073709551616)"
    using bounds by (auto simp: wrap_def u64_t_def intro: int_mod_pos_eq [where q = "-1"])
  have "(27670116110564327423 - s) mod 18446744073709551616 = 9223372036854775807 - s" if "0 \<le> s"
    using bounds that by (intro int_mod_pos_eq [where q = 1]) auto
  moreover have "(9223372036854775807 - s) mod 18446744073709551616 = 9223372036854775807 - s"
    if "s < 0"
    using bounds that by (intro int_mod_pos_eq [where q = 0]) auto
  ultimately show ?thesis
    unfolding u by (auto simp: wrap_def i64_t_def)
qed

lemma time_minus_sat:
  assumes "time_ok a" and "time_ok b"
  shows "\<exists>r. time_minus a b = Inr r \<and> time_ok r \<and>
           total_ns r = saturate_time (total_ns a - total_ns b)"
proof -
  consider (nanos) "m_nanoseconds b \<noteq> 0" | (secs) "m_nanoseconds b = 0" "m_seconds b \<noteq> - (2 ^ 63)"
    | (extreme) "m_nanoseconds b = 0" "m_seconds b = - (2 ^ 63)" by blast
  then show ?thesis
  proof cases
    case nanos
    let ?b = "Time (- m_seconds b - 1) (1000000000 - m_nanoseconds b)"
    have "time_ok ?b" and "total_ns ?b = - total_ns b"
      using assms(2) nanos by (auto simp: time_ok_bounds total_ns_def)
    with time_plus_sat [OF assms(1), of ?b] assms nanos show ?thesis
      by (auto simp: time_minus_def time_ok_def complement_seconds)
  next
    case secs
    let ?b = "Time (- m_seconds b) 0"
    have "time_ok ?b" and "total_ns ?b = - total_ns b"
      using assms(2) secs by (auto simp: time_ok_bounds total_ns_def)
    with time_plus_sat [OF assms(1), of ?b] assms secs show ?thesis
      by (auto simp: time_minus_def time_ok_def)
  next
    case extreme
    with assms show ?thesis
      by (auto simp: time_minus_def time_ok_bounds total_ns_def saturate_time_simps)
  qed
qed

text \<open>
  C30. Addition and subtraction of times never panic and are exact on the total number of
  nanoseconds, saturated at \<^verbatim>\<open>Time::min()\<close> and \<^verbatim>\<open>Time::max()\<close>; no intermediate step overflows into a
  wrong result, and the result is again in normal form.
\<close>

theorem time_arithmetic_saturates:
  assumes "time_ok a" and "time_ok b"
  shows "(\<exists>r. time_plus a b = Inr r \<and> time_ok r \<and>
             total_ns r = saturate_time (total_ns a + total_ns b)) \<and>
         (\<exists>r. time_minus a b = Inr r \<and> time_ok r \<and>
             total_ns r = saturate_time (total_ns a - total_ns b))"
  using time_plus_sat [OF assms] time_minus_sat [OF assms] by blast

theorem time_arithmetic_saturates_witness:
  "(\<exists>r. time_plus (Time (2 ^ 63 - 1) 500000000) (Time 0 600000000) = Inr r \<and> time_ok r \<and>
      total_ns r = saturate_time (total_ns (Time (2 ^ 63 - 1) 500000000)
                                  + total_ns (Time 0 600000000))) \<and>
   (\<exists>r. time_minus (Time (2 ^ 63 - 1) 500000000) (Time 0 600000000) = Inr r \<and> time_ok r \<and>
      total_ns r = saturate_time (total_ns (Time (2 ^ 63 - 1) 500000000)
                                  - total_ns (Time 0 600000000)))"
  by (rule time_arithmetic_saturates) (simp_all add: time_ok_bounds)

section \<open>Conversions to units\<close>

definition round_away :: "int \<Rightarrow> int \<Rightarrow> int" where
  "round_away n d = (if 0 \<le> n then - ((- n) div d) else n div d)"

lemma total_ns_split:
  assumes "time_ok t" and "u * v = 1000000000" and "0 < u"
  shows "total_ns t div u = m_seconds t * v + m_nanoseconds t div u"
    and "total_ns t mod u = m_nanoseconds t mod u"
proof -
  have "total_ns t = m_nanoseconds t + u * (m_seconds t * v)"
    using assms(2) by (simp add: total_ns_def algebra_simps)
  with assms(3) show "total_ns t div u = m_seconds t * v + m_nanoseconds t div u"
    and "total_ns t mod u = m_nanoseconds t mod u"
    by (simp_all add: div_mult_self2 algebra_simps)
qed

lemma total_ns_sign: "time_ok t \<Longrightarrow> 0 \<le> total_ns t \<longleftrightarrow> 0 \<le> m_seconds t"
  by (auto simp: total_ns_def time_ok_bounds)

lemma cdiv_floor: "0 < d \<Longrightarrow> cdiv n d = (if 0 \<le> n \<or> n mod d = 0 then n div d else n div d + 1)"
  using zdiv_zminus1_eq_if [of d "- n"] zmod_zminus1_eq_if [of "- n" d]
  by (cases "0 \<le> n") (auto simp: cdiv_nonneg cdiv_neg split: if_splits)

lemma round_away_floor:
  "0 < d \<Longrightarrow> round_away n d = (if n < 0 \<or> n mod d = 0 then n div d else n div d + 1)"
  using zdiv_zminus1_eq_if [of d n] by (auto simp: round_away_def)

text \<open>The checked chains of the conversions, on an abstract fraction \<open>q\<close> of \<open>u\<close> units.\<close>

lemma saturated_run:
  "saturated_i64 t (checked_run i64_t (checked_of v) xs) =
     Inr (case exact_run i64_t v xs of
            None \<Rightarrow> (if m_seconds t < 0 then - (2 ^ 63) else 2 ^ 63 - 1) | Some x \<Rightarrow> x)"
  using checked_run_value [of i64_t v xs]
  by (auto simp: saturated_i64_def checked_value_def verify_def split: option.splits if_splits)

lemmas saturated_chain =
  saturated_run [where xs = "[Op_mul _, Op_add _]", simplified]
  saturated_run [where xs = "[Op_mul _, Op_add _, Op_add 1]", simplified]
  saturated_run [where xs = "[Op_mul _, Op_add _, Op_sub _]", simplified]
  saturated_run [where xs = "[Op_mul _, Op_add _, Op_add 1, Op_sub _]", simplified]

lemma chain_negative:
  assumes "m_seconds t < 0" and "0 \<le> q" and "q \<le> u" and "u \<le> 1000000000"
  shows "saturated_i64 t (checked_sub i64_t (checked_add i64_t (scaled_seconds t u) q) u) =
           Inr (saturate_i64 (m_seconds t * u + q))"
    and "q < u \<Longrightarrow>
         saturated_i64 t
           (checked_sub i64_t (checked_inc i64_t (checked_add i64_t (scaled_seconds t u) q)) u) =
           Inr (saturate_i64 (m_seconds t * u + q + 1))"
proof -
  define p where "p = m_seconds t * u"
  have p: "(m_seconds t + 1) * u = p + u" "p \<le> - u"
    using assms mult_right_mono [of "m_seconds t" "-1" u]
    by (simp_all add: p_def algebra_simps)
  show "saturated_i64 t (checked_sub i64_t (checked_add i64_t (scaled_seconds t u) q) u) =
          Inr (saturate_i64 (m_seconds t * u + q))"
    using assms p
    by (auto simp: scaled_seconds_def saturated_chain fits_i64_bounds saturate_i64_def saturate_def
        p_def [symmetric])
  show "saturated_i64 t
          (checked_sub i64_t (checked_inc i64_t (checked_add i64_t (scaled_seconds t u) q)) u) =
          Inr (saturate_i64 (m_seconds t * u + q + 1))" if "q < u"
    using assms p that
    by (auto simp: scaled_seconds_def saturated_chain checked_inc_def fits_i64_bounds
        saturate_i64_def saturate_def p_def [symmetric])
qed

lemma chain_nonnegative:
  assumes "0 \<le> m_seconds t" and "0 \<le> q" and "0 \<le> u"
  shows "saturated_i64 t (checked_add i64_t (scaled_seconds t u) q) =
           Inr (saturate_i64 (m_seconds t * u + q))"
    and "saturated_i64 t (checked_inc i64_t (checked_add i64_t (scaled_seconds t u) q)) =
           Inr (saturate_i64 (m_seconds t * u + q + 1))"
proof -
  define p where "p = m_seconds t * u"
  have p: "0 \<le> p" using assms by (simp add: p_def)
  show "saturated_i64 t (checked_add i64_t (scaled_seconds t u) q) =
          Inr (saturate_i64 (m_seconds t * u + q))"
    using assms p
    by (auto simp: scaled_seconds_def saturated_chain fits_i64_bounds saturate_i64_def saturate_def
        p_def [symmetric])
  show "saturated_i64 t (checked_inc i64_t (checked_add i64_t (scaled_seconds t u) q)) =
          Inr (saturate_i64 (m_seconds t * u + q + 1))"
    using assms p
    by (auto simp: scaled_seconds_def saturated_chain checked_inc_def fits_i64_bounds
        saturate_i64_def saturate_def p_def [symmetric])
qed

lemma ns_quotient_bounds:
  assumes "time_ok t" and "u * v = 1000000000" and "0 < u"
  shows "0 \<le> m_nanoseconds t div u \<and> m_nanoseconds t div u < v"
proof -
  have "m_nanoseconds t div u * u \<le> m_nanoseconds t"
    using assms(3) by (metis div_mod_decomp_int le_add_same_cancel1 mult.commute pos_mod_sign)
  moreover have "m_nanoseconds t < v * u"
    using assms by (simp add: time_ok_bounds mult.commute)
  ultimately have "m_nanoseconds t div u * u < v * u" by linarith
  then have "m_nanoseconds t div u < v"
    using assms(3) by simp
  with assms show ?thesis
    by (simp add: time_ok_bounds pos_imp_zdiv_nonneg_iff)
qed

lemma ns_below: "time_ok t \<Longrightarrow> m_nanoseconds t < 1000000000"
  by (simp add: time_ok_def)

lemma to_truncated_milliseconds_exact:
  assumes "time_ok t"
  shows "to_truncated_milliseconds t = Inr (saturate_i64 (cdiv (total_ns t) 1000000))"
  using ns_below [OF assms] total_ns_split [OF assms, of 1000000 1000] total_ns_sign [OF assms]
    ns_quotient_bounds [OF assms, of 1000000 1000]
  by (simp add: to_truncated_milliseconds_def cdiv_floor Let_def chain_negative chain_nonnegative)

lemma to_truncated_microseconds_exact:
  assumes "time_ok t"
  shows "to_truncated_microseconds t = Inr (saturate_i64 (cdiv (total_ns t) 1000))"
  using ns_below [OF assms] total_ns_split [OF assms, of 1000 1000000] total_ns_sign [OF assms]
    ns_quotient_bounds [OF assms, of 1000 1000000]
  by (simp add: to_truncated_microseconds_def cdiv_floor Let_def chain_negative chain_nonnegative)

lemma to_truncated_seconds_exact:
  assumes "time_ok t"
  shows "to_truncated_seconds t = Inr (cdiv (total_ns t) 1000000000)"
proof -
  have "m_nanoseconds t div 1000000000 = 0" "m_nanoseconds t mod 1000000000 = m_nanoseconds t"
    using assms by (simp_all add: time_ok_bounds)
  with ns_below [OF assms] total_ns_split [OF assms, of 1000000000 1] total_ns_sign [OF assms]
  show ?thesis by (auto simp: to_truncated_seconds_def cdiv_floor)
qed

lemma to_milliseconds_exact:
  assumes "time_ok t"
  shows "to_milliseconds t = Inr (saturate_i64 (round_away (total_ns t) 1000000))"
  using ns_below [OF assms] total_ns_split [OF assms, of 1000000 1000] total_ns_sign [OF assms]
    ns_quotient_bounds [OF assms, of 1000000 1000]
  by (auto simp: to_milliseconds_def round_away_floor Let_def chain_negative chain_nonnegative)

lemma to_microseconds_exact:
  assumes "time_ok t"
  shows "to_microseconds t = Inr (saturate_i64 (round_away (total_ns t) 1000))"
  using ns_below [OF assms] total_ns_split [OF assms, of 1000 1000000] total_ns_sign [OF assms]
    ns_quotient_bounds [OF assms, of 1000 1000000]
  by (auto simp: to_microseconds_def round_away_floor Let_def chain_negative chain_nonnegative)

lemma to_seconds_exact:
  assumes "time_ok t"
  shows "to_seconds t = Inr (saturate_i64 (round_away (total_ns t) 1000000000))"
proof -
  have "m_nanoseconds t div 1000000000 = 0" "m_nanoseconds t mod 1000000000 = m_nanoseconds t"
    using assms by (simp_all add: time_ok_bounds)
  with assms total_ns_split [OF assms, of 1000000000 1] total_ns_sign [OF assms]
  show ?thesis
    by (auto simp: to_seconds_def round_away_floor checked_inc_def checked_add_def checked_value_def
        fits_i64_bounds time_ok_bounds saturate_i64_def saturate_def)
qed

lemma to_nanoseconds_exact:
  assumes "time_ok t"
  shows "to_nanoseconds t = Inr (saturate_i64 (total_ns t))"
  using assms by (simp add: to_nanoseconds_def time_ok_bounds total_ns_def Let_def
      chain_negative chain_nonnegative)

text \<open>
  The truncating conversions return the total time in the unit rounded towards zero,
  saturated to 64 bits, for every representable time; none of them panics.
\<close>

theorem truncated_conversions_exact:
  assumes "time_ok t"
  shows "to_truncated_seconds t = Inr (cdiv (total_ns t) 1000000000) \<and>
         to_truncated_milliseconds t = Inr (saturate_i64 (cdiv (total_ns t) 1000000)) \<and>
         to_truncated_microseconds t = Inr (saturate_i64 (cdiv (total_ns t) 1000))"
  using to_truncated_seconds_exact [OF assms] to_truncated_milliseconds_exact [OF assms]
    to_truncated_microseconds_exact [OF assms] by blast

theorem truncated_conversions_exact_witness:
  "to_truncated_seconds (Time (- 3) 1) = Inr (cdiv (total_ns (Time (- 3) 1)) 1000000000) \<and>
   to_truncated_milliseconds (Time (- 3) 1) =
     Inr (saturate_i64 (cdiv (total_ns (Time (- 3) 1)) 1000000)) \<and>
   to_truncated_microseconds (Time (- 3) 1) =
     Inr (saturate_i64 (cdiv (total_ns (Time (- 3) 1)) 1000))"
  by (rule truncated_conversions_exact) (simp add: time_ok_bounds)

text \<open>
  The other conversions round away from zero (\<^verbatim>\<open>to_nanoseconds\<close> is exact) and saturate to 64
  bits, for every representable time; none of them panics.
\<close>

theorem rounding_conversions_exact:
  assumes "time_ok t"
  shows "to_seconds t = Inr (saturate_i64 (round_away (total_ns t) 1000000000)) \<and>
         to_milliseconds t = Inr (saturate_i64 (round_away (total_ns t) 1000000)) \<and>
         to_microseconds t = Inr (saturate_i64 (round_away (total_ns t) 1000)) \<and>
         to_nanoseconds t = Inr (saturate_i64 (total_ns t))"
  using to_seconds_exact [OF assms] to_milliseconds_exact [OF assms]
    to_microseconds_exact [OF assms] to_nanoseconds_exact [OF assms] by blast

theorem rounding_conversions_exact_witness:
  "to_seconds (Time 2 300000000) =
     Inr (saturate_i64 (round_away (total_ns (Time 2 300000000)) 1000000000)) \<and>
   to_milliseconds (Time 2 300000000) =
     Inr (saturate_i64 (round_away (total_ns (Time 2 300000000)) 1000000)) \<and>
   to_microseconds (Time 2 300000000) =
     Inr (saturate_i64 (round_away (total_ns (Time 2 300000000)) 1000)) \<and>
   to_nanoseconds (Time 2 300000000) = Inr (saturate_i64 (total_ns (Time 2 300000000)))"
  by (rule rounding_conversions_exact) (simp add: time_ok_bounds)

section \<open>Parsing\<close>

lemma sane_mod_floor:
  assumes "2 \<le> d" and "d \<le> 1000000000"
  shows "sane_mod n d = Inr (n div d, n mod d)"
proof (cases "0 \<le> n")
  case True
  with assms pos_mod_sign [of d n] show ?thesis
    by (auto simp: sane_mod_def cdiv_nonneg cmod_nonneg simp del: pos_mod_sign)
next
  case False
  define m where "m = (- n) mod d"
  have "0 \<le> m" and "m < d" using assms by (simp_all add: m_def)
  with False assms zmod_zminus1_eq_if [of "- n" d] show ?thesis
    by (auto simp: sane_mod_def cdiv_floor cmod_neg m_def [symmetric])
qed

lemma sane_mod_i32_floor:
  assumes "fits i32_t n" and "d = 1000000000 \<or> d = 1000000"
  shows "sane_mod_i32 n d = Inr (n div d, n mod d)"
proof -
  have "wrap i32_t (n div d) = n div d" and "wrap i32_t (n mod d) = n mod d"
    using assms by (auto simp: fits_i32 intro!: wrap_i32_id)
  with assms show ?thesis
    by (auto simp: sane_mod_i32_def sane_mod_floor)
qed

lemma from_half_sanitized_sat:
  assumes "fits i64_t s" and "fits i32_t e" and "0 \<le> ns" and "ns < 1000000000"
  shows "\<exists>r. from_half_sanitized s e ns = Inr r \<and> time_ok r \<and>
           total_ns r = saturate_time (s * 1000000000 + (e * 1000000000 + ns))"
  using assms
  by (auto simp: from_half_sanitized_def addition_would_overflow_def fits_i64_bounds fits_i32
      time_ok_bounds total_ns_def saturate_time_simps Let_def)

text \<open>
  C32. A \<^verbatim>\<open>timespec\<close> or \<^verbatim>\<open>timeval\<close> in any form, with a fraction that is negative or exceeds a second,
  is parsed to the time it denotes, saturated at the ends of the range; parsing never panics.
\<close>

theorem parsing_saturates:
  assumes "fits i64_t (tv_sec tv)" and "fits i32_t (tv_frac tv)"
  shows "(\<exists>r. from_timespec tv = Inr r \<and> time_ok r \<and>
             total_ns r = saturate_time (tv_sec tv * 1000000000 + tv_frac tv)) \<and>
         (\<exists>r. from_timeval tv = Inr r \<and> time_ok r \<and>
             total_ns r = saturate_time (tv_sec tv * 1000000000 + tv_frac tv * 1000))"
proof -
  have spec: "tv_frac tv div 1000000000 * 1000000000 + tv_frac tv mod 1000000000 = tv_frac tv"
    by (rule div_mult_mod_eq)
  have val: "tv_frac tv div 1000000 * 1000000000 + tv_frac tv mod 1000000 * 1000
             = tv_frac tv * 1000"
    using div_mult_mod_eq [of "tv_frac tv" 1000000] by linarith
  have e: "fits i32_t (tv_frac tv div 1000000000)" "fits i32_t (tv_frac tv div 1000000)"
    using assms(2) by (auto simp: fits_i32)
  have u: "wrap u32_t (tv_frac tv mod 1000000000) = tv_frac tv mod 1000000000"
    "wrap u32_t (tv_frac tv mod 1000000 * 1000) = tv_frac tv mod 1000000 * 1000"
    by (auto intro!: wrap_u32_id)
  have i: "wrap i32_t (tv_frac tv) = tv_frac tv"
    using assms(2) by (intro wrap_id) simp_all
  have "\<exists>r. from_timespec tv = Inr r \<and> time_ok r \<and>
          total_ns r = saturate_time (tv_sec tv * 1000000000 + tv_frac tv)"
    using from_half_sanitized_sat [OF assms(1) e(1), of "tv_frac tv mod 1000000000"] assms spec
    by (simp add: from_timespec_def sane_mod_i32_floor i u)
  moreover have "\<exists>r. from_timeval tv = Inr r \<and> time_ok r \<and>
      total_ns r = saturate_time (tv_sec tv * 1000000000 + tv_frac tv * 1000)"
    using from_half_sanitized_sat [OF assms(1) e(2), of "tv_frac tv mod 1000000 * 1000"] assms val
    by (simp add: from_timeval_def sane_mod_i32_floor i u)
  ultimately show ?thesis ..
qed

theorem parsing_saturates_witness:
  "(\<exists>r. from_timespec \<lparr>tv_sec = 0, tv_frac = - 1\<rparr> = Inr r \<and> time_ok r \<and>
      total_ns r = saturate_time (tv_sec \<lparr>tv_sec = 0, tv_frac = - 1\<rparr> * 1000000000
                                  + tv_frac \<lparr>tv_sec = 0, tv_frac = - 1\<rparr>)) \<and>
   (\<exists>r. from_timeval \<lparr>tv_sec = 0, tv_frac = - 1\<rparr> = Inr r \<and> time_ok r \<and>
      total_ns r = saturate_time (tv_sec \<lparr>tv_sec = 0, tv_frac = - 1\<rparr> * 1000000000
                                  + tv_frac \<lparr>tv_sec = 0, tv_frac = - 1\<rparr> * 1000))"
  by (rule parsing_saturates) (simp_all add: fits_simps)

text \<open>
  C33. In normal form the comparison operators are those of the total number of nanoseconds, and
  a time survives the round trip through a \<^verbatim>\<open>timespec\<close>.
\<close>

theorem time_order_and_roundtrip:
  assumes "time_ok a" and "time_ok b"
  shows "(time_less a b \<longleftrightarrow> total_ns a < total_ns b) \<and>
         (time_less_eq a b \<longleftrightarrow> total_ns a \<le> total_ns b) \<and>
         (time_greater a b \<longleftrightarrow> total_ns b < total_ns a) \<and>
         (time_greater_eq a b \<longleftrightarrow> total_ns b \<le> total_ns a) \<and>
         bind_res (to_timespec a) from_timespec = Inr a"
proof -
  have "bind_res (to_timespec a) from_timespec = Inr a"
    using assms(1)
    by (auto simp: to_timespec_def from_timespec_def wrap_i32_id wrap_u32_id sane_mod_i32_floor
        fits_i32 from_half_sanitized_def addition_would_overflow_def time_ok_bounds
        fits_i64_bounds Time_def)
  with assms show ?thesis
    by (auto simp: time_less_def time_less_eq_def time_greater_def time_greater_eq_def
        total_ns_def time_ok_bounds)
qed

theorem time_order_and_roundtrip_witness:
  "(time_less (Time 1 5) (Time 1 6) \<longleftrightarrow> total_ns (Time 1 5) < total_ns (Time 1 6)) \<and>
   (time_less_eq (Time 1 5) (Time 1 6) \<longleftrightarrow> total_ns (Time 1 5) \<le> total_ns (Time 1 6)) \<and>
   (time_greater (Time 1 5) (Time 1 6) \<longleftrightarrow> total_ns (Time 1 6) < total_ns (Time 1 5)) \<and>
   (time_greater_eq (Time 1 5) (Time 1 6) \<longleftrightarrow> total_ns (Time 1 6) \<le> total_ns (Time 1 5)) \<and>
   bind_res (to_timespec (Time 1 5)) from_timespec = Inr (Time 1 5)"
  by (rule time_order_and_roundtrip) (simp_all add: time_ok_bounds)

section \<open>Pairs of seconds and a fraction\<close>

definition parts_ok :: "int \<Rightarrow> timeparts \<Rightarrow> bool" where
  "parts_ok unit p \<longleftrightarrow> 0 \<le> tv_frac p \<and> tv_frac p < unit"

definition parts_total :: "int \<Rightarrow> timeparts \<Rightarrow> int" where
  "parts_total unit p = tv_sec p * unit + tv_frac p"

lemmas parts_defs = parts_ok_def parts_total_def Let_def

text \<open>
  On pairs in normal form the \<^verbatim>\<open>timeval\<close> and \<^verbatim>\<open>timespec\<close> helpers add and subtract exactly and
  return a pair in normal form, and converting a \<^verbatim>\<open>timeval\<close> to a \<^verbatim>\<open>timespec\<close> and back is the identity.
\<close>

theorem timeparts_arithmetic:
  assumes "parts_ok 1000000 a" and "parts_ok 1000000 b"
    and "parts_ok 1000000000 c" and "parts_ok 1000000000 d"
  shows "parts_ok 1000000 (timeval_add a b) \<and>
         parts_total 1000000 (timeval_add a b) = parts_total 1000000 a + parts_total 1000000 b \<and>
         parts_ok 1000000 (timeval_sub a b) \<and>
         parts_total 1000000 (timeval_sub a b) = parts_total 1000000 a - parts_total 1000000 b \<and>
         parts_ok 1000000000 (timespec_add c d) \<and>
         parts_total 1000000000 (timespec_add c d) =
           parts_total 1000000000 c + parts_total 1000000000 d \<and>
         parts_ok 1000000000 (timespec_sub c d) \<and>
         parts_total 1000000000 (timespec_sub c d) =
           parts_total 1000000000 c - parts_total 1000000000 d \<and>
         timespec_add_timeval c b = timespec_add c (timeval_to_timespec b) \<and>
         timespec_to_timeval (timeval_to_timespec a) = a"
  using assms
  by (auto simp: timeval_add_def timeval_sub_def timespec_add_def timespec_sub_def
      timespec_add_timeval_def timeval_to_timespec_def timespec_to_timeval_def cdiv_nonneg
      parts_defs)

theorem timeparts_arithmetic_witness:
  "parts_ok 1000000000 (timespec_sub \<lparr>tv_sec = 2, tv_frac = 5\<rparr> \<lparr>tv_sec = 1, tv_frac = 6\<rparr>)"
  using timeparts_arithmetic [of "\<lparr>tv_sec = 2, tv_frac = 5\<rparr>" "\<lparr>tv_sec = 1, tv_frac = 6\<rparr>"
      "\<lparr>tv_sec = 2, tv_frac = 5\<rparr>" "\<lparr>tv_sec = 1, tv_frac = 6\<rparr>"]
  by (simp add: parts_ok_def)

section \<open>The calendar\<close>

definition leap_days :: "int \<Rightarrow> int" where
  "leap_days year = year div 4 - year div 100 + year div 400"

definition day_number :: "int \<Rightarrow> int" where
  "day_number year = 365 * year + leap_days (year - 1)"

lemma cmod_zero_iff: "0 < d \<Longrightarrow> cmod n d = 0 \<longleftrightarrow> d dvd n"
  using dvd_minus_iff [of d n]
  by (cases "0 \<le> n") (simp_all add: cmod_nonneg cmod_neg dvd_eq_mod_eq_0)

lemma div_pred:
  fixes n d :: int
  assumes "0 < d"
  shows "(n - 1) div d = n div d - (if d dvd n then 1 else 0)"
proof (cases "d dvd n")
  case True
  with assms have "n - 1 = d * (n div d - 1) + (d - 1)" by (simp add: algebra_simps)
  with assms have "(n - 1) div d = n div d - 1" by (intro int_div_pos_eq [where r = "d - 1"]) auto
  with True show ?thesis by simp
next
  case False
  then have "n mod d \<noteq> 0" by (simp add: dvd_eq_mod_eq_0)
  with assms have "0 < n mod d" using pos_mod_sign [of d n] by linarith
  moreover have "n mod d < d" using assms by simp
  moreover have "n - 1 = d * (n div d) + (n mod d - 1)" by (simp add: algebra_simps)
  ultimately have "(n - 1) div d = n div d" by (intro int_div_pos_eq [where r = "n mod d - 1"]) auto
  with False show ?thesis by simp
qed

lemma is_leap_year_dvd:
  "is_leap_year y \<longleftrightarrow> 4 dvd y \<and> (\<not> 100 dvd y \<or> 400 dvd y)"
  by (simp add: is_leap_year_def cmod_zero_iff)

lemma leap_days_step: "leap_days y = leap_days (y - 1) + (if is_leap_year y then 1 else 0)"
proof -
  have "(400::int) dvd y \<Longrightarrow> 100 dvd y" and "(100::int) dvd y \<Longrightarrow> 4 dvd y"
    by (rule dvd_trans [where b = 400], simp, assumption) (rule dvd_trans [where b = 100], simp, assumption)
  then show ?thesis
    by (auto simp: leap_days_def is_leap_year_dvd div_pred)
qed

lemma day_number_step: "day_number (y + 1) = day_number y + days_in_year y"
  using leap_days_step [of y] by (simp add: day_number_def days_in_year_def)

declare add_years.simps [simp del] sub_years.simps [simp del]

lemma add_years_eq: "add_years c y d = (if c \<le> y then d + day_number y - day_number c else d)"
proof (induction c y d rule: add_years.induct)
  case (1 c y d)
  then show ?case
    using day_number_step [of c] by (auto simp: add_years.simps [of c y d])
qed

lemma sub_years_eq: "sub_years c d = (if c \<le> 1970 then d - day_number 1970 + day_number c else d)"
proof (induction c d rule: sub_years.induct)
  case (1 c d)
  then show ?case
    using day_number_step [of c] by (auto simp: sub_years.simps [of c d])
qed

lemma years_to_days_eq: "years_to_days_since_epoch y = day_number y - day_number 1970"
  by (simp add: years_to_days_since_epoch_def add_years_eq sub_years_eq)

lemma month_cases:
  assumes "1 \<le> (m::nat)" and "m \<le> 12"
  shows "m \<in> {1, 2, 3, 4, 5, 6, 7, 8, 9, 10, 11, 12}"
proof -
  have "m \<in> set [1..<13]" using assms by simp
  also have "[1..<13] = [1, 2, 3, 4, 5, 6, 7, 8, 9, 10, 11, 12::nat]" by code_simp
  finally show ?thesis by simp
qed

lemmas seek_table_defs = day_of_year_seek_table_def day_of_week_seek_table_def

text \<open>
  The day-of-year table and the month lengths agree: the day after the last day of a month is
  the first of the next one, and the twelve months make up the year, leap years included.
\<close>

theorem months_tile_the_year:
  assumes "1 \<le> month" and "month \<le> 12"
  shows "bind_res (days_in_month year month) (\<lambda>n. day_of_year year month (n + 1)) =
           (if month = 12 then Inr (days_in_year year) else day_of_year year (month + 1) 1)"
  using month_cases [OF assms]
  by (auto simp: days_in_month_def day_of_year_def seek_table_defs days_in_year_def)

theorem months_tile_the_year_witness:
  "bind_res (days_in_month 2020 2) (\<lambda>n. day_of_year 2020 2 (n + 1)) =
     (if (2::nat) = 12 then Inr (days_in_year 2020) else day_of_year 2020 (2 + 1) 1)"
  by (rule months_tile_the_year) simp_all

lemma leap_days_nonneg: "0 \<le> y \<Longrightarrow> 0 \<le> y + leap_days y"
proof -
  assume y: "0 \<le> y"
  then have "0 \<le> y div 4" and "0 \<le> y div 400" by (simp_all add: pos_imp_zdiv_nonneg_iff)
  moreover have "y div 100 \<le> y" using zdiv_mono2 [of y 1 100] y by simp
  ultimately show ?thesis by (simp add: leap_days_def)
qed

lemma seek_tables_agree:
  assumes "1 \<le> month" and "month \<le> 12"
  shows "7 dvd (day_of_year_seek_table ! (month - 1) - 1
                - (day_of_week_seek_table ! (month - 1) - (if month < 3 then 1 else 0)))"
  using month_cases [OF assms] by (auto simp: seek_table_defs)

lemma day_of_week_sum:
  assumes "1 \<le> month" and "month \<le> 12" and "1 \<le> year" and "0 \<le> day"
  defines "y \<equiv> if month < 3 then year - 1 else year"
  shows "day_of_week year month day =
           Inr ((y + leap_days y + day_of_week_seek_table ! (month - 1) + day) mod 7)"
proof -
  have "0 \<le> day_of_week_seek_table ! (month - 1)"
    using month_cases [OF assms(1,2)] by (auto simp: seek_table_defs)
  moreover have "0 \<le> y" using assms by simp
  ultimately have nonneg: "0 \<le> y + leap_days y + day_of_week_seek_table ! (month - 1) + day"
    using leap_days_nonneg [of y] assms(4) by linarith
  have sum: "y + cdiv y 4 - cdiv y 100 + cdiv y 400 = y + leap_days y"
    using \<open>0 \<le> y\<close> by (simp add: cdiv_nonneg leap_days_def)
  have "wrap u32_t (z mod 7) = z mod 7" for z
    by (rule wrap_u32_id) auto
  with assms(1,2) nonneg show ?thesis
    unfolding day_of_week_def y_def [symmetric] Let_def
    by (simp add: cmod_nonneg sum)
qed

lemma weekday_residue:
  fixes year L D T day k lp :: int
  assumes "7 dvd (D - 1 - (T - k))"
  shows "(year - k + (L + lp) + T + day) mod 7 =
         (365 * year + L - 719527 + (D + day - 1 + lp) + 4) mod 7"
proof -
  have "7 dvd (7 * (102789 - 52 * year) - (D - 1 - (T - k)))"
    using dvd_triv_left assms by (rule dvd_diff)
  also have "7 * (102789 - 52 * year) - (D - 1 - (T - k)) =
      (year - k + (L + lp) + T + day) - (365 * year + L - 719527 + (D + day - 1 + lp) + 4)"
    by simp
  finally show ?thesis by (simp only: mod_eq_dvd_iff)
qed

text \<open>
  The weekday formula counts days: for every valid month and any non-negative day, the weekday
  is the number of days since Thursday, 1 January 1970, modulo seven.
\<close>

theorem day_of_week_counts_days:
  assumes "1 \<le> month" and "month \<le> 12" and "1 \<le> year" and "0 \<le> day"
  shows "day_of_week year month day =
           bind_res (day_of_year year month day)
             (\<lambda>d. Inr ((years_to_days_since_epoch year + d + 4) mod 7))"
proof -
  define k lp :: int where "k = (if month < 3 then 1 else 0)"
    and "lp = (if is_leap_year year \<and> 3 \<le> month then 1 else 0)"
  have y: "(if month < 3 then year - 1 else year) = year - k"
    by (simp add: k_def)
  have leap: "leap_days (year - k) = leap_days (year - 1) + lp"
    using leap_days_step [of year] by (simp add: k_def lp_def)
  have epoch: "day_number 1970 = 719527" by (simp add: day_number_def leap_days_def)
  have days: "years_to_days_since_epoch year = 365 * year + leap_days (year - 1) - 719527"
    unfolding years_to_days_eq epoch by (simp add: day_number_def)
  have "day_of_year year month day = Inr (day_of_year_seek_table ! (month - 1) + day - 1 + lp)"
    using assms(1,2) by (simp add: day_of_year_def lp_def)
  then show ?thesis
    unfolding day_of_week_sum [OF assms] y leap
      weekday_residue [OF seek_tables_agree [OF assms(1,2), folded k_def]]
    by (simp add: days)
qed

theorem day_of_week_counts_days_witness:
  "day_of_week 1970 1 1 =
     bind_res (day_of_year 1970 1 1) (\<lambda>d. Inr ((years_to_days_since_epoch 1970 + d + 4) mod 7))"
  by (rule day_of_week_counts_days) simp_all

end
