(* ===== verification/Memory.thy ===== *)
theory Memory
  imports Kernel_Prelude
begin

unbundle bit_operations_syntax

text \<open>
  The byte-addressed memory of the i686 target, as the kernel's low level code sees it: the
  pointer types of the source are addresses, \<^verbatim>\<open>u32\<close> accesses are little endian, and
  \<^verbatim>\<open>__builtin_memset\<close> and \<^verbatim>\<open>__builtin_memcpy\<close> act on a range of addresses.  Also the compiler
  builtins on words that the bitmap code uses, characterised by the bits of their argument.
\<close>

type_synonym mem = "nat \<Rightarrow> 8 word"

definition load32 :: "mem \<Rightarrow> nat \<Rightarrow> 32 word" where
  "load32 m a =
     ucast (m a) OR push_bit 8 (ucast (m (a + 1)))
     OR push_bit 16 (ucast (m (a + 2))) OR push_bit 24 (ucast (m (a + 3)))"

definition store32 :: "mem \<Rightarrow> nat \<Rightarrow> 32 word \<Rightarrow> mem" where
  "store32 m a w =
     m(a := ucast w, a + 1 := ucast (drop_bit 8 w),
       a + 2 := ucast (drop_bit 16 w), a + 3 := ucast (drop_bit 24 w))"

definition memset :: "mem \<Rightarrow> nat \<Rightarrow> 8 word \<Rightarrow> nat \<Rightarrow> mem" where
  "memset m a b n = (\<lambda>x. if a \<le> x \<and> x < a + n then b else m x)"

definition memcpy :: "mem \<Rightarrow> nat \<Rightarrow> nat \<Rightarrow> nat \<Rightarrow> mem" where
  "memcpy m dst src n = (\<lambda>x. if dst \<le> x \<and> x < dst + n then m (src + (x - dst)) else m x)"

text \<open>
  \<^verbatim>\<open>__builtin_popcount\<close>, \<^verbatim>\<open>__builtin_ctz\<close> (here the width for a zero argument, where the builtin
  is undefined) and \<^verbatim>\<open>__builtin_ffs\<close> (zero for a zero argument).
\<close>

definition popcount :: "'a::len word \<Rightarrow> nat" where
  "popcount w = length (filter (bit w) [0..<LENGTH('a)])"

definition ctz :: "'a::len word \<Rightarrow> nat" where
  "ctz w = length (takeWhile (\<lambda>i. \<not> bit w i) [0..<LENGTH('a)])"

definition ffs :: "'a::len word \<Rightarrow> nat" where
  "ffs w = (if w = 0 then 0 else ctz w + 1)"

text \<open>Size arithmetic on \<^verbatim>\<open>size_t\<close>, 32 bits wide.\<close>

definition size_add :: "nat \<Rightarrow> nat \<Rightarrow> nat" where
  "size_add a b = (a + b) mod 2 ^ 32"

definition size_sub :: "nat \<Rightarrow> nat \<Rightarrow> nat" where
  "size_sub a b = nat ((int a - int b) mod 2 ^ 32)"

definition size_mul :: "nat \<Rightarrow> nat \<Rightarrow> nat" where
  "size_mul a b = (a * b) mod 2 ^ 32"

definition ceil_div :: "nat \<Rightarrow> nat \<Rightarrow> nat" where
  "ceil_div a b = (if a mod b \<noteq> 0 then a div b + 1 else a div b)"

section \<open>Facts\<close>

named_theorems mem_simps \<open>reading memory after a write\<close>

lemma size_add_id: "a + b < 2 ^ 32 \<Longrightarrow> size_add a b = a + b"
  by (simp add: size_add_def)

lemma size_sub_id: "b \<le> a \<Longrightarrow> a < 2 ^ 32 \<Longrightarrow> size_sub a b = a - b"
  by (simp add: size_sub_def)

lemma size_mul_id: "a * b < 2 ^ 32 \<Longrightarrow> size_mul a b = a * b"
  by (simp add: size_mul_def)

lemmas size_ids = size_add_id size_sub_id size_mul_id

lemma memset_apply [mem_simps]:
  "memset m a b n x = (if a \<le> x \<and> x < a + n then b else m x)"
  by (simp add: memset_def)

lemma memset_0 [simp]: "memset m a b 0 = m"
  by (auto simp: memset_def fun_eq_iff)

lemma memcpy_apply [mem_simps]:
  "memcpy m dst src n x = (if dst \<le> x \<and> x < dst + n then m (src + (x - dst)) else m x)"
  by (simp add: memcpy_def)

lemma store32_other [mem_simps]:
  "x < a \<or> a + 4 \<le> x \<Longrightarrow> store32 m a w x = m x"
  by (auto simp: store32_def)

lemma bit_load32:
  "bit (load32 m a) i \<longleftrightarrow> i < 32 \<and> bit (m (a + i div 8)) (i mod 8)"
proof -
  consider "i < 8" | "8 \<le> i" "i < 16" | "16 \<le> i" "i < 24" | "24 \<le> i" "i < 32" | "32 \<le> i"
    by linarith
  then show ?thesis
  proof cases
    case 2
    then have "i div 8 = 1" "i mod 8 = i - 8" by (auto simp: mod_if)
    with 2 show ?thesis
      by (auto simp: load32_def bit_or_iff bit_push_bit_iff bit_ucast_iff dest: bit_imp_le_length)
  next
    case 3
    then have "i div 8 = 2" "i mod 8 = i - 16" by (auto simp: mod_if)
    with 3 show ?thesis
      by (auto simp: load32_def bit_or_iff bit_push_bit_iff bit_ucast_iff dest: bit_imp_le_length)
  next
    case 4
    then have "i div 8 = 3" "i mod 8 = i - 24" by (auto simp: mod_if)
    with 4 show ?thesis
      by (auto simp: load32_def bit_or_iff bit_push_bit_iff bit_ucast_iff dest: bit_imp_le_length)
  qed (auto simp: load32_def bit_or_iff bit_push_bit_iff bit_ucast_iff dest: bit_imp_le_length)
qed

lemma load32_cong:
  assumes "\<And>x. a \<le> x \<Longrightarrow> x < a + 4 \<Longrightarrow> m x = m' x"
  shows "load32 m a = load32 m' a"
  using assms by (simp add: load32_def)

lemma load_store32 [mem_simps]: "load32 (store32 m a w) a = w"
proof (rule bit_word_eqI)
  fix i assume "i < LENGTH(32)"
  then have i: "i < 32" by simp
  then have "i div 8 < 4" by auto
  then consider "i div 8 = 0" | "i div 8 = 1" | "i div 8 = 2" | "i div 8 = 3" by linarith
  then show "bit (load32 (store32 m a w) a) i \<longleftrightarrow> bit w i"
  proof cases
    case 1
    then have "i mod 8 = i" by auto
    with 1 i show ?thesis
      by (simp add: bit_load32 store32_def bit_ucast_iff bit_drop_bit_eq) auto
  next
    case 2
    then have "8 + i mod 8 = i" by (metis mult_1_right mult_div_mod_eq)
    with 2 i show ?thesis by (simp add: bit_load32 store32_def bit_ucast_iff bit_drop_bit_eq)
  next
    case 3
    then have "16 + i mod 8 = i" using mult_div_mod_eq [of 8 i] by simp
    with 3 i show ?thesis by (simp add: bit_load32 store32_def bit_ucast_iff bit_drop_bit_eq)
  next
    case 4
    then have "24 + i mod 8 = i" using mult_div_mod_eq [of 8 i] by simp
    with 4 i show ?thesis by (simp add: bit_load32 store32_def bit_ucast_iff bit_drop_bit_eq)
  qed
qed

lemma takeWhile_upt_length:
  assumes "i < n" "P i" "\<And>j. j < i \<Longrightarrow> \<not> P j"
  shows "length (takeWhile (\<lambda>i. \<not> P i) [0..<n]) = i"
proof -
  have "[0..<n] = [0..<i] @ i # [Suc i..<n]"
    using assms(1) upt_add_eq_append [of 0 i "n - i"] by (simp add: upt_conv_Cons)
  moreover have "takeWhile (\<lambda>i. \<not> P i) ([0..<i] @ i # [Suc i..<n]) = [0..<i]"
    using assms by (subst takeWhile_append2) auto
  ultimately show ?thesis by simp
qed

lemma ctz_eqI:
  "bit w i \<Longrightarrow> (\<And>j. j < i \<Longrightarrow> \<not> bit w j) \<Longrightarrow> ctz w = i"
  unfolding ctz_def by (intro takeWhile_upt_length) (auto dest: bit_imp_le_length)

lemma ctz_nonzero:
  fixes w :: "'a::len word"
  assumes "w \<noteq> 0"
  shows "ctz w < LENGTH('a)" and "bit w (ctz w)" and "j < ctz w \<Longrightarrow> \<not> bit w j"
proof -
  obtain k where "bit w k" using assms by (auto simp: bit_eq_iff)
  then obtain i where i: "bit w i" "\<And>j. j < i \<Longrightarrow> \<not> bit w j"
    using exists_least_iff [of "bit w"] by blast
  then have "ctz w = i" by (rule ctz_eqI)
  with i show "ctz w < LENGTH('a)" "bit w (ctz w)" "j < ctz w \<Longrightarrow> \<not> bit w j"
    by (auto dest: bit_imp_le_length)
qed

lemma ctz_le: "bit w i \<Longrightarrow> ctz w \<le> i"
  by (metis bit_0_eq bot_apply bot_bool_def ctz_nonzero(3) linorder_not_le)

lemma ctz_below: "j < ctz w \<Longrightarrow> \<not> bit w j"
  using ctz_le [of w j] by auto

lemma takeWhile_True: "takeWhile (\<lambda>_. True) xs = xs"
  by (induction xs) simp_all

lemma ctz_zero [simp]: "ctz (0::'a::len word) = LENGTH('a)"
  by (simp add: ctz_def takeWhile_True)

lemma ctz_pos: "\<not> bit (w::'a::len word) 0 \<Longrightarrow> 0 < ctz w"
  by (metis ctz_nonzero(2) ctz_zero gr0I len_gt_0)

lemma filter_upt_shift:
  "length (filter (\<lambda>i. P (k + i)) [0..<n]) = length (filter P [k..<k + n])"
proof -
  have "[k..<k + n] = map (\<lambda>i. k + i) [0..<n]"
    by (simp add: map_add_upt add.commute)
  then show ?thesis by (simp add: filter_map comp_def)
qed

end
