(* ===== verification/Bitmap_View.thy ===== *)
theory Bitmap_View
  imports Memory "HOL-Library.Monad_Syntax"
begin

text \<open>
  \<^verbatim>\<open>AK/BitmapView.h\<close> and \<^verbatim>\<open>AK/Bitmap.h\<close>: a bitmap is the address of its bytes and its size in bits, and
  every operation reads or writes the byte memory the way the code does, bytewise, wordwise
  and with its masks.  The theorems relate each operation to the bits of the map.
\<close>

section \<open>Operations\<close>

record bitmap_view =
  m_data :: nat
  m_size :: nat

definition size_in_bytes :: "bitmap_view \<Rightarrow> nat" where
  "size_in_bytes v = ceil_div (m_size v) 8"

definition bitmap_get :: "mem \<Rightarrow> bitmap_view \<Rightarrow> nat \<Rightarrow> bool res" where
  "bitmap_get m v index =
     verify (index < m_size v)
       (Inr (0 \<noteq> m (m_data v + index div 8) AND push_bit (index mod 8) 1))"

definition bitmap_set :: "mem \<Rightarrow> bitmap_view \<Rightarrow> nat \<Rightarrow> bool \<Rightarrow> mem res" where
  "bitmap_set m v index val =
     verify (index < m_size v)
       (let a = m_data v + index div 8 in
        Inr (if val then m(a := m a OR push_bit (index mod 8) 1)
             else m(a := m a AND NOT (push_bit (index mod 8) 1))))"

definition bitmask_first_byte :: "8 word list" where
  "bitmask_first_byte = [0xFF, 0xFE, 0xFC, 0xF8, 0xF0, 0xE0, 0xC0, 0x80]"

definition bitmask_last_byte :: "8 word list" where
  "bitmask_last_byte = [0x0, 0x1, 0x3, 0x7, 0xF, 0x1F, 0x3F, 0x7F]"

text \<open>Clearing the low two bits of an address, \<^verbatim>\<open>& ~(sizeof(u32) - 1)\<close>.\<close>

definition word_align :: "nat \<Rightarrow> nat" where
  "word_align a = a div 4 * 4"

function count_bytes :: "mem \<Rightarrow> nat \<Rightarrow> nat \<Rightarrow> nat \<Rightarrow> nat" where
  "count_bytes m first stop count =
     (if first < stop then count_bytes m (first + 1) stop (count + popcount (m first)) else count)"
  by pat_completeness auto
termination by (relation "measure (\<lambda>(m, first, stop, count). stop - first)") auto

function count_words :: "mem \<Rightarrow> nat \<Rightarrow> nat \<Rightarrow> nat \<Rightarrow> nat \<times> nat" where
  "count_words m ptr32 last32 count =
     (if ptr32 < last32
      then count_words m (ptr32 + 4) last32 (count + popcount (load32 m ptr32))
      else (ptr32, count))"
  by pat_completeness auto
termination by (relation "measure (\<lambda>(m, ptr32, last32, count). last32 - ptr32)") auto

definition count_in_range :: "mem \<Rightarrow> bitmap_view \<Rightarrow> nat \<Rightarrow> nat \<Rightarrow> bool \<Rightarrow> nat res" where
  "count_in_range m v start len val =
     verify (start < m_size v) (verify (size_add start len \<le> m_size v)
       (if len = 0 then Inr 0
        else
          (let first = m_data v + start div 8;
               last = m_data v + size_add start len div 8;
               byte = m first AND bitmask_first_byte ! (start mod 8);
               last_mask = bitmask_last_byte ! (size_add start len mod 8);
               count =
                 (if first = last then popcount (byte AND last_mask)
                  else
                    (let count = popcount byte + popcount (m last AND last_mask);
                         first = first + 1 in
                     if first < last
                     then
                       (let ptr32 = word_align (first + 3);
                            ptr32 = (if last < ptr32 then last else ptr32);
                            count = count_bytes m first ptr32 count;
                            last32 = word_align last;
                            (ptr32, count) = count_words m ptr32 last32 count
                        in count_bytes m ptr32 last count)
                     else count))
           in Inr (if val then count else size_sub len count))))"

definition count_slow :: "mem \<Rightarrow> bitmap_view \<Rightarrow> bool \<Rightarrow> nat res" where
  "count_slow m v val = count_in_range m v 0 (m_size v) val"

text \<open>\<^verbatim>\<open>set_range<VALUE, verify_that_all_bits_flip>\<close>, with the template arguments as parameters.\<close>

definition mask_flips :: "bool \<Rightarrow> 8 word \<Rightarrow> 8 word \<Rightarrow> bool" where
  "mask_flips VALUE byte byte_mask = (byte AND byte_mask = (if VALUE then 0 else byte_mask))"

definition apply_mask :: "bool \<Rightarrow> 8 word \<Rightarrow> 8 word \<Rightarrow> 8 word" where
  "apply_mask VALUE byte byte_mask = (if VALUE then byte OR byte_mask else byte AND NOT byte_mask)"

definition set_range_template ::
  "bool \<Rightarrow> bool \<Rightarrow> mem \<Rightarrow> bitmap_view \<Rightarrow> nat \<Rightarrow> nat \<Rightarrow> mem res" where
  "set_range_template VALUE flip m v start len =
     verify (start < m_size v) (verify (size_add start len \<le> m_size v)
       (if len = 0 then Inr m
        else
          (let first = m_data v + start div 8;
               last = m_data v + size_add start len div 8;
               first_mask = bitmask_first_byte ! (start mod 8);
               last_mask = bitmask_last_byte ! (size_add start len mod 8) in
           if first = last
           then
             (let byte_mask = first_mask AND last_mask in
              verify (flip \<longrightarrow> mask_flips VALUE (m first) byte_mask)
                (Inr (m(first := apply_mask VALUE (m first) byte_mask))))
           else
             verify (flip \<longrightarrow> mask_flips VALUE (m first) first_mask)
               (let m = m(first := apply_mask VALUE (m first) first_mask) in
                verify (flip \<longrightarrow> mask_flips VALUE (m last) last_mask)
                  (let m = m(last := apply_mask VALUE (m last) last_mask);
                       first = first + 1 in
                   if first < last
                   then Inr (memset m first (if VALUE then 0xFF else 0x0) (last - first))
                   else Inr m)))))"

definition set_range :: "mem \<Rightarrow> bitmap_view \<Rightarrow> nat \<Rightarrow> nat \<Rightarrow> bool \<Rightarrow> mem res" where
  "set_range m v start len val =
     (if val then set_range_template True False m v start len
      else set_range_template False False m v start len)"

definition set_range_and_verify_that_all_bits_flip ::
  "mem \<Rightarrow> bitmap_view \<Rightarrow> nat \<Rightarrow> nat \<Rightarrow> bool \<Rightarrow> mem res" where
  "set_range_and_verify_that_all_bits_flip m v start len val =
     (if val then set_range_template True True m v start len
      else set_range_template False True m v start len)"

definition bitmap_fill :: "mem \<Rightarrow> bitmap_view \<Rightarrow> bool \<Rightarrow> mem" where
  "bitmap_fill m v val = memset m (m_data v) (if val then 0xff else 0x00) (size_in_bytes v)"

subsection \<open>Searching for one bit\<close>

function skip_bytes :: "mem \<Rightarrow> nat \<Rightarrow> nat \<Rightarrow> nat \<Rightarrow> 8 word \<Rightarrow> nat" where
  "skip_bytes m base i count byte =
     (if i < count \<and> m (base + i) = byte then skip_bytes m base (i + 1) count byte else i)"
  by pat_completeness auto
termination by (relation "measure (\<lambda>(m, base, i, count, byte). count - i)") auto

function skip_words :: "mem \<Rightarrow> nat \<Rightarrow> nat \<Rightarrow> 32 word \<Rightarrow> nat" where
  "skip_words m ptr32 end32 val32 =
     (if ptr32 < end32 \<and> load32 m ptr32 = val32 then skip_words m (ptr32 + 4) end32 val32
      else ptr32)"
  by pat_completeness auto
termination by (relation "measure (\<lambda>(m, ptr32, end32, val32). end32 - ptr32)") auto

definition find_in_byte :: "bool \<Rightarrow> mem \<Rightarrow> bitmap_view \<Rightarrow> nat \<Rightarrow> nat option res" where
  "find_in_byte VALUE m v i =
     (let byte = m (m_data v + i); byte = (if VALUE then byte else NOT byte) in
      verify (byte \<noteq> 0) (Inr (Some (i * 8 + ffs byte - 1))))"

definition find_first :: "bool \<Rightarrow> mem \<Rightarrow> bitmap_view \<Rightarrow> nat option res" where
  "find_first VALUE m v =
     (let byte_count = m_size v div 8;
          i = skip_bytes m (m_data v) 0 byte_count (if VALUE then 0x00 else 0xff) in
      if i = byte_count then Inr None else find_in_byte VALUE m v i)"

text \<open>
  The body of the \<^verbatim>\<open>for (;;)\<close> loop up to its \<^verbatim>\<open>continue\<close>; \<open>None\<close> when the pass found no bit.
\<close>

definition find_one_pass ::
  "bool \<Rightarrow> mem \<Rightarrow> bitmap_view \<Rightarrow> nat \<Rightarrow> nat \<Rightarrow> nat option res" where
  "find_one_pass VALUE m v end hint =
     (let ptr32 = word_align (m_data v + hint div 8);
          byte = (if VALUE then 0x00 else 0xff);
          start_ptr32 = ptr32 + 4 - m_data v;
          i = skip_bytes m (m_data v) 0 start_ptr32 byte in
      if ptr32 < m_data v \<and> i < start_ptr32 then find_in_byte VALUE m v i
      else
        (let ptr32 = (if ptr32 < m_data v then ptr32 + 4 else ptr32);
             end32 = word_align end;
             ptr32 = skip_words m ptr32 end32 (if VALUE then 0x0 else 0xffffffff) in
         if ptr32 = end32
         then
           (let byte_count = m_size v div 8;
                i = ptr32 - m_data v in
            verify (i \<le> byte_count)
              (let i = skip_bytes m (m_data v) i byte_count byte in
               if i = byte_count then Inr None else find_in_byte VALUE m v i))
         else
           (let val32 = load32 m ptr32; val32 = (if VALUE then val32 else NOT val32) in
            verify (val32 \<noteq> 0) (Inr (Some ((ptr32 - m_data v) * 8 + ffs val32 - 1))))))"

function find_one_loop ::
  "bool \<Rightarrow> mem \<Rightarrow> bitmap_view \<Rightarrow> nat \<Rightarrow> nat \<Rightarrow> nat option res" where
  "find_one_loop VALUE m v end hint =
     bind_res (find_one_pass VALUE m v end hint) (\<lambda>found.
       case found of
         Some i \<Rightarrow> Inr (Some i)
       | None \<Rightarrow>
           if hint \<le> 8 then Inr None
           else find_one_loop VALUE m v (word_align (m_data v + hint div 8)) 0)"
  by pat_completeness auto
termination by (relation "measure (\<lambda>(VALUE, m, v, end, hint). hint)") auto

definition find_one_anywhere :: "bool \<Rightarrow> mem \<Rightarrow> bitmap_view \<Rightarrow> nat \<Rightarrow> nat option res" where
  "find_one_anywhere VALUE m v hint =
     verify (hint < m_size v) (find_one_loop VALUE m v (m_data v + m_size v div 8) hint)"

subsection \<open>Searching for a range\<close>

definition max_size :: nat where
  "max_size = 0xffffffff"

text \<open>
  The loop over the bits of one bucket of 32: \<open>bucket\<close> is what is left of it after \<open>viewed_bits\<close>
  bits, \<open>start\<close> and \<open>free\<close> are \<^verbatim>\<open>*start_of_free_chunks\<close> and \<^verbatim>\<open>free_chunks\<close>, and the last component
  of the result is the value the function returns from inside the loop.
\<close>

function scan_bucket ::
  "nat \<Rightarrow> nat \<Rightarrow> nat \<Rightarrow> 32 word \<Rightarrow> nat \<Rightarrow> nat \<Rightarrow> nat \<Rightarrow> nat \<times> nat \<times> nat option" where
  "scan_bucket bucket_index min_length max_length bucket viewed_bits start free =
     (if viewed_bits < 32
      then
        (let start = (if free = 0 then bucket_index * 32 + viewed_bits else start) in
         if bucket = 0
         then scan_bucket bucket_index min_length max_length bucket 32 start
                (free + (32 - viewed_bits))
         else
           (let trailing_zeroes = ctz bucket;
                bucket = drop_bit trailing_zeroes bucket;
                free = free + trailing_zeroes;
                viewed_bits = viewed_bits + trailing_zeroes in
            if min_length \<le> free then (start, free, Some (min free max_length))
            else
              (let trailing_ones = ctz (NOT bucket) in
               scan_bucket bucket_index min_length max_length (drop_bit trailing_ones bucket)
                 (viewed_bits + trailing_ones) start 0)))
      else (start, free, None))"
  by pat_completeness auto

lemma ctz_not_drop_pos: "bucket \<noteq> 0 \<Longrightarrow> 0 < ctz (NOT (drop_bit (ctz bucket) bucket))"
  using ctz_nonzero(2) [of bucket]
  by (intro ctz_pos) (simp add: bit_not_iff bit_drop_bit_eq)

termination scan_bucket
  by (relation "measure (\<lambda>(b, mn, mx, bucket, viewed, start, free). 32 - viewed)")
     (auto dest: ctz_not_drop_pos)

function scan_buckets ::
  "mem \<Rightarrow> bitmap_view \<Rightarrow> nat \<Rightarrow> nat \<Rightarrow> nat \<Rightarrow> nat \<Rightarrow> nat \<Rightarrow> nat \<Rightarrow> nat \<times> nat \<times> nat option"
where
  "scan_buckets m v min_length max_length bucket_index start_bucket_bit start free =
     (if bucket_index < m_size v div 32
      then
        (let bucket = load32 m (m_data v + 4 * bucket_index) in
         if bucket = 0xffffffff
         then if min_length \<le> free then (start, free, Some (min free max_length))
              else scan_buckets m v min_length max_length (bucket_index + 1) 0 start 0
         else if bucket = 0x0
         then
           (let start = (if free = 0 then bucket_index * 32 else start);
                free = free + 32 in
            if max_length \<le> free then (start, free, Some max_length)
            else scan_buckets m v min_length max_length (bucket_index + 1) 0 start free)
         else
           (case scan_bucket bucket_index min_length max_length
                   (drop_bit start_bucket_bit bucket) start_bucket_bit start free of
              (start, free, Some r) \<Rightarrow> (start, free, Some r)
            | (start, free, None) \<Rightarrow>
                scan_buckets m v min_length max_length (bucket_index + 1) 0 start free))
      else (start, free, None))"
  by pat_completeness auto
termination
  by (relation "measure (\<lambda>(m, v, mn, mx, b, s, start, free). m_size v div 32 - b)") auto

function scan_trailing ::
  "mem \<Rightarrow> bitmap_view \<Rightarrow> nat \<Rightarrow> nat \<Rightarrow> nat \<Rightarrow> nat \<Rightarrow> nat \<Rightarrow> (nat \<times> nat option) res" where
  "scan_trailing m v min_length max_length i start free =
     (if i < m_size v mod 32
      then
        bind_res (bitmap_get m v (m_size v div 32 * 32 + i)) (\<lambda>b.
          if \<not> b
          then
            (let start = (if free = 0 then m_size v div 32 * 32 + i else start);
                 free = free + 1 in
             if min_length \<le> free then Inr (start, Some (min free max_length))
             else scan_trailing m v min_length max_length (i + 1) start free)
          else scan_trailing m v min_length max_length (i + 1) start 0)
      else Inr (start, None))"
  by pat_completeness auto
termination
  by (relation "measure (\<lambda>(m, v, mn, mx, i, start, free). m_size v mod 32 - i)") auto

text \<open>The result pairs the final value of the reference parameter \<^verbatim>\<open>from\<close> with the length found.\<close>

definition find_next_range_of_unset_bits ::
  "mem \<Rightarrow> bitmap_view \<Rightarrow> nat \<Rightarrow> nat \<Rightarrow> nat \<Rightarrow> (nat \<times> nat option) res" where
  "find_next_range_of_unset_bits m v from min_length max_length =
     (if max_length < min_length then Inr (from, None)
      else
        (case scan_buckets m v min_length max_length (from div 32) (from mod 32) from 0 of
           (start, free, Some r) \<Rightarrow> Inr (start, Some r)
         | (start, free, None) \<Rightarrow>
             if free < min_length
             then scan_trailing m v min_length max_length 0 start free
             else Inr (start, Some (min free max_length))))"

definition find_first_fit :: "mem \<Rightarrow> bitmap_view \<Rightarrow> nat \<Rightarrow> nat option res" where
  "find_first_fit m v minimum_length =
     bind_res (find_next_range_of_unset_bits m v 0 minimum_length minimum_length)
       (\<lambda>(start, found). Inr (case found of Some n \<Rightarrow> Some start | None \<Rightarrow> None))"

text \<open>
  The \<^verbatim>\<open>while (true)\<close> loops of \<^verbatim>\<open>find_longest_range_of_unset_bits\<close> and \<^verbatim>\<open>find_best_fit\<close>: the outer option is
  \<open>None\<close> when the loop does not end.
\<close>

partial_function (option) find_longest_loop ::
  "mem \<Rightarrow> bitmap_view \<Rightarrow> nat \<Rightarrow> nat \<Rightarrow> nat \<Rightarrow> nat \<Rightarrow> (nat option \<times> nat) res option" where
  "find_longest_loop m v max_length start max_region_start max_region_size =
     (case find_next_range_of_unset_bits m v start (max_region_size + 1) max_length of
        Inl e \<Rightarrow> Some (Inl e)
      | Inr (start, found) \<Rightarrow>
          (case found of
             Some n \<Rightarrow> find_longest_loop m v max_length (start + n) start n
           | None \<Rightarrow>
               Some (Inr (if max_region_size \<noteq> 0 then Some max_region_start else None,
                          max_region_size))))"

definition find_longest_range_of_unset_bits ::
  "mem \<Rightarrow> bitmap_view \<Rightarrow> nat \<Rightarrow> (nat option \<times> nat) res option" where
  "find_longest_range_of_unset_bits m v max_length = find_longest_loop m v max_length 0 0 0"

partial_function (option) find_best_loop ::
  "mem \<Rightarrow> bitmap_view \<Rightarrow> nat \<Rightarrow> nat \<Rightarrow> nat \<Rightarrow> nat \<Rightarrow> bool \<Rightarrow> nat option res option" where
  "find_best_loop m v minimum_length start best_region_start best_region_size found =
     (case find_next_range_of_unset_bits m v start minimum_length best_region_size of
        Inl e \<Rightarrow> Some (Inl e)
      | Inr (start, Some n) \<Rightarrow>
          if n < best_region_size \<or> \<not> found
          then find_best_loop m v minimum_length (start + n) start n True
          else find_best_loop m v minimum_length (start + n) best_region_start best_region_size found
      | Inr (start, None) \<Rightarrow> Some (Inr (if found then Some best_region_start else None)))"

definition find_best_fit :: "mem \<Rightarrow> bitmap_view \<Rightarrow> nat \<Rightarrow> nat option res option" where
  "find_best_fit m v minimum_length = find_best_loop m v minimum_length 0 0 max_size False"

subsection \<open>The owning bitmap\<close>

text \<open>
  \<^verbatim>\<open>Bitmap\<close> owns its bytes; \<open>fresh\<close> is the address that \<^verbatim>\<open>kmalloc\<close> returns, and \<^verbatim>\<open>nullptr\<close> is address 0.
\<close>

definition bitmap_construct :: "mem \<Rightarrow> nat \<Rightarrow> nat \<Rightarrow> bool \<Rightarrow> (mem \<times> bitmap_view) res" where
  "bitmap_construct m fresh new_size default_value =
     verify (new_size \<noteq> 0)
       (let v = \<lparr>m_data = fresh, m_size = new_size\<rparr> in Inr (bitmap_fill m v default_value, v))"

definition bitmap_grow ::
  "mem \<Rightarrow> bitmap_view \<Rightarrow> nat \<Rightarrow> nat \<Rightarrow> bool \<Rightarrow> (mem \<times> bitmap_view) res" where
  "bitmap_grow m v fresh new_size default_value =
     verify (m_size v < new_size)
       (let previous_size_bytes = size_in_bytes v;
            previous_size = m_size v;
            previous_data = m_data v;
            v = \<lparr>m_data = fresh, m_size = new_size\<rparr>;
            m = bitmap_fill m v default_value in
        if previous_data \<noteq> 0
        then
          (let m = memcpy m fresh previous_data previous_size_bytes in
           bind_res
             (if previous_size mod 8 \<noteq> 0
              then set_range m v previous_size (8 - previous_size mod 8) default_value
              else Inr m)
             (\<lambda>m. Inr (m, v)))
        else Inr (m, v))"

declare count_bytes.simps [simp del] count_words.simps [simp del] skip_bytes.simps [simp del]
  skip_words.simps [simp del] find_one_loop.simps [simp del] scan_bucket.simps [simp del]
  scan_buckets.simps [simp del] scan_trailing.simps [simp del]
  find_longest_loop.simps [code] find_best_loop.simps [code]

section \<open>The bits of a bitmap\<close>

definition bit_at :: "mem \<Rightarrow> bitmap_view \<Rightarrow> nat \<Rightarrow> bool" where
  "bit_at m v i = bit (m (m_data v + i div 8)) (i mod 8)"

text \<open>
  The memory with the bits \<open>start ..< start + len\<close> of the map replaced, described by what it holds:
  the addresses below the map and the bits of the map, which together are the whole memory from
  the map on.
\<close>

definition range_set_to :: "bool \<Rightarrow> mem \<Rightarrow> bitmap_view \<Rightarrow> nat \<Rightarrow> nat \<Rightarrow> mem \<Rightarrow> bool" where
  "range_set_to val m v start len m' \<longleftrightarrow>
     (\<forall>a. a < m_data v \<longrightarrow> m' a = m a) \<and>
     (\<forall>i. bit_at m' v i = (if start \<le> i \<and> i < start + len then val else bit_at m v i))"

definition range_unset :: "mem \<Rightarrow> bitmap_view \<Rightarrow> nat \<Rightarrow> nat \<Rightarrow> bool" where
  "range_unset m v start len \<longleftrightarrow> (\<forall>i. start \<le> i \<and> i < start + len \<longrightarrow> \<not> bit_at m v i)"

lemma bit_at_upd:
  "bit_at (m(m_data v + k := b)) v i = (if i div 8 = k then bit b (i mod 8) else bit_at m v i)"
  by (simp add: bit_at_def)

lemma bit_at_memset:
  "bit_at (memset m (m_data v + k) b n) v i =
     (if k \<le> i div 8 \<and> i div 8 < k + n then bit b (i mod 8) else bit_at m v i)"
  by (simp add: bit_at_def memset_apply)

lemma bitmap_get_bit [res_simps]:
  "index < m_size v \<Longrightarrow> bitmap_get m v index = Inr (bit_at m v index)"
  by (simp add: bitmap_get_def bit_at_def bit_iff_and_push_bit_not_eq_0 [of _ "index mod 8"]
      eq_commute [of 0])

lemma below_8: "(j::nat) < 8 \<longleftrightarrow> j \<in> set [0..<8]"
  by simp

lemma first_byte_mask:
  assumes "k < 8" "j < 8"
  shows "bit (bitmask_first_byte ! k) j \<longleftrightarrow> k \<le> j"
proof -
  have "\<forall>k\<in>set [0..<8]. \<forall>j\<in>set [0..<8]. bit (bitmask_first_byte ! k) j \<longleftrightarrow> k \<le> j"
    by code_simp
  with assms show ?thesis by (simp only: below_8)
qed

lemma last_byte_mask:
  assumes "k < 8" "j < 8"
  shows "bit (bitmask_last_byte ! k) j \<longleftrightarrow> j < k"
proof -
  have "\<forall>k\<in>set [0..<8]. \<forall>j\<in>set [0..<8]. bit (bitmask_last_byte ! k) j \<longleftrightarrow> j < k"
    by code_simp
  with assms show ?thesis by (simp only: below_8)
qed

lemma bit_full_byte: "bit (0xFF :: 8 word) j \<longleftrightarrow> j < 8"
proof -
  have "(0xFF :: 8 word) = - 1" by simp
  then show ?thesis by (simp only: bit_minus_1_iff possible_bit_word) simp
qed

lemma bit_apply_mask:
  "j < 8 \<Longrightarrow> bit (apply_mask VALUE byte byte_mask) j = (if bit byte_mask j then VALUE else bit byte j)"
  by (auto simp: apply_mask_def bit_or_iff bit_and_iff bit_not_iff)

lemma mask_flips_iff:
  "mask_flips VALUE byte byte_mask \<longleftrightarrow> (\<forall>j<8. bit byte_mask j \<longrightarrow> bit byte j = (\<not> VALUE))"
  by (auto simp: mask_flips_def bit_eq_iff bit_and_iff dest: bit_imp_le_length)

lemma block_le: "b < 8 \<Longrightarrow> d < 8 \<Longrightarrow> 8 * a + b \<le> 8 * c + d \<longleftrightarrow> a < c \<or> a = c \<and> b \<le> d"
  for a b c d :: nat
  by (cases a c rule: linorder_cases) auto

lemma le_by_div_8:
  "(s::nat) \<le> i \<longleftrightarrow> s div 8 < i div 8 \<or> s div 8 = i div 8 \<and> s mod 8 \<le> i mod 8"
  using block_le [of "s mod 8" "i mod 8" "s div 8" "i div 8"] by simp

lemma less_by_div_8:
  "(i::nat) < e \<longleftrightarrow> i div 8 < e div 8 \<or> i div 8 = e div 8 \<and> i mod 8 < e mod 8"
  using le_by_div_8 [of e i] by auto

lemma bits_determine_byte:
  "m' a = m a" if "m_data v \<le> a" "\<forall>i. bit_at m' v i = bit_at m v i"
proof (rule bit_word_eqI)
  fix j assume "j < LENGTH(8)"
  then have "(8 * (a - m_data v) + j) div 8 = a - m_data v" "(8 * (a - m_data v) + j) mod 8 = j"
    by auto
  moreover have "bit_at m' v (8 * (a - m_data v) + j) = bit_at m v (8 * (a - m_data v) + j)"
    using that(2) by blast
  ultimately show "bit (m' a) j = bit (m a) j"
    using that(1) by (simp only: bit_at_def le_add_diff_inverse)
qed

section \<open>Setting a range\<close>

lemma range_one_byte:
  assumes "start div 8 = e div 8"
  shows "bit_at (m(m_data v + start div 8 :=
            apply_mask VALUE (m (m_data v + start div 8))
              (bitmask_first_byte ! (start mod 8) AND bitmask_last_byte ! (e mod 8)))) v i =
         (if start \<le> i \<and> i < e then VALUE else bit_at m v i)"
  using assms
  by (auto simp: bit_at_upd bit_apply_mask bit_and_iff first_byte_mask last_byte_mask bit_at_def
      le_by_div_8 [of start i] less_by_div_8 [of i e])

lemma range_many_bytes:
  fixes m :: mem and v :: bitmap_view and VALUE :: bool
  assumes "start div 8 < e div 8"
  defines "m1 \<equiv> m(m_data v + start div 8 := apply_mask VALUE (m (m_data v + start div 8))
                     (bitmask_first_byte ! (start mod 8)))"
  defines "m2 \<equiv> m1(m_data v + e div 8 := apply_mask VALUE (m1 (m_data v + e div 8))
                     (bitmask_last_byte ! (e mod 8)))"
  shows "bit_at (memset m2 (m_data v + (start div 8 + 1)) (if VALUE then 0xFF else 0x0)
            (e div 8 - (start div 8 + 1))) v i =
         (if start \<le> i \<and> i < e then VALUE else bit_at m v i)"
proof -
  have m1: "bit_at m1 v i = (if i div 8 = start div 8 \<and> start \<le> i then VALUE else bit_at m v i)"
    using le_by_div_8 [of start i]
    by (cases "i div 8 = start div 8")
       (simp_all add: m1_def bit_at_upd bit_apply_mask first_byte_mask bit_at_def)
  have m2: "bit_at m2 v i = (if i div 8 = e div 8 \<and> i < e then VALUE else bit_at m1 v i)"
    using less_by_div_8 [of i e]
    by (cases "i div 8 = e div 8")
       (simp_all add: m2_def bit_at_upd bit_apply_mask last_byte_mask bit_at_def)
  have "start \<le> i \<and> i < e \<longleftrightarrow>
      start div 8 + 1 \<le> i div 8 \<and> i div 8 < e div 8 \<or>
      i div 8 = e div 8 \<and> i < e \<or> i div 8 = start div 8 \<and> start \<le> i"
    using assms(1) le_by_div_8 [of start i] less_by_div_8 [of i e] by linarith
  moreover have "bit (if VALUE then 0xFF else 0x0 :: 8 word) (i mod 8) = VALUE"
    using bit_full_byte [of "i mod 8"] by (cases VALUE) simp_all
  ultimately show ?thesis
    using assms(1) by (simp only: bit_at_memset m2 m1) simp
qed

lemma set_range_template_bits:
  assumes "start < m_size v" and "start + len \<le> m_size v" and "m_size v < 2 ^ 32"
    and flip: "flip \<Longrightarrow> \<forall>i. start \<le> i \<and> i < start + len \<longrightarrow> bit_at m v i = (\<not> VALUE)"
  shows "\<exists>m'. set_range_template VALUE flip m v start len = Inr m' \<and>
              range_set_to VALUE m v start len m'"
proof (cases "len = 0")
  case True
  with assms show ?thesis
    by (auto simp: set_range_template_def size_add_def range_set_to_def)
next
  case False
  define e where "e = start + len"
  have e: "size_add start len = e" "e \<le> m_size v" "start < e"
    using assms False by (simp_all add: size_add_id e_def)
  have byte: "bit_at m v (8 * k + j) = bit (m (m_data v + k)) j" if "j < 8" for j k
    using that by (simp add: bit_at_def)
  have in_range: "flip \<Longrightarrow> start \<le> 8 * k + j \<Longrightarrow> 8 * k + j < e \<Longrightarrow> j < 8 \<Longrightarrow>
      bit (m (m_data v + k)) j \<longleftrightarrow> \<not> VALUE" for j k
    using flip byte [of j k] by (simp add: e_def)
  have st: "j < 8 \<Longrightarrow> start \<le> 8 * (start div 8) + j \<longleftrightarrow> start mod 8 \<le> j"
    and en: "j < 8 \<Longrightarrow> 8 * (e div 8) + j < e \<longleftrightarrow> j < e mod 8" for j
    by (simp_all add: le_by_div_8 [of start] less_by_div_8 [of _ e])
  have st_en: "8 * (start div 8) + j < e" "start \<le> 8 * (e div 8) + j"
    if "start div 8 < e div 8" "j < 8" for j
    using that by (simp_all add: le_by_div_8 [of start] less_by_div_8 [of _ e])
  consider "start div 8 = e div 8" | "start div 8 < e div 8"
    using e(3) by (metis div_le_mono le_neq_implies_less less_imp_le_nat)
  then show ?thesis
  proof cases
    case 1
    have "flip \<Longrightarrow> mask_flips VALUE (m (m_data v + start div 8))
        (bitmask_first_byte ! (start mod 8) AND bitmask_last_byte ! (e mod 8))"
      unfolding mask_flips_iff bit_and_iff using st en 1 in_range [of "start div 8"]
      by (simp add: first_byte_mask last_byte_mask)
    then show ?thesis
      using 1 assms False e range_one_byte [OF 1, of m v VALUE]
      by (auto simp: set_range_template_def range_set_to_def Let_def e_def)
  next
    case 2
    have "flip \<Longrightarrow> mask_flips VALUE (m (m_data v + start div 8)) (bitmask_first_byte ! (start mod 8))"
      unfolding mask_flips_iff using st en st_en [OF 2] in_range [of "start div 8"]
      by (simp add: first_byte_mask)
    moreover have "flip \<Longrightarrow> mask_flips VALUE (m (m_data v + e div 8)) (bitmask_last_byte ! (e mod 8))"
      unfolding mask_flips_iff using st en st_en [OF 2] in_range [of "e div 8"]
      by (simp add: last_byte_mask)
    ultimately show ?thesis
      using 2 assms False e range_many_bytes [OF 2, of m v VALUE]
      by (auto simp: set_range_template_def range_set_to_def Let_def e_def memset_apply)
  qed
qed

section \<open>Searching for a range of unset bits\<close>

text \<open>
  The state of the search when the bits below \<open>p\<close> have been seen: the \<open>free\<close> bits before \<open>p\<close> are
  unset and begin at \<open>start\<close>, and every range of \<open>mn\<close> bits that begins at \<open>from\<close> or later and before
  them has a set bit.
\<close>

definition scan_inv ::
  "mem \<Rightarrow> bitmap_view \<Rightarrow> nat \<Rightarrow> nat \<Rightarrow> nat \<Rightarrow> nat \<Rightarrow> nat \<Rightarrow> nat \<Rightarrow> bool" where
  "scan_inv m v mn from lo p start free \<longleftrightarrow>
     lo + free \<le> p \<and> (0 < free \<longrightarrow> start = p - free) \<and>
     (\<forall>i. p \<le> i + free \<and> i < p \<longrightarrow> \<not> bit_at m v i) \<and>
     (\<forall>q. from \<le> q \<and> q + free < p \<longrightarrow> \<not> range_unset m v q mn)"

definition scan_found ::
  "mem \<Rightarrow> bitmap_view \<Rightarrow> nat \<Rightarrow> nat \<Rightarrow> nat \<Rightarrow> nat \<Rightarrow> nat \<Rightarrow> nat \<Rightarrow> nat \<Rightarrow> nat \<Rightarrow> bool" where
  "scan_found m v mn mx from lo e start free n \<longleftrightarrow>
     (\<exists>p\<le>e. scan_inv m v mn from lo p start free) \<and> mn \<le> free \<and> n = min free mx"

lemma scan_inv_extend:
  assumes "scan_inv m v mn from lo p start free"
    and "\<And>i. p \<le> i \<Longrightarrow> i < p + k \<Longrightarrow> \<not> bit_at m v i"
  shows "scan_inv m v mn from lo (p + k) (if free = 0 then p else start) (free + k)"
  using assms unfolding scan_inv_def by (auto simp: not_less [symmetric])

lemma scan_inv_restart:
  assumes "scan_inv m v mn from lo p start 0"
  shows "scan_inv m v mn from lo p start' 0"
  using assms by (simp add: scan_inv_def)

lemma scan_inv_reset:
  assumes inv: "scan_inv m v mn from lo p start free" and "free < mn" and "0 < k"
    and set: "\<And>i. p \<le> i \<Longrightarrow> i < p + k \<Longrightarrow> bit_at m v i"
  shows "scan_inv m v mn from lo (p + k) start' 0"
proof -
  have "\<not> range_unset m v q mn" if "from \<le> q" "q < p + k" for q
  proof (cases "q + free < p")
    case True
    with that inv show ?thesis by (simp add: scan_inv_def)
  next
    case False
    have "bit_at m v (max q p)" using that set \<open>0 < k\<close> by simp
    then show ?thesis using False \<open>free < mn\<close> by (auto simp: range_unset_def max_def split: if_splits)
  qed
  with inv show ?thesis by (auto simp: scan_inv_def)
qed

lemma scan_found_mono:
  "scan_found m v mn mx from lo e start free n \<Longrightarrow> e \<le> e' \<Longrightarrow>
   scan_found m v mn mx from lo e' start free n"
  by (auto simp: scan_found_def intro: order_trans)

text \<open>What a bucket, shifted by the bits already seen, says of the bits of the map.\<close>

definition bucket_bits :: "mem \<Rightarrow> bitmap_view \<Rightarrow> nat \<Rightarrow> 32 word \<Rightarrow> bool" where
  "bucket_bits m v idx w \<longleftrightarrow> (\<forall>i. bit w i \<longleftrightarrow> i < 32 \<and> bit_at m v (32 * idx + i))"

lemma bucket_bits_drop:
  "bucket_bits m v idx w \<Longrightarrow>
   bit (drop_bit k w) i \<longleftrightarrow> k + i < 32 \<and> bit_at m v (32 * idx + k + i)"
  by (simp add: bucket_bits_def bit_drop_bit_eq ac_simps)

lemma bucket_zeroes:
  assumes "bucket_bits m v idx w" and "32 * idx + viewed \<le> i"
    and "i < 32 * idx + viewed + ctz (drop_bit viewed w)" and "i < 32 * idx + 32"
  shows "\<not> bit_at m v i"
  using assms ctz_below [of "i - (32 * idx + viewed)" "drop_bit viewed w"]
    bucket_bits_drop [OF assms(1), of viewed "i - (32 * idx + viewed)"] by simp

lemma bucket_tz_bound:
  assumes "bucket_bits m v idx w" and "drop_bit viewed w \<noteq> 0"
  shows "viewed + ctz (drop_bit viewed w) < 32"
  using ctz_nonzero(2) [OF assms(2)] bucket_bits_drop [OF assms(1)] by blast

lemma bucket_ones:
  assumes "bucket_bits m v idx w" and "w \<noteq> -1" and "k < 32"
  shows "k + ctz (NOT (drop_bit k w)) \<le> 32"
    and "32 * idx + k \<le> i \<Longrightarrow> i < 32 * idx + k + ctz (NOT (drop_bit k w)) \<Longrightarrow> bit_at m v i"
proof -
  show le: "k + ctz (NOT (drop_bit k w)) \<le> 32"
  proof (cases "k = 0")
    case True
    have "NOT w \<noteq> 0" using assms(2) by (metis bit.double_compl bit.compl_zero)
    with True show ?thesis using ctz_nonzero(1) [of "NOT w"] by simp
  next
    case False
    then have "bit (NOT (drop_bit k w)) (32 - k)"
      using assms(3) by (simp add: bit_not_iff bucket_bits_drop [OF assms(1)])
    then show ?thesis using ctz_le [of "NOT (drop_bit k w)"] assms(3) by fastforce
  qed
  show "bit_at m v i"
    if "32 * idx + k \<le> i" "i < 32 * idx + k + ctz (NOT (drop_bit k w))"
    using that le ctz_below [of "i - (32 * idx + k)" "NOT (drop_bit k w)"]
      bucket_bits_drop [OF assms(1), of k "i - (32 * idx + k)"] by (simp add: bit_not_iff)
qed

lemma scan_bucket_inv:
  assumes "scan_inv m v mn from lo (32 * idx + viewed) start free"
    and "bucket_bits m v idx w" and "w \<noteq> -1" and "bucket = drop_bit viewed w"
    and "viewed \<le> 32" and "0 < mn"
    and "scan_bucket idx mn mx bucket viewed start free = (start', free', r)"
  shows "case r of
           None \<Rightarrow> scan_inv m v mn from lo (32 * idx + 32) start' free'
         | Some n \<Rightarrow> scan_found m v mn mx from lo (32 * idx + 32) start' free' n"
  using assms
proof (induction idx mn mx bucket viewed start free rule: scan_bucket.induct)
  case (1 idx mn mx bucket viewed start free)
  note inv = 1(3) and w = 1(4) and nf = 1(5) and bucket = 1(6) and res = 1(9)
  define start1 where "start1 = (if free = 0 then idx * 32 + viewed else start)"
  have ext: "scan_inv m v mn from lo (32 * idx + viewed + k) start1 (free + k)"
    if "k \<le> ctz bucket" "viewed + k \<le> 32" for k
    unfolding start1_def mult.commute [of idx 32]
    using scan_inv_extend [OF inv, of k] bucket_zeroes [OF w, of viewed] that
    by (simp add: bucket)
  consider "viewed = 32" | "viewed < 32" "bucket = 0" | "viewed < 32" "bucket \<noteq> 0"
    using 1(7) by linarith
  then show ?case
  proof cases
    case 1
    with inv res show ?thesis by (auto simp: scan_bucket.simps [of _ _ _ _ 32])
  next
    case 2
    have "(start', free', r) = (start1, free + (32 - viewed), None)"
      using res 2
      by (simp add: scan_bucket.simps [of idx mn mx 0 viewed] scan_bucket.simps [of _ _ _ _ 32]
          start1_def Let_def)
    with 2 ext [of "32 - viewed"] show ?thesis by simp
  next
    case 3
    define tz where "tz = ctz bucket"
    define b1 where "b1 = drop_bit tz bucket"
    define ones where "ones = ctz (NOT b1)"
    have b1: "b1 = drop_bit (viewed + tz) w" by (simp add: b1_def bucket drop_bit_drop_bit add.commute)
    have tz32: "viewed + tz < 32" using bucket_tz_bound [OF w] 3 by (simp add: tz_def bucket)
    have inv1: "scan_inv m v mn from lo (32 * idx + (viewed + tz)) start1 (free + tz)"
      using ext [of tz] tz32 by (simp add: tz_def add.assoc)
    show ?thesis
    proof (cases "mn \<le> free + tz")
      case True
      have "(start', free', r) = (start1, free + tz, Some (min (free + tz) mx))"
        using res 3 True
        by (auto simp: scan_bucket.simps [of idx mn mx bucket viewed] start1_def tz_def Let_def)
      then show ?thesis using inv1 True tz32
        by (auto simp: scan_found_def intro!: exI [of _ "32 * idx + (viewed + tz)"])
    next
      case short: False
      have pos: "0 < ones" using ctz_not_drop_pos [OF 3(2)] by (simp add: ones_def b1_def tz_def)
      note ones = bucket_ones [OF w nf tz32, folded b1 ones_def]
      have inv2: "scan_inv m v mn from lo (32 * idx + (viewed + tz + ones)) start1 0"
        using scan_inv_reset [OF inv1 _ pos ones(2)] short by (simp add: add.assoc)
      have "scan_bucket idx mn mx (drop_bit ones b1) (viewed + tz + ones) start1 0 = (start', free', r)"
        using res 3 short
        by (simp add: scan_bucket.simps [of idx mn mx bucket viewed] start1_def tz_def b1_def
            ones_def Let_def)
      moreover have "drop_bit ones b1 = drop_bit (viewed + tz + ones) w"
        by (simp add: b1 drop_bit_drop_bit add.commute)
      ultimately show ?thesis
        using "1.IH"(2) [OF 3(1) start1_def 3(2) tz_def b1_def refl refl short ones_def
            inv2 w nf _ ones(1) \<open>0 < mn\<close>]
        by simp
    qed
  qed
qed

lemma load_bucket_bits: "bucket_bits m v idx (load32 m (m_data v + 4 * idx))"
proof -
  have "(32 * idx + i) div 8 = 4 * idx + i div 8" "(32 * idx + i) mod 8 = i mod 8" for i
    using div_mult_self1 [of 8 i "4 * idx"] mod_mult_self1 [of i "4 * idx" 8]
    by (simp_all add: ac_simps)
  then show ?thesis
    by (simp add: bucket_bits_def bit_load32 bit_at_def add.assoc)
qed

lemma full_bucket: "bucket_bits m v idx (-1) \<Longrightarrow> 32 * idx \<le> i \<Longrightarrow> i < 32 * idx + 32 \<Longrightarrow> bit_at m v i"
  unfolding bucket_bits_def
  by (drule spec [of _ "i - 32 * idx"]) auto

lemma empty_bucket: "bucket_bits m v idx 0 \<Longrightarrow> 32 * idx \<le> i \<Longrightarrow> i < 32 * idx + 32 \<Longrightarrow> \<not> bit_at m v i"
  unfolding bucket_bits_def
  by (drule spec [of _ "i - 32 * idx"]) auto

lemma scan_inv_empty_bucket:
  assumes "scan_inv m v mn from lo (32 * idx + sb) start free" and "sb < 32"
    and "sb \<noteq> 0 \<Longrightarrow> free = 0 \<and> from = 32 * idx + sb \<and> lo = 32 * idx"
    and "bucket_bits m v idx 0"
  shows "scan_inv m v mn from lo (32 * idx + 32) (if free = 0 then idx * 32 else start) (free + 32)"
proof (cases "sb = 0")
  case True
  with scan_inv_extend [of m v mn "from" lo "32 * idx" start free 32] empty_bucket [OF assms(4)] assms(1)
  show ?thesis by (cases "free = 0") (auto simp: mult.commute [of idx 32])
next
  case False
  with assms(3) empty_bucket [OF assms(4)] show ?thesis by (auto simp: scan_inv_def)
qed

lemma scan_buckets_inv:
  assumes "scan_inv m v mn from lo (32 * idx + sb) start free" and "sb < 32"
    and "sb \<noteq> 0 \<Longrightarrow> free = 0 \<and> from = 32 * idx + sb \<and> lo = 32 * idx"
    and "idx \<le> m_size v div 32" and "0 < mn" and "mn \<le> mx"
    and "scan_buckets m v mn mx idx sb start free = (start', free', r)"
  shows "case r of
           None \<Rightarrow> scan_inv m v mn from lo (32 * (m_size v div 32)) start' free'
         | Some n \<Rightarrow> scan_found m v mn mx from lo (32 * (m_size v div 32)) start' free' n"
  using assms
proof (induction m v mn mx idx sb start free rule: scan_buckets.induct)
  case (1 m v mn mx idx sb start free)
  note inv = 1(4) and sb = 1(5) and first = 1(6) and le = 1(7) and mn = 1(8) and mx = 1(9)
    and res = 1(10) [unfolded scan_buckets.simps [of m v mn mx idx]]
  define w where "w = load32 m (m_data v + 4 * idx)"
  have w: "bucket_bits m v idx w" by (simp add: w_def load_bucket_bits)
  show ?case
  proof (cases "idx < m_size v div 32")
    case False
    with le have [simp]: "m_size v div 32 = idx" by simp
    from inv first have "scan_inv m v mn from lo (32 * idx) start free"
      by (cases "sb = 0") (auto simp: scan_inv_def)
    with res show ?thesis by auto
  next
    case in_range: True
    then have below: "32 * idx + 32 \<le> 32 * (m_size v div 32)" by simp
    have next_in: "32 * idx + 32 = 32 * (idx + 1) + 0" "idx + 1 \<le> m_size v div 32"
      using in_range by simp_all
    have ones: "(0xffffffff :: 32 word) = -1" by simp
    consider (full) "w = -1" | (empty) "w = 0" | (mixed) "w \<noteq> -1" "w \<noteq> 0" by blast
    then show ?thesis
    proof cases
      case full
      show ?thesis
      proof (cases "mn \<le> free")
        case True
        with res full in_range inv sb below show ?thesis
          by (auto simp: w_def scan_found_def ones intro!: exI [of _ "32 * idx + sb"])
      next
        case False
        then have "scan_inv m v mn from lo (32 * idx + sb + (32 - sb)) start 0"
          using full w sb full_bucket [of m v idx] by (intro scan_inv_reset [OF inv]) auto
        then have "scan_inv m v mn from lo (32 * (idx + 1) + 0) start 0"
          using sb by (simp add: next_in)
        moreover have "scan_buckets m v mn mx (idx + 1) 0 start 0 = (start', free', r)"
          using res full in_range False by (simp add: w_def ones)
        ultimately show ?thesis
          using "1.IH"(1) [OF in_range w_def _ False] full next_in mn mx by (simp add: ones)
      qed
    next
      case empty
      define start1 where "start1 = (if free = 0 then idx * 32 else start)"
      have ext: "scan_inv m v mn from lo (32 * idx + 32) start1 (free + 32)"
        unfolding start1_def using scan_inv_empty_bucket [OF inv sb first] w empty by simp
      show ?thesis
      proof (cases "mx \<le> free + 32")
        case True
        then have "(start', free', r) = (start1, free + 32, Some mx)"
          using res empty in_range by (simp add: w_def start1_def Let_def)
        with ext True mx below show ?thesis by (auto simp: scan_found_def)
      next
        case False
        then have "scan_buckets m v mn mx (idx + 1) 0 start1 (free + 32) = (start', free', r)"
          using res empty in_range by (simp add: w_def start1_def Let_def)
        then show ?thesis
          using "1.IH"(2) [OF in_range w_def _ _ start1_def refl False] empty ext next_in mn mx by simp
      qed
    next
      case mixed
      obtain s f q where sc: "scan_bucket idx mn mx (drop_bit sb w) sb start free = (s, f, q)"
        by (metis prod_cases3)
      note step = scan_bucket_inv [OF inv w mixed(1) refl less_imp_le [OF sb] mn sc]
      show ?thesis
      proof (cases q)
        case None
        then have "scan_buckets m v mn mx (idx + 1) 0 s f = (start', free', r)"
          using res mixed in_range sc by (simp add: w_def [symmetric] ones)
        with None step show ?thesis
          using "1.IH"(3) [OF in_range w_def _ _ sc [symmetric] refl None] mixed next_in mn mx
          by (simp add: ones)
      next
        case (Some n)
        then have "(start', free', r) = (s, f, Some n)"
          using res mixed in_range sc by (simp add: w_def [symmetric] ones)
        with Some step scan_found_mono [OF _ below] show ?thesis by simp
      qed
    qed
  qed
qed

lemma tail_index: "i < n mod 32 \<Longrightarrow> 32 * (n div 32) + i < n" for i n :: nat
  by (metis add_less_cancel_left mult_div_mod_eq)

lemma scan_trailing_inv:
  assumes "scan_inv m v mn from lo (32 * (m_size v div 32) + i) start free" and "free < mn"
    and "i \<le> m_size v mod 32"
  shows "\<exists>start' r. scan_trailing m v mn mx i start free = Inr (start', r) \<and>
     (case r of
        None \<Rightarrow> \<exists>f<mn. scan_inv m v mn from lo (m_size v) start' f
      | Some n \<Rightarrow> \<exists>f. scan_found m v mn mx from lo (m_size v) start' f n)"
  using assms
proof (induction m v mn mx i start free rule: scan_trailing.induct)
  case (1 m v mn mx i start free)
  note short = "1.prems"(2)
  define p where "p = 32 * (m_size v div 32) + i"
  have inv: "scan_inv m v mn from lo p start free" using "1.prems"(1) by (simp add: p_def)
  show ?case
  proof (cases "i < m_size v mod 32")
    case False
    with "1.prems"(3) have "p = m_size v" by (simp add: p_def)
    with inv short False show ?thesis by (auto simp: scan_trailing.simps [of m v mn mx i])
  next
    case True
    then have p: "p < m_size v" "m_size v div 32 * 32 + i = p" "p + 1 = 32 * (m_size v div 32) + (i + 1)"
      by (auto simp: p_def tail_index)
    then have get: "bitmap_get m v (m_size v div 32 * 32 + i) = Inr (bit_at m v p)"
      by (simp only: bitmap_get_bit)
    show ?thesis
    proof (cases "bit_at m v p")
      case set: True
      have "scan_inv m v mn from lo (p + 1) start 0"
        using inv short set by (intro scan_inv_reset [OF inv]) (auto simp: le_less_Suc_eq)
      with "1.IH"(2) [OF True get] set True get short p(3) show ?thesis
        by (simp add: scan_trailing.simps [of m v mn mx i] p_def)
    next
      case unset: False
      define start1 where "start1 = (if free = 0 then p else start)"
      have ext: "scan_inv m v mn from lo (p + 1) start1 (free + 1)"
        unfolding start1_def using unset by (intro scan_inv_extend [OF inv]) (auto simp: le_less_Suc_eq)
      have eq: "scan_trailing m v mn mx i start free =
          (if mn \<le> free + 1 then Inr (start1, Some (min (free + 1) mx))
           else scan_trailing m v mn mx (i + 1) start1 (free + 1))"
        using True get unset p(2)
        by (simp add: scan_trailing.simps [of m v mn mx i] start1_def Let_def)
      show ?thesis
      proof (cases "mn \<le> free + 1")
        case found: True
        then have "scan_found m v mn mx from lo (m_size v) start1 (free + 1) (min (free + 1) mx)"
          using ext p(1) by (auto simp: scan_found_def intro!: exI [of _ "p + 1"])
        with found show ?thesis unfolding eq by auto
      next
        case more: False
        then show ?thesis unfolding eq
          using "1.IH"(1) [OF True get unset start1_def [unfolded p(2) [symmetric]] refl] ext p(3) True
          by simp
      qed
    qed
  qed
qed

lemma scan_found_result:
  assumes "scan_found m v mn mx from lo e start free n" and "0 < mn" and "mn \<le> mx"
  shows "mn \<le> n" and "n \<le> mx" and "lo \<le> start" and "start + n \<le> e"
    and "range_unset m v start n"
    and "\<forall>q. from \<le> q \<and> q < start \<longrightarrow> \<not> range_unset m v q mn"
proof -
  obtain p where inv: "scan_inv m v mn from lo p start free" "p \<le> e"
    and n: "mn \<le> free" "n = min free mx"
    using assms(1) by (auto simp: scan_found_def)
  then have start: "start = p - free" "lo + free \<le> p" using assms(2) by (simp_all add: scan_inv_def)
  show "mn \<le> n" "n \<le> mx" "lo \<le> start" "start + n \<le> e"
    using n assms(3) start inv(2) by auto
  show "range_unset m v start n"
    unfolding range_unset_def
  proof (intro allI impI)
    fix i assume "start \<le> i \<and> i < start + n"
    then have "p \<le> i + free \<and> i < p" using start n by auto
    with inv(1) show "\<not> bit_at m v i" by (simp add: scan_inv_def)
  qed
  show "\<forall>q. from \<le> q \<and> q < start \<longrightarrow> \<not> range_unset m v q mn"
    using inv(1) start by (auto simp: scan_inv_def)
qed

lemma find_next_range_result:
  assumes "0 < mn" and "mn \<le> mx" and "from \<le> m_size v"
  shows "\<exists>start r. find_next_range_of_unset_bits m v from mn mx = Inr (start, r) \<and>
     (case r of
        None \<Rightarrow> \<forall>q. from \<le> q \<and> q + mn \<le> m_size v \<longrightarrow> \<not> range_unset m v q mn
      | Some n \<Rightarrow>
          mn \<le> n \<and> n \<le> mx \<and> 32 * (from div 32) \<le> start \<and> start + n \<le> m_size v \<and>
          range_unset m v start n \<and>
          (\<forall>q. from \<le> q \<and> q < start \<longrightarrow> \<not> range_unset m v q mn))"
proof -
  let ?lo = "32 * (from div 32)"
  have init: "scan_inv m v mn from ?lo (?lo + from mod 32) from 0"
    by (auto simp: scan_inv_def)
  obtain s f r where sc: "scan_buckets m v mn mx (from div 32) (from mod 32) from 0 = (s, f, r)"
    by (metis prod_cases3)
  have buckets: "case r of
           None \<Rightarrow> scan_inv m v mn from ?lo (32 * (m_size v div 32)) s f
         | Some n \<Rightarrow> scan_found m v mn mx from ?lo (32 * (m_size v div 32)) s f n"
    using scan_buckets_inv [OF init _ _ div_le_mono [OF assms(3)] assms(1,2) sc] by simp
  note result = scan_found_result [OF _ assms(1,2), where lo = ?lo]
  have whole: "32 * (m_size v div 32) \<le> m_size v" by simp
  show ?thesis
  proof (cases r)
    case (Some n)
    with buckets have "scan_found m v mn mx from ?lo (m_size v) s f n"
      using scan_found_mono [OF _ whole] by simp
    from result [OF this] show ?thesis
      using sc Some assms(2) by (simp add: find_next_range_of_unset_bits_def)
  next
    case None
    with buckets have inv: "scan_inv m v mn from ?lo (32 * (m_size v div 32)) s f" by simp
    show ?thesis
    proof (cases "f < mn")
      case True
      obtain s' r' where tr: "scan_trailing m v mn mx 0 s f = Inr (s', r')"
        and post: "case r' of
          None \<Rightarrow> \<exists>f<mn. scan_inv m v mn from ?lo (m_size v) s' f
        | Some n \<Rightarrow> \<exists>f. scan_found m v mn mx from ?lo (m_size v) s' f n"
        using scan_trailing_inv [of m v mn "from" ?lo 0 s f mx] inv True by auto
      have eq: "find_next_range_of_unset_bits m v from mn mx = Inr (s', r')"
        using sc None True tr assms(2) by (simp add: find_next_range_of_unset_bits_def)
      show ?thesis
      proof (cases r')
        case None
        with post eq show ?thesis by (fastforce simp: scan_inv_def)
      next
        case (Some n)
        with post obtain f' where "scan_found m v mn mx from ?lo (m_size v) s' f' n" by auto
        from result [OF this] show ?thesis using eq Some by simp
      qed
    next
      case False
      then have "scan_found m v mn mx from ?lo (m_size v) s f (min f mx)"
        using inv whole by (auto simp: scan_found_def intro!: exI [of _ "32 * (m_size v div 32)"])
      from result [OF this] show ?thesis
        using sc None False assms(2) by (simp add: find_next_range_of_unset_bits_def)
    qed
  qed
qed

lemma find_best_loop_result:
  assumes "32 \<le> mn" and "mn \<le> bz" and "start \<le> m_size v" and "\<not> found \<Longrightarrow> start = 0"
    and "found \<Longrightarrow> bs + mn \<le> m_size v \<and> range_unset m v bs mn"
  shows "\<exists>r. find_best_loop m v mn start bs bz found = Some (Inr r) \<and>
     (case r of
        None \<Rightarrow> \<forall>q. q + mn \<le> m_size v \<longrightarrow> \<not> range_unset m v q mn
      | Some s \<Rightarrow> s + mn \<le> m_size v \<and> range_unset m v s mn)"
  using assms
proof (induction "m_size v - start" arbitrary: start bs bz found rule: less_induct)
  case less
  obtain start1 r where fn: "find_next_range_of_unset_bits m v start mn bz = Inr (start1, r)"
    and post: "case r of
        None \<Rightarrow> \<forall>q. start \<le> q \<and> q + mn \<le> m_size v \<longrightarrow> \<not> range_unset m v q mn
      | Some n \<Rightarrow> mn \<le> n \<and> n \<le> bz \<and> 32 * (start div 32) \<le> start1 \<and> start1 + n \<le> m_size v \<and>
          range_unset m v start1 n \<and> (\<forall>q. start \<le> q \<and> q < start1 \<longrightarrow> \<not> range_unset m v q mn)"
    using find_next_range_result [of mn bz start v m] less.prems by auto
  show ?case
  proof (cases r)
    case None
    with fn post less.prems show ?thesis by (simp add: find_best_loop.simps [of m v mn start])
  next
    case (Some n)
    with post have n: "mn \<le> n" "n \<le> bz" "start1 + n \<le> m_size v" "range_unset m v start1 mn"
      by (auto simp: range_unset_def)
    have "start < 32 * (start div 32) + 32" by presburger
    then have "start < start1 + n" using post Some n(1) less.prems(1) by simp
    then have dec: "m_size v - (start1 + n) < m_size v - start" using n(3) by simp
    have "start1 + mn \<le> m_size v" using n by simp
    then show ?thesis
      using fn Some less.prems n less.hyps [OF dec, of n True start1] less.hyps [OF dec, of bz found bs]
      by (cases "n < bz \<or> \<not> found") (auto simp: find_best_loop.simps [of m v mn start])
  qed
qed

lemma find_longest_loop_result:
  assumes "start \<le> m_size v" and "0 < size0 \<Longrightarrow> start0 + size0 \<le> m_size v \<and> range_unset m v start0 size0"
    and "size0 \<le> max_length"
  shows "\<exists>r n. find_longest_loop m v max_length start start0 size0 = Some (Inr (r, n)) \<and>
     (case r of
        None \<Rightarrow> n = 0 \<and> size0 = 0 \<and> (0 < max_length \<longrightarrow> (\<forall>q. start \<le> q \<and> q < m_size v \<longrightarrow> bit_at m v q))
      | Some s \<Rightarrow> 0 < n \<and> n \<le> max_length \<and> s + n \<le> m_size v \<and> range_unset m v s n)"
  using assms
proof (induction "max_length - size0" arbitrary: start start0 size0 rule: less_induct)
  case less
  show ?case
  proof (cases "max_length < size0 + 1")
    case True
    with less.prems show ?thesis
      by (auto simp: find_longest_loop.simps [of m v max_length start]
          find_next_range_of_unset_bits_def)
  next
    case False
    obtain start1 r where fn: "find_next_range_of_unset_bits m v start (size0 + 1) max_length =
        Inr (start1, r)"
      and post: "case r of
          None \<Rightarrow> \<forall>q. start \<le> q \<and> q + (size0 + 1) \<le> m_size v \<longrightarrow> \<not> range_unset m v q (size0 + 1)
        | Some n \<Rightarrow> size0 + 1 \<le> n \<and> n \<le> max_length \<and> start1 + n \<le> m_size v \<and> range_unset m v start1 n"
      using find_next_range_result [of "size0 + 1" max_length start v m] less.prems False
      by (fastforce split: option.splits)
    show ?thesis
    proof (cases r)
      case None
      with post have none: "\<forall>q. start \<le> q \<and> q + (size0 + 1) \<le> m_size v \<longrightarrow>
          \<not> range_unset m v q (size0 + 1)" by simp
      have "bit_at m v q" if "size0 = 0" "start \<le> q" "q < m_size v" for q
        using none [rule_format, of q] that by (auto simp: range_unset_def le_less_Suc_eq)
      with None fn less.prems show ?thesis
        by (auto simp: find_longest_loop.simps [of m v max_length start])
    next
      case (Some n)
      with post have n: "size0 < n" "n \<le> max_length" "start1 + n \<le> m_size v" "range_unset m v start1 n"
        by auto
      have "max_length - n < max_length - size0" using n by linarith
      from less.hyps [OF this, of "start1 + n" start1] show ?thesis
        using fn Some n by (auto simp: find_longest_loop.simps [of m v max_length start] split: option.splits)
    qed
  qed
qed

section \<open>Counting\<close>

definition bits_set :: "mem \<Rightarrow> bitmap_view \<Rightarrow> nat \<Rightarrow> nat \<Rightarrow> nat" where
  "bits_set m v a b = length (filter (bit_at m v) [a..<b])"

lemma bits_set_split: "a \<le> b \<Longrightarrow> b \<le> c \<Longrightarrow> bits_set m v a c = bits_set m v a b + bits_set m v b c"
  using upt_add_eq_append [of a b "c - b"] by (simp add: bits_set_def)

lemma filter_window:
  assumes "t \<le> n"
  shows "filter (\<lambda>j. P j \<and> s \<le> j \<and> j < t) [0..<n] = filter P [s..<t]"
proof (cases "s \<le> t")
  case True
  with assms have "[0..<n] = [0..<s] @ [s..<t] @ [t..<n]"
    using upt_add_eq_append [of 0 s "n - s"] upt_add_eq_append [of s t "n - t"] by simp
  moreover have "filter (\<lambda>j. P j \<and> s \<le> j \<and> j < t) [s..<t] = filter P [s..<t]"
    by (rule filter_cong) auto
  ultimately show ?thesis by (simp add: filter_empty_conv)
qed (auto simp: filter_empty_conv)

lemma bits_set_shift:
  "bits_set m v (8 * k + s) (8 * k + t) =
     length (filter (\<lambda>j. bit_at m v (8 * k + j)) [s..<t])"
proof -
  have "[8 * k + s..<8 * k + t] = map (\<lambda>j. 8 * k + j) [s..<t]"
    by (induction t) (auto simp: map_add_upt)
  then show ?thesis by (simp add: bits_set_def filter_map comp_def)
qed

lemma popcount_window:
  assumes "t \<le> 8" and "\<And>j. j < 8 \<Longrightarrow> bit b j \<longleftrightarrow> bit (m (m_data v + k)) j \<and> s \<le> j \<and> j < t"
  shows "popcount (b :: 8 word) = bits_set m v (8 * k + s) (8 * k + t)"
proof -
  have "filter (bit b) [0..<8] = filter (\<lambda>j. bit_at m v (8 * k + j) \<and> s \<le> j \<and> j < t) [0..<8]"
    using assms(2) by (auto simp: bit_at_def intro!: filter_cong)
  also have "\<dots> = filter (\<lambda>j. bit_at m v (8 * k + j)) [s..<t]" by (rule filter_window [OF assms(1)])
  finally show ?thesis by (simp add: popcount_def bits_set_shift)
qed

lemma popcount_byte: "popcount (m (m_data v + k)) = bits_set m v (8 * k) (8 * k + 8)"
  using popcount_window [of 8 "m (m_data v + k)" m v k 0] by simp

lemma popcount_word: "popcount (load32 m (m_data v + k)) = bits_set m v (8 * k) (8 * k + 32)"
proof -
  have "filter (bit (load32 m (m_data v + k))) [0..<32] =
      filter (\<lambda>j. bit_at m v (8 * k + j)) [0..<32]"
    by (rule filter_cong) (simp_all add: bit_load32 bit_at_def add.assoc)
  then show ?thesis
    using bits_set_shift [of m v k 0 32] by (simp add: popcount_def)
qed

lemma count_bytes_bits:
  "f \<le> l \<Longrightarrow> count_bytes m (m_data v + f) (m_data v + l) c = c + bits_set m v (8 * f) (8 * l)"
proof (induction "l - f" arbitrary: f c)
  case 0
  then show ?case by (simp add: count_bytes.simps bits_set_def)
next
  case (Suc n)
  then have "f < l" by simp
  with Suc.hyps(1) [of "f + 1"] Suc.hyps(2) show ?case
    using bits_set_split [of "8 * f" "8 * f + 8" "8 * l" m v]
    by (simp add: count_bytes.simps [of m "m_data v + f"] popcount_byte add.commute [of 8])
qed

lemma count_words_bits:
  assumes "m_data v + f < l \<Longrightarrow> 4 dvd l - (m_data v + f)"
  shows "\<exists>g. f \<le> g \<and> m_data v + g = max (m_data v + f) l \<and>
     count_words m (m_data v + f) l c = (m_data v + g, c + bits_set m v (8 * f) (8 * g))"
  using assms
proof (induction "l - (m_data v + f)" arbitrary: f c rule: less_induct)
  case less
  show ?case
  proof (cases "m_data v + f < l")
    case False
    then show ?thesis
      by (intro exI [of _ f]) (simp add: count_words.simps [of m "m_data v + f"] bits_set_def)
  next
    case True
    with less.prems obtain d where d: "l = m_data v + f + 4 * d" "0 < d"
      by (metis dvdE le_add_diff_inverse less_imp_le_nat zero_less_diff nat_0_less_mult_iff)
    then have "l - (m_data v + (f + 4)) = 4 * (d - 1)" by (simp add: algebra_simps)
    then obtain g where g: "f + 4 \<le> g" "m_data v + g = max (m_data v + (f + 4)) l"
      "count_words m (m_data v + (f + 4)) l (c + popcount (load32 m (m_data v + f))) =
       (m_data v + g, c + popcount (load32 m (m_data v + f)) + bits_set m v (8 * (f + 4)) (8 * g))"
      using less.hyps [of "f + 4" "c + popcount (load32 m (m_data v + f))"] d by auto
    then show ?thesis
      using True d bits_set_split [of "8 * f" "8 * f + 32" "8 * g" m v]
      by (intro exI [of _ g])
         (simp add: count_words.simps [of m "m_data v + f"] popcount_word add.assoc max_def split: if_splits)
  qed
qed

lemma word_align_dvd: "4 dvd word_align a"
  by (simp add: word_align_def)

lemma word_align_bounds: "word_align a \<le> a" "a < word_align a + 4"
  using dividend_less_div_times [of 4 a] by (simp_all add: word_align_def)

lemma count_middle_bytes:
  assumes "f < l"
  shows "(let ptr32 = word_align (m_data v + f + 3);
              ptr32 = (if m_data v + l < ptr32 then m_data v + l else ptr32);
              count = count_bytes m (m_data v + f) ptr32 c;
              last32 = word_align (m_data v + l);
              (ptr32, count) = count_words m ptr32 last32 count
          in count_bytes m ptr32 (m_data v + l) count) = c + bits_set m v (8 * f) (8 * l)"
proof -
  define p where "p = min (word_align (m_data v + f + 3)) (m_data v + l)"
  have "m_data v + f \<le> word_align (m_data v + f + 3)"
    using word_align_bounds(2) [of "m_data v + f + 3"] by simp
  then have p_bounds: "m_data v + f \<le> p" "p \<le> m_data v + l" using assms by (auto simp: p_def)
  define k where "k = p - m_data v"
  with p_bounds have k: "p = m_data v + k" "f \<le> k" "k \<le> l" by auto
  have last: "word_align (m_data v + l) \<le> m_data v + l"
    by (rule word_align_bounds)
  have "4 dvd word_align (m_data v + l) - p" if "p < word_align (m_data v + l)"
  proof -
    have "p = word_align (m_data v + f + 3)" using that last by (auto simp: p_def min_def split: if_splits)
    then show ?thesis by (simp add: dvd_diff_nat word_align_dvd)
  qed
  then obtain g where g: "k \<le> g" "m_data v + g = max p (word_align (m_data v + l))"
    and words: "count_words m p (word_align (m_data v + l)) (count_bytes m (m_data v + f) p c) =
      (m_data v + g, count_bytes m (m_data v + f) p c + bits_set m v (8 * k) (8 * g))"
    using count_words_bits [of v k "word_align (m_data v + l)" m "count_bytes m (m_data v + f) p c"] k(1)
    by auto
  have "g \<le> l" using g(2) last k by (auto simp: max_def split: if_splits)
  have p: "(if m_data v + l < word_align (m_data v + f + 3) then m_data v + l
            else word_align (m_data v + f + 3)) = p"
    by (auto simp: p_def)
  show ?thesis
    unfolding Let_def p words
    using k g(1) \<open>g \<le> l\<close> bits_set_split [of "8 * f" "8 * k" "8 * l" m v]
      bits_set_split [of "8 * k" "8 * g" "8 * l" m v]
    by (simp add: count_bytes_bits)
qed

lemma count_in_range_bits:
  assumes "start < m_size v" and "start + len \<le> m_size v" and "m_size v < 2 ^ 32"
  shows "count_in_range m v start len val =
    Inr (length (filter (\<lambda>i. bit_at m v i = val) [start..<start + len]))"
proof (cases "len = 0")
  case True
  with assms show ?thesis by (simp add: count_in_range_def size_add_def)
next
  case False
  define e where "e = start + len"
  have e: "size_add start len = e" "e \<le> m_size v" "len \<noteq> 0"
    using assms False by (simp_all add: size_add_id e_def)
  have order: "start \<le> 8 * (start div 8 + 1)" "8 * (e div 8) \<le> e"
    using less_imp_le [OF dividend_less_times_div [of 8 start]] by simp_all
  let ?s = "start div 8" and ?e = "e div 8"
  have s8: "8 * ?s + start mod 8 = start" and e8: "8 * ?e + e mod 8 = e" by simp_all
  have one: "popcount (m (m_data v + ?s) AND bitmask_first_byte ! (start mod 8)
      AND bitmask_last_byte ! (e mod 8)) = bits_set m v start e" if "?s = ?e"
    using popcount_window [of "e mod 8" _ m v ?s "start mod 8"] that s8 e8
    by (simp add: bit_and_iff first_byte_mask last_byte_mask)
  have first: "popcount (m (m_data v + ?s) AND bitmask_first_byte ! (start mod 8)) =
      bits_set m v start (8 * (?s + 1))"
    using popcount_window [of 8 "m (m_data v + ?s) AND bitmask_first_byte ! (start mod 8)" m v ?s "start mod 8"]
    by (simp add: bit_and_iff first_byte_mask add.commute)
  have last: "popcount (m (m_data v + ?e) AND bitmask_last_byte ! (e mod 8)) =
      bits_set m v (8 * ?e) e"
    using popcount_window [of "e mod 8" "m (m_data v + ?e) AND bitmask_last_byte ! (e mod 8)" m v ?e 0]
    by (simp add: bit_and_iff last_byte_mask)
  have "?s \<le> ?e" by (simp add: e_def div_le_mono)
  then consider "?s = ?e" | "?s + 1 = ?e" | "?s + 1 < ?e" by linarith
  then have "count_in_range m v start len val =
      Inr (if val then bits_set m v start e else size_sub len (bits_set m v start e))"
  proof cases
    case 1
    with one e assms(1) show ?thesis by (simp add: count_in_range_def and.assoc)
  next
    case 2
    then have "bits_set m v start e = bits_set m v start (8 * (?s + 1)) + bits_set m v (8 * ?e) e"
      using bits_set_split [of start "8 * ?e" e m v] order by simp
    with 2 first last e assms(1) show ?thesis
      by (simp add: count_in_range_def Let_def)
  next
    case 3
    then have "8 * (?s + 1) \<le> 8 * ?e" by simp
    then have "bits_set m v start e = bits_set m v start (8 * (?s + 1)) + bits_set m v (8 * ?e) e +
        bits_set m v (8 * (?s + 1)) (8 * ?e)"
      using bits_set_split [of start "8 * (?s + 1)" e m v] bits_set_split [of "8 * (?s + 1)" "8 * ?e" e m v]
        order by linarith
    with 3 first last e assms(1) count_middle_bytes [OF 3, of v m]
    show ?thesis by (simp add: count_in_range_def Let_def add.assoc)
  qed
  moreover have "size_sub len (bits_set m v start e) =
      length (filter (\<lambda>i. \<not> bit_at m v i) [start..<e])"
    using sum_length_filter_compl [of "bit_at m v" "[start..<e]"] assms
    by (simp add: bits_set_def e_def size_sub_id)
  ultimately show ?thesis by (cases val) (simp_all add: bits_set_def e_def)
qed

end
