(* ===== verification/Bitmap_Correct.thy ===== *)
theory Bitmap_Correct
  imports Bitmap_View
begin

text \<open>
  The promises of the bitmap: searching for one bit, the owning \<^verbatim>\<open>Bitmap\<close>, and the properties of
  every operation in terms of the bits of the map.
\<close>

section \<open>Searching for one bit\<close>

lemma skip_bytes_result:
  assumes "i \<le> n"
  shows "i \<le> skip_bytes m base i n byte \<and> skip_bytes m base i n byte \<le> n \<and>
     (\<forall>j. i \<le> j \<and> j < skip_bytes m base i n byte \<longrightarrow> m (base + j) = byte) \<and>
     (skip_bytes m base i n byte < n \<longrightarrow> m (base + skip_bytes m base i n byte) \<noteq> byte)"
  using assms
proof (induction "n - i" arbitrary: i rule: less_induct)
  case less
  show ?case
  proof (cases "i < n \<and> m (base + i) = byte")
    case True
    then have "n - (i + 1) < n - i" "i + 1 \<le> n" by auto
    note IH = less.hyps [OF this]
    have eq: "skip_bytes m base i n byte = skip_bytes m base (i + 1) n byte"
      using True by (simp add: skip_bytes.simps [of m base i])
    have "m (base + j) = byte" if "i \<le> j" "j < skip_bytes m base (i + 1) n byte" for j
      using that IH True by (cases "j = i") auto
    with IH show ?thesis unfolding eq by auto
  next
    case False
    with less.prems show ?thesis by (auto simp: skip_bytes.simps [of m base i])
  qed
qed

lemma skip_words_result:
  assumes "a \<le> b"
  shows "\<exists>k. a \<le> k \<and> k \<le> b \<and> skip_words m (base + 4 * a) (base + 4 * b) w = base + 4 * k \<and>
     (\<forall>j. a \<le> j \<and> j < k \<longrightarrow> load32 m (base + 4 * j) = w) \<and>
     (k < b \<longrightarrow> load32 m (base + 4 * k) \<noteq> w)"
  using assms
proof (induction "b - a" arbitrary: a rule: less_induct)
  case less
  show ?case
  proof (cases "a < b \<and> load32 m (base + 4 * a) = w")
    case True
    then have "b - (a + 1) < b - a" "a + 1 \<le> b" by auto
    from less.hyps [OF this] obtain k where k: "a + 1 \<le> k" "k \<le> b"
      "skip_words m (base + 4 * (a + 1)) (base + 4 * b) w = base + 4 * k"
      "\<forall>j. a + 1 \<le> j \<and> j < k \<longrightarrow> load32 m (base + 4 * j) = w"
      "k < b \<longrightarrow> load32 m (base + 4 * k) \<noteq> w" by blast
    then have "\<forall>j. a \<le> j \<and> j < k \<longrightarrow> load32 m (base + 4 * j) = w"
      using True by (metis Suc_eq_plus1 Suc_leI le_neq_implies_less)
    moreover have "skip_words m (base + 4 * a) (base + 4 * b) w = base + 4 * k"
    proof -
      have step: "base + 4 * (a + 1) = base + 4 * a + 4" by simp
      show ?thesis using True k(3) unfolding step by (simp add: skip_words.simps [of m "base + 4 * a"])
    qed
    ultimately show ?thesis using k by (intro exI [of _ k]) simp
  next
    case False
    with less.prems show ?thesis
      by (intro exI [of _ a]) (auto simp: skip_words.simps [of m "base + 4 * a"])
  qed
qed

text \<open>The byte and the word that hold no bit of the wanted value.\<close>

lemma idle_byte_bits:
  fixes b :: "8 word"
  shows "b = (if VALUE then 0x00 else 0xff) \<longleftrightarrow> (\<forall>j<8. bit b j \<noteq> VALUE)"
  using bit_full_byte by (cases VALUE) (auto simp: bit_eq_iff dest: bit_imp_le_length)

lemma idle_byte:
  "m (m_data v + k) = (if VALUE then 0x00 else 0xff) \<longleftrightarrow>
   (\<forall>i. i div 8 = k \<longrightarrow> bit_at m v i \<noteq> VALUE)"
  unfolding idle_byte_bits
proof (intro iffI allI impI)
  fix i assume "\<forall>j<8. bit (m (m_data v + k)) j \<noteq> VALUE" "i div 8 = k"
  then show "bit_at m v i \<noteq> VALUE" by (simp add: bit_at_def)
next
  fix j :: nat assume *: "\<forall>i. i div 8 = k \<longrightarrow> bit_at m v i \<noteq> VALUE" "j < 8"
  then have "bit_at m v (8 * k + j) \<noteq> VALUE" by simp
  with *(2) show "bit (m (m_data v + k)) j \<noteq> VALUE" by (simp add: bit_at_def)
qed

lemma find_in_byte_result:
  assumes "m (m_data v + k) \<noteq> (if VALUE then 0x00 else 0xff)"
  shows "\<exists>i. find_in_byte VALUE m v k = Inr (Some i) \<and> i div 8 = k \<and> bit_at m v i = VALUE \<and>
     (\<forall>j. j div 8 = k \<and> j < i \<longrightarrow> bit_at m v j \<noteq> VALUE)"
proof -
  define b where "b = (if VALUE then m (m_data v + k) else NOT (m (m_data v + k)))"
  have b_bit: "bit b j \<longleftrightarrow> bit (m (m_data v + k)) j = VALUE" if "j < 8" for j
    using that by (simp add: b_def bit_not_iff)
  have "b \<noteq> 0"
  proof
    assume "b = 0"
    then have "\<forall>j<8. bit (m (m_data v + k)) j \<noteq> VALUE" using b_bit by simp
    with assms show False by (simp only: idle_byte_bits)
  qed
  note ctz = ctz_nonzero [OF this]
  have "ctz b < 8" using ctz(1) by simp
  then have i: "(k * 8 + ctz b) div 8 = k" "bit_at m v (k * 8 + ctz b) = VALUE"
    using ctz(2) b_bit [of "ctz b"] by (auto simp: bit_at_def)
  moreover have "bit_at m v j \<noteq> VALUE" if "j div 8 = k" "j < k * 8 + ctz b" for j
  proof -
    have "j mod 8 < ctz b" using that mult_div_mod_eq [of 8 j] by simp
    then show ?thesis using ctz(3) [of "j mod 8"] b_bit [of "j mod 8"] that by (simp add: bit_at_def)
  qed
  ultimately show ?thesis using \<open>b \<noteq> 0\<close>
    by (intro exI [of _ "k * 8 + ctz b"]) (simp add: find_in_byte_def b_def ffs_def Let_def)
qed

lemma idle_word:
  assumes "load32 m (m_data v + 4 * k) = (if VALUE then 0 else 0xffffffff)" and "i div 32 = k"
  shows "bit_at m v i \<noteq> VALUE"
proof -
  have i: "32 * k \<le> i" "i < 32 * k + 32"
    using assms(2) dividend_less_times_div [of 32 i] by auto
  have ones: "(0xffffffff :: 32 word) = -1" by simp
  have "bucket_bits m v k (if VALUE then 0 else -1)"
    using load_bucket_bits [of m v k] assms(1) ones by (cases VALUE) (simp_all only: if_True if_False)
  with i full_bucket [of m v k i] empty_bucket [of m v k i] show ?thesis by (cases VALUE) auto
qed

lemma find_in_word_result:
  assumes "load32 m (m_data v + 4 * k) \<noteq> (if VALUE then 0 else 0xffffffff)"
  defines "w \<equiv> (if VALUE then load32 m (m_data v + 4 * k) else NOT (load32 m (m_data v + 4 * k)))"
  shows "w \<noteq> 0 \<and> (4 * k) * 8 + ffs w - 1 = 32 * k + ctz w \<and> ctz w < 32 \<and>
     bit_at m v (32 * k + ctz w) = VALUE"
proof -
  have "w \<noteq> 0"
  proof
    assume "w = 0"
    then have "load32 m (m_data v + 4 * k) = (if VALUE then 0 else NOT 0)"
      unfolding w_def by (metis bit.double_compl)
    with assms(1) show False by (simp split: if_splits)
  qed
  with ctz_nonzero [OF this] load_bucket_bits [of m v k] show ?thesis
    by (auto simp: w_def bucket_bits_def ffs_def bit_not_iff split: if_splits)
qed

lemma aligned_offset: "4 dvd d \<Longrightarrow> word_align (d + h) = d + 4 * (h div 4)"
  by (auto simp: word_align_def)

lemma find_one_pass_result:
  assumes "4 dvd m_data v" and "h div 8 div 4 \<le> e div 4" and "e \<le> m_size v div 8"
  shows "\<exists>r. find_one_pass VALUE m v (m_data v + e) h = Inr r \<and>
     (case r of
        None \<Rightarrow> \<forall>i. 4 * (h div 8 div 4) \<le> i div 8 \<and> i div 8 < m_size v div 8 \<longrightarrow> bit_at m v i \<noteq> VALUE
      | Some i \<Rightarrow> i div 8 < m_size v div 8 \<and> bit_at m v i = VALUE)"
proof -
  define bc where "bc = m_size v div 8"
  define a where "a = h div 8 div 4"
  define w :: "32 word" where "w = (if VALUE then 0x0 else 0xffffffff)"
  define byte :: "8 word" where "byte = (if VALUE then 0x00 else 0xff)"
  have start: "word_align (m_data v + h div 8) = m_data v + 4 * a"
    and stop: "word_align (m_data v + e) = m_data v + 4 * (e div 4)"
    using assms(1) by (simp_all add: aligned_offset a_def)
  have stop_bound: "4 * (e div 4) \<le> bc" using assms(3) by (simp add: bc_def)
  obtain k where k: "a \<le> k" "k \<le> e div 4"
    "skip_words m (m_data v + 4 * a) (m_data v + 4 * (e div 4)) w = m_data v + 4 * k"
    "\<forall>j. a \<le> j \<and> j < k \<longrightarrow> load32 m (m_data v + 4 * j) = w"
    "k < e div 4 \<longrightarrow> load32 m (m_data v + 4 * k) \<noteq> w"
    using skip_words_result [of a "e div 4" m "m_data v" w] assms(2) by (auto simp: a_def)
  have words: "bit_at m v i \<noteq> VALUE" if "a \<le> i div 32" "i div 32 < k" for i
    using that k(4) idle_word [of m v "i div 32" VALUE i] by (simp add: w_def)
  show ?thesis
  proof (cases "k = e div 4")
    case False
    with k have "k < e div 4" "load32 m (m_data v + 4 * k) \<noteq> (if VALUE then 0 else 0xffffffff)"
      by (auto simp: w_def)
    from find_in_word_result [OF this(2)] this(1) stop_bound k start stop False show ?thesis
      by (intro exI, intro conjI)
         (simp add: find_one_pass_def w_def [symmetric] Let_def, auto simp: bc_def)
  next
    case True
    define i where "i = skip_bytes m (m_data v) (4 * k) bc byte"
    have i: "4 * k \<le> i" "i \<le> bc" "\<forall>j. 4 * k \<le> j \<and> j < i \<longrightarrow> m (m_data v + j) = byte"
      "i < bc \<longrightarrow> m (m_data v + i) \<noteq> byte"
      using skip_bytes_result [of "4 * k" bc m "m_data v" byte] stop_bound True by (auto simp: i_def)
    have pass: "find_one_pass VALUE m v (m_data v + e) h =
        (if i = bc then Inr None else find_in_byte VALUE m v i)"
      using start stop k(3) True stop_bound
      by (simp add: find_one_pass_def w_def [symmetric] byte_def [symmetric] bc_def [symmetric]
          i_def Let_def)
    have bytes: "bit_at m v q \<noteq> VALUE" if "4 * k \<le> q div 8" "q div 8 < i" for q
      using that i(3) idle_byte [of m v "q div 8" VALUE] by (simp add: byte_def)
    show ?thesis
    proof (cases "i = bc")
      case True
      have "bit_at m v q \<noteq> VALUE" if "4 * a \<le> q div 8" "q div 8 < bc" for q
      proof (cases "4 * k \<le> q div 8")
        case False
        have "q div 32 = q div 8 div 4" by (simp add: div_mult2_eq [symmetric])
        with False that show ?thesis by (intro words) auto
      qed (use that True bytes in auto)
      with pass True show ?thesis by (auto simp: a_def bc_def)
    next
      case False
      with i find_in_byte_result [of m v i VALUE] pass show ?thesis
        by (auto simp: byte_def bc_def)
    qed
  qed
qed

lemma find_one_loop_result:
  assumes "4 dvd m_data v" and "h < m_size v"
  shows "\<exists>r. find_one_loop VALUE m v (m_data v + m_size v div 8) h = Inr r \<and>
     (case r of
        None \<Rightarrow> \<forall>i. i div 8 < m_size v div 8 \<longrightarrow> bit_at m v i \<noteq> VALUE
      | Some i \<Rightarrow> i div 8 < m_size v div 8 \<and> bit_at m v i = VALUE)"
proof -
  have "h div 8 \<le> m_size v div 8" using assms(2) by (simp add: div_le_mono)
  then have le: "h div 8 div 4 \<le> m_size v div 8 div 4" by (rule div_le_mono)
  obtain r where r: "find_one_pass VALUE m v (m_data v + m_size v div 8) h = Inr r"
    and post: "case r of
        None \<Rightarrow> \<forall>i. 4 * (h div 8 div 4) \<le> i div 8 \<and> i div 8 < m_size v div 8 \<longrightarrow> bit_at m v i \<noteq> VALUE
      | Some i \<Rightarrow> i div 8 < m_size v div 8 \<and> bit_at m v i = VALUE"
    using find_one_pass_result [OF assms(1) le order_refl] by blast
  note unfold = find_one_loop.simps [of VALUE m v "m_data v + m_size v div 8" h]
  show ?thesis
  proof (cases r)
    case (Some i)
    with r post show ?thesis by (simp add: unfold)
  next
    case None
    show ?thesis
    proof (cases "h \<le> 8")
      case True
      then have "h div 8 div 4 = 0" by simp
      with None True r post show ?thesis by (simp add: unfold)
    next
      case False
      have align: "word_align (m_data v + h div 8) = m_data v + 4 * (h div 8 div 4)"
        using assms(1) by (simp add: aligned_offset)
      have "4 * (h div 8 div 4) \<le> m_size v div 8" using \<open>h div 8 \<le> m_size v div 8\<close> by simp
      from find_one_pass_result [OF assms(1) _ this, of 0 VALUE m]
      show ?thesis using None False r
        by (auto simp: unfold align find_one_loop.simps [of VALUE m v _ 0] split: option.splits)
    qed
  qed
qed

lemma find_first_result:
  "\<exists>r. find_first VALUE m v = Inr r \<and>
     (case r of
        None \<Rightarrow> \<forall>i. i div 8 < m_size v div 8 \<longrightarrow> bit_at m v i \<noteq> VALUE
      | Some i \<Rightarrow> i div 8 < m_size v div 8 \<and> bit_at m v i = VALUE \<and> (\<forall>j<i. bit_at m v j \<noteq> VALUE))"
proof -
  define byte :: "8 word" where "byte = (if VALUE then 0x00 else 0xff)"
  define k where "k = skip_bytes m (m_data v) 0 (m_size v div 8) byte"
  have k: "k \<le> m_size v div 8" "\<forall>j<k. m (m_data v + j) = byte"
    "k < m_size v div 8 \<longrightarrow> m (m_data v + k) \<noteq> byte"
    using skip_bytes_result [of 0 "m_size v div 8" m "m_data v" byte] by (auto simp: k_def)
  have before: "bit_at m v i \<noteq> VALUE" if "i div 8 < k" for i
    using that k(2) idle_byte [of m v "i div 8" VALUE] by (simp add: byte_def)
  have eq: "find_first VALUE m v = (if k = m_size v div 8 then Inr None else find_in_byte VALUE m v k)"
    by (simp add: find_first_def byte_def [symmetric] k_def Let_def)
  show ?thesis
  proof (cases "k = m_size v div 8")
    case True
    with eq before show ?thesis by auto
  next
    case False
    with k have "k < m_size v div 8" "m (m_data v + k) \<noteq> (if VALUE then 0x00 else 0xff)"
      by (auto simp: byte_def)
    from find_in_byte_result [of m v k VALUE, OF this(2)] this(1) obtain i where
      i: "find_in_byte VALUE m v k = Inr (Some i)" "i div 8 = k" "bit_at m v i = VALUE"
         "\<forall>j. j div 8 = k \<and> j < i \<longrightarrow> bit_at m v j \<noteq> VALUE" by blast
    have "bit_at m v j \<noteq> VALUE" if "j < i" for j
      using that i before [of j] by (cases "j div 8 = k") (auto simp: le_less dest: div_le_mono [of j i 8])
    with i eq False \<open>k < m_size v div 8\<close> show ?thesis by auto
  qed
qed

section \<open>The owning bitmap\<close>

lemma in_bytes: "i < m_size v \<Longrightarrow> i div 8 < size_in_bytes v"
  using div_le_mono [of i "m_size v" 8] less_by_div_8 [of i "m_size v"]
  by (cases "m_size v mod 8 = 0") (simp_all add: size_in_bytes_def ceil_div_def)

lemma fill_bits: "i div 8 < size_in_bytes v \<Longrightarrow> bit_at (bitmap_fill m v val) v i = val"
  using bit_full_byte [of "i mod 8"] by (simp add: bit_at_def bitmap_fill_def memset_apply)

lemma fill_other: "a < m_data v \<or> m_data v + size_in_bytes v \<le> a \<Longrightarrow> bitmap_fill m v val a = m a"
  by (auto simp: bitmap_fill_def memset_apply)

lemma range_set_other:
  assumes "range_set_to val m v start len m'" and "start + len \<le> 8 * n"
    and "a < m_data v \<or> m_data v + n \<le> a"
  shows "m' a = m a"
proof (cases "a < m_data v")
  case False
  define k where "k = a - m_data v"
  then have a: "a = m_data v + k" "n \<le> k" using assms(3) False by auto
  have "bit (m' a) j = bit (m a) j" if "j < 8" for j
  proof -
    have "bit_at m' v (8 * k + j) = bit_at m v (8 * k + j)"
      using assms(1,2) a(2) by (auto simp: range_set_to_def)
    with that show ?thesis by (simp add: bit_at_def a(1))
  qed
  then show ?thesis by (auto intro: bit_word_eqI)
qed (use assms in \<open>simp add: range_set_to_def\<close>)

lemma round_up_8: "n + (8 - n mod 8) = 8 * (n div 8 + 1)" for n :: nat
proof -
  have "8 * q + r + (8 - r) = 8 * (q + 1)" if "r < 8" for q r :: nat
    using that by simp
  from this [of "n mod 8" "n div 8"] show ?thesis by simp
qed

lemma grow_result:
  assumes "m_data v \<noteq> 0" and "m_size v < new_size" and "8 * size_in_bytes v \<le> new_size"
    and "new_size < 2 ^ 32"
    and disjoint: "fresh + ceil_div new_size 8 \<le> m_data v \<or> m_data v + size_in_bytes v \<le> fresh"
  shows "\<exists>m' v'. bitmap_grow m v fresh new_size default_value = Inr (m', v') \<and>
     v' = \<lparr>m_data = fresh, m_size = new_size\<rparr> \<and>
     (\<forall>i<new_size. bit_at m' v' i = (if i < m_size v then bit_at m v i else default_value)) \<and>
     (\<forall>a. a < fresh \<or> fresh + ceil_div new_size 8 \<le> a \<longrightarrow> m' a = m a)"
proof -
  define v' where "v' = \<lparr>m_data = fresh, m_size = new_size\<rparr>"
  define m1 where "m1 = bitmap_fill m v' default_value"
  define m2 where "m2 = memcpy m1 fresh (m_data v) (size_in_bytes v)"
  have v': "m_data v' = fresh" "m_size v' = new_size" "size_in_bytes v' = ceil_div new_size 8"
    by (simp_all add: v'_def size_in_bytes_def)
  have sib: "size_in_bytes v \<le> ceil_div new_size 8"
    using assms(3) by (auto simp: ceil_div_def)
  have old: "bit_at m2 v' i = bit_at m v i" if "i div 8 < size_in_bytes v" for i
    using that disjoint by (auto simp: bit_at_def m2_def memcpy_apply m1_def v' fill_other)
  have new: "bit_at m2 v' i = default_value" if "size_in_bytes v \<le> i div 8" "i < new_size" for i
  proof -
    have "bit_at m2 v' i = bit_at m1 v' i" using that(1) by (simp add: bit_at_def m2_def memcpy_apply v')
    with that(2) show ?thesis using in_bytes [of i v'] by (simp add: m1_def v' fill_bits)
  qed
  have other: "m2 a = m a" if "a < fresh \<or> fresh + ceil_div new_size 8 \<le> a" for a
    using that sib by (auto simp: m2_def memcpy_apply m1_def fill_other v')
  show ?thesis
  proof (cases "m_size v mod 8 = 0")
    case True
    then have "i < m_size v \<longleftrightarrow> i div 8 < size_in_bytes v" for i
      using less_by_div_8 [of i "m_size v"] by (simp add: size_in_bytes_def ceil_div_def)
    with True old new other assms show ?thesis
      by (intro exI [of _ m2] exI [of _ v'])
         (auto simp: bitmap_grow_def v'_def [symmetric] m1_def [symmetric] m2_def [symmetric] Let_def)
  next
    case False
    define len where "len = 8 - m_size v mod 8"
    have len: "m_size v + len = 8 * size_in_bytes v"
      unfolding len_def size_in_bytes_def ceil_div_def if_P [OF False] by (rule round_up_8)
    obtain m3 where m3: "set_range m2 v' (m_size v) len default_value = Inr m3"
      "range_set_to default_value m2 v' (m_size v) len m3"
      using set_range_template_bits [of "m_size v" v' len False m2 default_value] assms len
      by (cases default_value) (auto simp: set_range_def v')
    have inb: "i div 8 < size_in_bytes v \<longleftrightarrow> i < m_size v + len" for i
      unfolding len using less_by_div_8 [of i "8 * size_in_bytes v"] by simp
    have "bit_at m3 v' i = (if i < m_size v then bit_at m v i else default_value)"
      if "i < new_size" for i
      using that old [of i] new [of i] m3(2) inb [of i]
      by (auto simp: range_set_to_def not_less [symmetric])
    moreover have "m3 a = m a" if "a < fresh \<or> fresh + ceil_div new_size 8 \<le> a" for a
      using that other [OF that] range_set_other [OF m3(2), of "ceil_div new_size 8" a] len sib
      by (simp add: v')
    ultimately show ?thesis
      using False m3(1) assms(1,2)
      by (intro exI [of _ m3] exI [of _ v'])
         (auto simp: bitmap_grow_def v'_def [symmetric] m1_def [symmetric] m2_def [symmetric]
           len_def [symmetric] Let_def)
  qed
qed

section \<open>Properties\<close>

lemma find_first_fit_result:
  assumes "0 < n"
  shows "\<exists>r. find_first_fit m v n = Inr r \<and>
     (case r of
        None \<Rightarrow> \<forall>q. q + n \<le> m_size v \<longrightarrow> \<not> range_unset m v q n
      | Some s \<Rightarrow> s + n \<le> m_size v \<and> range_unset m v s n \<and> (\<forall>q < s. \<not> range_unset m v q n))"
  using find_next_range_result [of n n 0 v m] assms
  by (auto simp: find_first_fit_def split: option.splits)

lemma find_best_fit_result:
  assumes "32 \<le> n" and "n \<le> max_size"
  shows "\<exists>r. find_best_fit m v n = Some (Inr r) \<and>
     (case r of
        None \<Rightarrow> \<forall>q. q + n \<le> m_size v \<longrightarrow> \<not> range_unset m v q n
      | Some s \<Rightarrow> s + n \<le> m_size v \<and> range_unset m v s n)"
  using find_best_loop_result [of n max_size 0 v False 0 m] assms by (simp add: find_best_fit_def)

text \<open>
  C26. The word-wise search for a range is exact: \<^verbatim>\<open>find_next_range_of_unset_bits\<close> returns without a fault;
  a range it returns has a length between the two bounds, lies inside the map, has no set bit, and
  no range of the minimum length begins between \<^verbatim>\<open>from\<close> and it; when it returns nothing, no range of
  the minimum length begins at \<^verbatim>\<open>from\<close> or later.
\<close>

theorem find_next_range_exact:
  assumes "0 < min_length" and "min_length \<le> max_length" and "from \<le> m_size v"
  shows "\<exists>start r. find_next_range_of_unset_bits m v from min_length max_length = Inr (start, r) \<and>
     (case r of
        None \<Rightarrow> \<forall>q. from \<le> q \<and> q + min_length \<le> m_size v \<longrightarrow> \<not> range_unset m v q min_length
      | Some n \<Rightarrow>
          min_length \<le> n \<and> n \<le> max_length \<and> 32 * (from div 32) \<le> start \<and> start + n \<le> m_size v \<and>
          range_unset m v start n \<and>
          (\<forall>q. from \<le> q \<and> q < start \<longrightarrow> \<not> range_unset m v q min_length))"
  using assms by (rule find_next_range_result)

theorem find_next_range_exact_witness:
  "\<exists>start r. find_next_range_of_unset_bits (\<lambda>a. if a = 1 then 0x81 else 0)
       \<lparr>m_data = 0, m_size = 70\<rparr> 3 9 40 = Inr (start, r)"
  using find_next_range_exact [of 9 40 3 "\<lparr>m_data = 0, m_size = 70\<rparr>" "\<lambda>a. if a = 1 then 0x81 else 0"]
  by auto

text \<open>
  C27. \<^verbatim>\<open>find_first_fit\<close> finds the lowest range of unset bits of the requested length when there is one and
  reports that there is none otherwise.
\<close>

theorem find_first_fit_is_first:
  assumes "0 < minimum_length"
  shows "\<exists>r. find_first_fit m v minimum_length = Inr r \<and>
     (case r of
        None \<Rightarrow> \<forall>q. q + minimum_length \<le> m_size v \<longrightarrow> \<not> range_unset m v q minimum_length
      | Some s \<Rightarrow> s + minimum_length \<le> m_size v \<and> range_unset m v s minimum_length \<and>
          (\<forall>q < s. \<not> range_unset m v q minimum_length))"
  using assms by (rule find_first_fit_result)

theorem find_first_fit_is_first_witness:
  "\<exists>r. find_first_fit (\<lambda>a. if a = 0 then 0xff else 0) \<lparr>m_data = 0, m_size = 16\<rparr> 5 = Inr r"
  using find_first_fit_is_first [of 5 "\<lambda>a. if a = 0 then 0xff else 0" "\<lparr>m_data = 0, m_size = 16\<rparr>"]
  by auto

text \<open>
  For requests of 32 bits and more \<^verbatim>\<open>find_best_fit\<close> returns, with a range of unset bits of the
  requested length inside the map, or with nothing when the map has no such range.
\<close>

theorem find_best_fit_returns:
  assumes "32 \<le> minimum_length" and "minimum_length \<le> max_size"
  shows "\<exists>r. find_best_fit m v minimum_length = Some (Inr r) \<and>
     (case r of
        None \<Rightarrow> \<forall>q. q + minimum_length \<le> m_size v \<longrightarrow> \<not> range_unset m v q minimum_length
      | Some s \<Rightarrow> s + minimum_length \<le> m_size v \<and> range_unset m v s minimum_length)"
  using assms by (rule find_best_fit_result)

theorem find_best_fit_returns_witness:
  "\<exists>r. find_best_fit (\<lambda>_. 0) \<lparr>m_data = 64, m_size = 300\<rparr> 130 = Some (Inr r)"
  using find_best_fit_returns [of 130 "\<lambda>_. 0" "\<lparr>m_data = 64, m_size = 300\<rparr>"]
  by (auto simp: max_size_def)

text \<open>
  \<^verbatim>\<open>find_longest_range_of_unset_bits\<close> always returns: a range it returns is non-empty, not longer than
  the bound, inside the map and unset, and it returns nothing only when every bit of the map is set.
\<close>

theorem find_longest_range_sound:
  assumes "0 < max_length"
  shows "\<exists>r n. find_longest_range_of_unset_bits m v max_length = Some (Inr (r, n)) \<and>
     (case r of
        None \<Rightarrow> n = 0 \<and> (\<forall>i<m_size v. bit_at m v i)
      | Some s \<Rightarrow> 0 < n \<and> n \<le> max_length \<and> s + n \<le> m_size v \<and> range_unset m v s n)"
  using find_longest_loop_result [of 0 v 0 0 m max_length] assms
  by (auto simp: find_longest_range_of_unset_bits_def split: option.splits)

theorem find_longest_range_sound_witness:
  "\<exists>r n. find_longest_range_of_unset_bits (\<lambda>_. 0x0f) \<lparr>m_data = 0, m_size = 40\<rparr> 8 = Some (Inr (r, n))"
  using find_longest_range_sound [of 8 "\<lambda>_. 0x0f" "\<lparr>m_data = 0, m_size = 40\<rparr>"] by auto

text \<open>
  C28. \<^verbatim>\<open>set_range\<close> on a range inside the map sets exactly the bits of the range to the value: every other
  bit of the map and every other byte of memory keeps its value, and the variant that verifies
  that all bits flip succeeds whenever they do.
\<close>

theorem set_range_exact:
  assumes "start < m_size v" and "start + len \<le> m_size v" and "m_size v < 2 ^ 32"
  shows "(\<exists>m'. set_range m v start len val = Inr m' \<and> range_set_to val m v start len m') \<and>
     ((\<forall>i. start \<le> i \<and> i < start + len \<longrightarrow> bit_at m v i \<noteq> val) \<longrightarrow>
      (\<exists>m'. set_range_and_verify_that_all_bits_flip m v start len val = Inr m' \<and>
            range_set_to val m v start len m'))"
  using set_range_template_bits [OF assms, of False m val] set_range_template_bits [OF assms, of True m val]
  by (cases val) (auto simp: set_range_def set_range_and_verify_that_all_bits_flip_def)

theorem set_range_exact_witness:
  "\<exists>m'. set_range_and_verify_that_all_bits_flip (\<lambda>_. 0) \<lparr>m_data = 16, m_size = 40\<rparr> 3 30 True = Inr m' \<and>
        range_set_to True (\<lambda>_. 0) \<lparr>m_data = 16, m_size = 40\<rparr> 3 30 m'"
  using set_range_exact [of 3 "\<lparr>m_data = 16, m_size = 40\<rparr>" 30 "\<lambda>_. 0" True] by (simp add: bit_at_def)

text \<open>
  C29. \<^verbatim>\<open>count_in_range\<close>, which counts by bytes and by words between two masked ends, returns the number
  of bits of the range that have the value.
\<close>

theorem count_in_range_exact:
  assumes "start < m_size v" and "start + len \<le> m_size v" and "m_size v < 2 ^ 32"
  shows "count_in_range m v start len val =
    Inr (length (filter (\<lambda>i. bit_at m v i = val) [start..<start + len]))"
  using assms by (rule count_in_range_bits)

theorem count_in_range_exact_witness:
  "count_in_range (\<lambda>_. 0x11) \<lparr>m_data = 3, m_size = 80\<rparr> 4 70 True =
    Inr (length (filter (bit_at (\<lambda>_. 0x11) \<lparr>m_data = 3, m_size = 80\<rparr>) [4..<74]))"
  using count_in_range_exact [of 4 "\<lparr>m_data = 3, m_size = 80\<rparr>" 70 "\<lambda>_. 0x11" True] by simp

text \<open>
  On a word-aligned map \<^verbatim>\<open>find_one_anywhere\<close> returns, for every hint, a bit with the value among the
  bits of the map's whole bytes when there is one, and nothing otherwise; \<^verbatim>\<open>find_first\<close> returns the first.
\<close>

theorem find_one_bit_correct:
  assumes "4 dvd m_data v" and "hint < m_size v"
  shows "(\<exists>r. find_one_anywhere VALUE m v hint = Inr r \<and>
     (case r of
        None \<Rightarrow> \<forall>i. i div 8 < m_size v div 8 \<longrightarrow> bit_at m v i \<noteq> VALUE
      | Some i \<Rightarrow> i div 8 < m_size v div 8 \<and> bit_at m v i = VALUE)) \<and>
   (\<exists>r. find_first VALUE m v = Inr r \<and>
     (case r of
        None \<Rightarrow> \<forall>i. i div 8 < m_size v div 8 \<longrightarrow> bit_at m v i \<noteq> VALUE
      | Some i \<Rightarrow> i div 8 < m_size v div 8 \<and> bit_at m v i = VALUE \<and> (\<forall>j<i. bit_at m v j \<noteq> VALUE)))"
  using find_one_loop_result [OF assms] find_first_result assms(2)
  by (simp add: find_one_anywhere_def)

theorem find_one_bit_correct_witness:
  "\<exists>r. find_one_anywhere False (\<lambda>a. if a < 8 then 0xff else 0) \<lparr>m_data = 4, m_size = 64\<rparr> 40 = Inr r"
  using find_one_bit_correct [of "\<lparr>m_data = 4, m_size = 64\<rparr>" 40 False "\<lambda>a. if a < 8 then 0xff else 0"]
  by auto

text \<open>
  \<^verbatim>\<open>Bitmap::grow\<close> into fresh memory, by at least the rest of the last byte, keeps every bit of the
  map, gives every new bit the default value, and changes no byte outside the fresh block.
\<close>

theorem bitmap_grow_keeps_bits:
  assumes "m_data v \<noteq> 0" and "m_size v < new_size" and "8 * size_in_bytes v \<le> new_size"
    and "new_size < 2 ^ 32"
    and "fresh + ceil_div new_size 8 \<le> m_data v \<or> m_data v + size_in_bytes v \<le> fresh"
  shows "\<exists>m' v'. bitmap_grow m v fresh new_size default_value = Inr (m', v') \<and>
     v' = \<lparr>m_data = fresh, m_size = new_size\<rparr> \<and>
     (\<forall>i<new_size. bit_at m' v' i = (if i < m_size v then bit_at m v i else default_value)) \<and>
     (\<forall>a. a < fresh \<or> fresh + ceil_div new_size 8 \<le> a \<longrightarrow> m' a = m a)"
  using assms by (rule grow_result)

theorem bitmap_grow_keeps_bits_witness:
  "\<exists>m' v'. bitmap_grow (\<lambda>_. 0x55) \<lparr>m_data = 8, m_size = 11\<rparr> 64 30 True = Inr (m', v')"
  using bitmap_grow_keeps_bits [of "\<lparr>m_data = 8, m_size = 11\<rparr>" 30 64 "\<lambda>_. 0x55" True]
  by (auto simp: size_in_bytes_def ceil_div_def)

section \<open>Where the code falls short\<close>

text \<open>
  On a map of eight unset bits \<^verbatim>\<open>find_best_fit(1)\<close> does not return: the tail of the map is searched from
  its beginning on every round, so the loop finds the same bit again and again.
\<close>

lemma tail_search_restarts:
  "find_next_range_of_unset_bits (\<lambda>_. 0) \<lparr>m_data = 0, m_size = 8\<rparr> 1 1 1 = Inr (0, Some 1)"
  by code_simp

lemma find_best_loop_stuck:
  assumes "find_best_loop m v mn start bs bz found = Some y"
    and "find_next_range_of_unset_bits m v start mn bz = Inr (start1, Some n)"
    and "start1 + n = start" and "bz \<le> n" and "found"
  shows False
proof -
  have "find_next_range_of_unset_bits m v start mn bz = Inr (start1, Some n) \<longrightarrow>
      start1 + n = start \<longrightarrow> bz \<le> n \<longrightarrow> found \<longrightarrow> False"
    by (rule find_best_loop.raw_induct [where P = "\<lambda>m v mn start bs bz found y.
          find_next_range_of_unset_bits m v start mn bz = Inr (start1, Some n) \<longrightarrow>
          start1 + n = start \<longrightarrow> bz \<le> n \<longrightarrow> found \<longrightarrow> False", OF _ assms(1)])
       (fastforce simp: not_less [symmetric])
  with assms show False by simp
qed

theorem find_best_fit_can_diverge:
  "find_best_fit (\<lambda>_. 0) \<lparr>m_data = 0, m_size = 8\<rparr> 1 = None"
proof -
  let ?v = "\<lparr>m_data = 0, m_size = 8\<rparr>"
  have first: "find_next_range_of_unset_bits (\<lambda>_. 0) ?v 0 1 max_size = Inr (0, Some 1)"
    by (simp add: find_next_range_of_unset_bits_def scan_buckets.simps scan_trailing.simps
        bitmap_get_def max_size_def)
  have "find_best_fit (\<lambda>_. 0) ?v 1 = find_best_loop (\<lambda>_. 0) ?v 1 1 0 1 True"
    unfolding find_best_fit_def by (subst find_best_loop.simps) (simp add: first [simplified])
  also have "\<dots> = None"
    using find_best_loop_stuck [OF _ tail_search_restarts, of 0 True] by (auto intro: ccontr)
  finally show ?thesis .
qed

text \<open>
  The longest range of this map is the ten bits from 30 on; the search returns the eight bits of
  the tail.
\<close>

theorem find_longest_range_misses_straddling_range:
  "find_longest_range_of_unset_bits (\<lambda>a. if a < 3 then 0xff else if a = 3 then 0x3f else 0)
     \<lparr>m_data = 0, m_size = 40\<rparr> 40 = Some (Inr (Some 32, 8)) \<and>
   range_unset (\<lambda>a. if a < 3 then 0xff else if a = 3 then 0x3f else 0)
     \<lparr>m_data = 0, m_size = 40\<rparr> 30 10"
proof
  show "find_longest_range_of_unset_bits (\<lambda>a. if a < 3 then 0xff else if a = 3 then 0x3f else 0)
     \<lparr>m_data = 0, m_size = 40\<rparr> 40 = Some (Inr (Some 32, 8))"
    by code_simp
  have "\<forall>i\<in>set [30..<40]. \<not> bit_at (\<lambda>a. if a < 3 then 0xff else if a = 3 then 0x3f else 0)
     \<lparr>m_data = 0, m_size = 40\<rparr> i"
    by code_simp
  then show "range_unset (\<lambda>a. if a < 3 then 0xff else if a = 3 then 0x3f else 0)
     \<lparr>m_data = 0, m_size = 40\<rparr> 30 10"
    unfolding range_unset_def set_upt Ball_def atLeastLessThan_iff by simp
qed

text \<open>
  The check that all bits flip looks at the first and the last byte only: here the middle byte is
  set already and the call still succeeds.
\<close>

theorem flip_check_skips_middle_bytes:
  "\<exists>m'. set_range_and_verify_that_all_bits_flip (\<lambda>a. if a = 1 then 0xff else 0)
         \<lparr>m_data = 0, m_size = 24\<rparr> 0 24 True = Inr m'"
  by (simp add: set_range_and_verify_that_all_bits_flip_def set_range_template_def size_add_def
      mask_flips_def bitmask_first_byte_def bitmask_last_byte_def Let_def)

text \<open>
  Growing a map inside its last byte fails the check of \<^verbatim>\<open>set_range\<close>.
\<close>

theorem bitmap_grow_within_byte_fails:
  "bitmap_grow m \<lparr>m_data = 8, m_size = 3\<rparr> 64 5 val = Inl Verify_failed"
  by (simp add: bitmap_grow_def set_range_def set_range_template_def size_add_def Let_def)

end
