(* ===== verification/KHeap.thy ===== *)
theory KHeap
  imports Bitmap_Correct
begin

text \<open>
  \<^verbatim>\<open>Kernel/Heap/Heap.h\<close>, the chunk allocator behind \<^verbatim>\<open>kmalloc\<close>: a block of memory cut into chunks, with
  a bitmap of the used chunks behind them and a header with the number of chunks at the start of
  each allocation.  Both live in the same byte memory as the data of the callers.  The model
  passes that memory through every operation, and the invariant relates it to the map of the
  live allocations.
\<close>

section \<open>Operations\<close>

text \<open>The template parameters of the class; the size of a header is that of a \<^verbatim>\<open>size_t\<close>.\<close>

record heap_config =
  CHUNK_SIZE :: nat
  HEAP_SCRUB_BYTE_ALLOC :: nat
  HEAP_SCRUB_BYTE_FREE :: nat

definition header_size :: nat where
  "header_size = 4"

record heap =
  m_total_chunks :: nat
  m_allocated_chunks :: nat
  m_chunks :: nat
  m_bitmap :: bitmap_view

definition calculate_chunks :: "heap_config \<Rightarrow> nat \<Rightarrow> nat" where
  "calculate_chunks cfg memory_size = memory_size div (CHUNK_SIZE cfg + 1)"

definition heap_construct :: "heap_config \<Rightarrow> nat \<Rightarrow> nat \<Rightarrow> heap res" where
  "heap_construct cfg memory memory_size =
     (let total = calculate_chunks cfg memory_size in
      verify (total * CHUNK_SIZE cfg + (total + 7) div 8 \<le> memory_size)
        (Inr \<lparr>m_total_chunks = total, m_allocated_chunks = 0, m_chunks = memory,
              m_bitmap = \<lparr>m_data = memory + total * CHUNK_SIZE cfg, m_size = total\<rparr>\<rparr>))"

definition calculate_memory_for_bytes :: "heap_config \<Rightarrow> nat \<Rightarrow> nat" where
  "calculate_memory_for_bytes cfg bytes =
     (let needed_chunks =
            size_sub (size_add (size_add header_size bytes) (CHUNK_SIZE cfg)) 1 div CHUNK_SIZE cfg
      in size_add (size_mul needed_chunks (CHUNK_SIZE cfg)) (size_add needed_chunks 7 div 8))"

definition free_chunks :: "heap \<Rightarrow> nat" where
  "free_chunks h = size_sub (m_total_chunks h) (m_allocated_chunks h)"

definition chunks_needed :: "heap_config \<Rightarrow> nat \<Rightarrow> nat" where
  "chunks_needed cfg n =
     (let real_size = size_add n header_size
      in size_sub (size_add real_size (CHUNK_SIZE cfg)) 1 div CHUNK_SIZE cfg)"

definition best_fit_threshold :: nat where
  "best_fit_threshold = 128"

definition chunk_addr :: "heap_config \<Rightarrow> heap \<Rightarrow> nat \<Rightarrow> nat" where
  "chunk_addr cfg h c = m_chunks h + c * CHUNK_SIZE cfg"

text \<open>
  A null pointer is address 0.  The outer option of \<^verbatim>\<open>allocate\<close> is that of the search for a best fit,
  \<open>None\<close> for a loop that does not end.
\<close>

definition find_chunks :: "mem \<Rightarrow> heap \<Rightarrow> nat \<Rightarrow> nat option res option" where
  "find_chunks m h needed =
     (if needed < best_fit_threshold then Some (find_first_fit m (m_bitmap h) needed)
      else find_best_fit m (m_bitmap h) needed)"

definition take_chunks :: "heap_config \<Rightarrow> mem \<Rightarrow> heap \<Rightarrow> nat \<Rightarrow> nat \<Rightarrow> (mem \<times> heap \<times> nat) res" where
  "take_chunks cfg m h first_chunk needed =
     (let a = chunk_addr cfg h first_chunk;
          ptr = a + header_size;
          m = store32 m a (of_nat needed) in
      bind_res (set_range_and_verify_that_all_bits_flip m (m_bitmap h) first_chunk needed True) (\<lambda>m.
        (let h = h\<lparr>m_allocated_chunks := size_add (m_allocated_chunks h) needed\<rparr>;
             m = (if HEAP_SCRUB_BYTE_ALLOC cfg \<noteq> 0
                  then memset m ptr (of_nat (HEAP_SCRUB_BYTE_ALLOC cfg))
                         (needed * CHUNK_SIZE cfg - header_size)
                  else m)
         in Inr (m, h, ptr))))"

definition heap_allocate ::
  "heap_config \<Rightarrow> mem \<Rightarrow> heap \<Rightarrow> nat \<Rightarrow> (mem \<times> heap \<times> nat) res option" where
  "heap_allocate cfg m h n =
     (let needed = chunks_needed cfg n in
      if free_chunks h < needed then Some (Inr (m, h, 0))
      else
        (case find_chunks m h needed of
           None \<Rightarrow> None
         | Some (Inl e) \<Rightarrow> Some (Inl e)
         | Some (Inr None) \<Rightarrow> Some (Inr (m, h, 0))
         | Some (Inr (Some first_chunk)) \<Rightarrow> Some (take_chunks cfg m h first_chunk needed)))"

definition heap_end :: "heap_config \<Rightarrow> heap \<Rightarrow> nat" where
  "heap_end cfg h = m_chunks h + m_total_chunks h * CHUNK_SIZE cfg"

definition heap_deallocate :: "heap_config \<Rightarrow> mem \<Rightarrow> heap \<Rightarrow> nat \<Rightarrow> (mem \<times> heap) res" where
  "heap_deallocate cfg m h ptr =
     (if ptr = 0 then Inr (m, h)
      else
        (let a = size_sub ptr header_size;
             n = unat (load32 m a) in
         verify (m_chunks h \<le> a \<and> ptr < heap_end cfg h)
           (let start = (a - m_chunks h) div CHUNK_SIZE cfg in
            bind_res (bitmap_get m (m_bitmap h) start) (\<lambda>b.
              verify b
                (verify (size_add a (size_mul n (CHUNK_SIZE cfg)) \<le> heap_end cfg h)
                  (bind_res (set_range_and_verify_that_all_bits_flip m (m_bitmap h) start n False) (\<lambda>m.
                    verify (n \<le> m_allocated_chunks h)
                      (let h = h\<lparr>m_allocated_chunks := m_allocated_chunks h - n\<rparr>;
                           m = (if HEAP_SCRUB_BYTE_FREE cfg \<noteq> 0
                                then memset m a (of_nat (HEAP_SCRUB_BYTE_FREE cfg))
                                       (n * CHUNK_SIZE cfg)
                                else m)
                       in Inr (m, h)))))))))"

definition heap_reallocate ::
  "heap_config \<Rightarrow> mem \<Rightarrow> heap \<Rightarrow> nat \<Rightarrow> nat \<Rightarrow> (mem \<times> heap \<times> nat) res option" where
  "heap_reallocate cfg m h ptr new_size =
     (if ptr = 0 then heap_allocate cfg m h new_size
      else
        (let a = size_sub ptr header_size;
             old_size = size_mul (unat (load32 m a)) (CHUNK_SIZE cfg) in
         if \<not> (m_chunks h \<le> a \<and> ptr < heap_end cfg h \<and> size_add a old_size \<le> heap_end cfg h)
         then Some (Inl Verify_failed)
         else if old_size = new_size then Some (Inr (m, h, ptr))
         else
           (case heap_allocate cfg m h new_size of
              None \<Rightarrow> None
            | Some (Inl e) \<Rightarrow> Some (Inl e)
            | Some (Inr (m, h, new_ptr)) \<Rightarrow>
                (let m = (if new_ptr \<noteq> 0 then memcpy m new_ptr ptr (min old_size new_size) else m)
                 in Some (bind_res (heap_deallocate cfg m h ptr) (\<lambda>(m, h). Inr (m, h, new_ptr)))))))"

definition heap_contains :: "heap_config \<Rightarrow> heap \<Rightarrow> nat \<Rightarrow> bool" where
  "heap_contains cfg h ptr =
     (let a = size_sub ptr header_size in
      if a < m_chunks h then False
      else if heap_end cfg h \<le> ptr then False
      else True)"

section \<open>The live allocations\<close>

text \<open>
  \<open>live\<close> maps the first chunk of an allocation to its number of chunks.  The invariant says that
  the allocations are disjoint ranges of chunks, that the header of each holds its length, that
  the bitmap has exactly their bits and the counter their number, and that the block fits below
  4 GiB.
\<close>

type_synonym live_map = "nat \<Rightarrow> nat option"

definition chunk_used :: "live_map \<Rightarrow> nat \<Rightarrow> bool" where
  "chunk_used live i \<longleftrightarrow> (\<exists>c n. live c = Some n \<and> c \<le> i \<and> i < c + n)"

definition heap_shape :: "heap_config \<Rightarrow> heap \<Rightarrow> bool" where
  "heap_shape cfg h \<longleftrightarrow>
     header_size < CHUNK_SIZE cfg \<and>
     m_bitmap h = \<lparr>m_data = heap_end cfg h, m_size = m_total_chunks h\<rparr> \<and>
     heap_end cfg h + m_total_chunks h div 8 + 1 < 2 ^ 32"

definition live_ok :: "heap_config \<Rightarrow> mem \<Rightarrow> heap \<Rightarrow> live_map \<Rightarrow> bool" where
  "live_ok cfg m h live \<longleftrightarrow>
     (\<forall>c n. live c = Some n \<longrightarrow>
        0 < n \<and> c + n \<le> m_total_chunks h \<and> load32 m (chunk_addr cfg h c) = of_nat n) \<and>
     (\<forall>c n c' n'. live c = Some n \<longrightarrow> live c' = Some n' \<longrightarrow> c < c' \<longrightarrow> c + n \<le> c')"

definition bitmap_ok :: "mem \<Rightarrow> heap \<Rightarrow> live_map \<Rightarrow> bool" where
  "bitmap_ok m h live \<longleftrightarrow>
     (\<forall>i<m_total_chunks h. bit_at m (m_bitmap h) i \<longleftrightarrow> chunk_used live i) \<and>
     m_allocated_chunks h = card {i. i < m_total_chunks h \<and> chunk_used live i}"

definition heap_ok :: "heap_config \<Rightarrow> mem \<Rightarrow> heap \<Rightarrow> live_map \<Rightarrow> bool" where
  "heap_ok cfg m h live \<longleftrightarrow> heap_shape cfg h \<and> live_ok cfg m h live \<and> bitmap_ok m h live"

text \<open>No room: every range of \<open>n\<close> chunks has a used one.\<close>

definition no_room :: "heap \<Rightarrow> live_map \<Rightarrow> nat \<Rightarrow> bool" where
  "no_room h live n \<longleftrightarrow>
     (\<forall>q. q + n \<le> m_total_chunks h \<longrightarrow> (\<exists>i. q \<le> i \<and> i < q + n \<and> chunk_used live i))"

text \<open>The bytes of an allocation that belong to the caller.\<close>

definition payload :: "heap_config \<Rightarrow> heap \<Rightarrow> nat \<Rightarrow> nat \<Rightarrow> nat set" where
  "payload cfg h c n = {chunk_addr cfg h c + header_size ..< chunk_addr cfg h (c + n)}"

text \<open>
  The heap and its callers as a transition system: an allocation, an allocation that fails, the
  release of a live allocation, and a caller's write to a byte of its allocation.
\<close>

inductive heap_step ::
  "heap_config \<Rightarrow> mem \<times> heap \<times> live_map \<Rightarrow> mem \<times> heap \<times> live_map \<Rightarrow> bool"
  for cfg :: heap_config where
  step_allocate:
    "heap_allocate cfg m h n = Some (Inr (m', h', chunk_addr cfg h c + header_size)) \<Longrightarrow>
     n + header_size + CHUNK_SIZE cfg < 2 ^ 32 \<Longrightarrow>
     heap_step cfg (m, h, live) (m', h', live(c \<mapsto> chunks_needed cfg n))"
| step_out_of_memory:
    "heap_allocate cfg m h n = Some (Inr (m', h', 0)) \<Longrightarrow>
     n + header_size + CHUNK_SIZE cfg < 2 ^ 32 \<Longrightarrow>
     heap_step cfg (m, h, live) (m', h', live)"
| step_deallocate:
    "live c = Some n \<Longrightarrow>
     heap_deallocate cfg m h (chunk_addr cfg h c + header_size) = Inr (m', h') \<Longrightarrow>
     heap_step cfg (m, h, live) (m', h', live(c := None))"
| step_write:
    "live c = Some n \<Longrightarrow> x \<in> payload cfg h c n \<Longrightarrow>
     heap_step cfg (m, h, live) (m(x := b), h, live)"

inductive heap_reachable ::
  "heap_config \<Rightarrow> mem \<times> heap \<times> live_map \<Rightarrow> mem \<times> heap \<times> live_map \<Rightarrow> bool"
  for cfg :: heap_config and s0 :: "mem \<times> heap \<times> live_map" where
  reach_start: "heap_reachable cfg s0 s0"
| reach_step: "heap_reachable cfg s0 s \<Longrightarrow> heap_step cfg s s' \<Longrightarrow> heap_reachable cfg s0 s'"

section \<open>Addresses and chunks\<close>

lemma chunk_addr_mono: "c + n \<le> c' \<Longrightarrow> chunk_addr cfg h c + n * CHUNK_SIZE cfg \<le> chunk_addr cfg h c'"
  by (metis add.assoc add_le_cancel_left add_mult_distrib chunk_addr_def mult_le_mono1)

lemma chunk_addr_add: "chunk_addr cfg h (c + n) = chunk_addr cfg h c + n * CHUNK_SIZE cfg"
  by (simp add: chunk_addr_def algebra_simps)

lemma chunk_addr_end: "chunk_addr cfg h (m_total_chunks h) = heap_end cfg h"
  by (simp add: chunk_addr_def heap_end_def)

lemma chunk_below_end:
  "c + n \<le> m_total_chunks h \<Longrightarrow> chunk_addr cfg h c + n * CHUNK_SIZE cfg \<le> heap_end cfg h"
  using chunk_addr_mono [of c n "m_total_chunks h" cfg h] by (simp add: chunk_addr_end)

lemma header_in_chunk:
  "heap_shape cfg h \<Longrightarrow> c < c' \<Longrightarrow> chunk_addr cfg h c + header_size \<le> chunk_addr cfg h c'"
  using chunk_addr_mono [of c 1 c' cfg h] by (simp add: heap_shape_def)

lemma heap_bitmap:
  "heap_shape cfg h \<Longrightarrow> m_data (m_bitmap h) = heap_end cfg h \<and> m_size (m_bitmap h) = m_total_chunks h"
  by (simp add: heap_shape_def)

lemma total_below: "heap_shape cfg h \<Longrightarrow> m_total_chunks h < 2 ^ 32"
proof -
  assume shape: "heap_shape cfg h"
  then have "m_total_chunks h \<le> m_total_chunks h * CHUNK_SIZE cfg"
    by (simp add: heap_shape_def header_size_def)
  moreover have "m_total_chunks h * CHUNK_SIZE cfg \<le> heap_end cfg h" by (simp add: heap_end_def)
  moreover have "heap_end cfg h < 2 ^ 32" using shape by (simp add: heap_shape_def)
  ultimately show ?thesis by linarith
qed

text \<open>A write below the bitmap leaves its bits alone.\<close>

lemma bit_at_below:
  "(\<And>x. m_data v \<le> x \<Longrightarrow> m' x = m x) \<Longrightarrow> bit_at m' v i = bit_at m v i"
  by (simp add: bit_at_def)

section \<open>Changing the live map\<close>

lemma live_used: "live_ok cfg m h live \<Longrightarrow> live c = Some n \<Longrightarrow> chunk_used live c"
  unfolding live_ok_def chunk_used_def by (metis le_refl less_add_same_cancel1)

lemma other_header:
  assumes "live_ok cfg m h live" and shape: "heap_shape cfg h" and l: "live c' = Some n'"
    and apart: "c' + n' \<le> c \<or> c + n \<le> c'"
    and frame: "\<And>x. x < chunk_addr cfg h c \<or> chunk_addr cfg h (c + n) \<le> x \<and> x < heap_end cfg h \<Longrightarrow> m' x = m x"
  shows "load32 m' (chunk_addr cfg h c') = load32 m (chunk_addr cfg h c')"
proof (rule load32_cong, rule frame)
  fix x assume x: "chunk_addr cfg h c' \<le> x" "x < chunk_addr cfg h c' + 4"
  have n': "0 < n'" "c' + n' \<le> m_total_chunks h" using l assms(1) by (auto simp: live_ok_def)
  then have "chunk_addr cfg h c' + 4 \<le> heap_end cfg h"
    using header_in_chunk [OF shape, of c' "m_total_chunks h"] by (simp add: chunk_addr_end header_size_def)
  moreover have "c' < c \<or> c + n \<le> c'" using apart n' by linarith
  ultimately show "x < chunk_addr cfg h c \<or> chunk_addr cfg h (c + n) \<le> x \<and> x < heap_end cfg h"
    using x header_in_chunk [OF shape, of c' c] chunk_addr_mono [of "c + n" 0 c' cfg h]
    by (auto simp: header_size_def)
qed

lemma live_ok_insert:
  assumes "live_ok cfg m h live" and shape: "heap_shape cfg h" and "0 < n" and "c + n \<le> m_total_chunks h"
    and free: "\<And>i. c \<le> i \<Longrightarrow> i < c + n \<Longrightarrow> \<not> chunk_used live i"
    and frame: "\<And>x. x < chunk_addr cfg h c \<or> chunk_addr cfg h (c + n) \<le> x \<and> x < heap_end cfg h \<Longrightarrow> m' x = m x"
    and header: "load32 m' (chunk_addr cfg h c) = of_nat n"
  shows "live_ok cfg m' h (live(c \<mapsto> n))"
proof -
  have apart: "c' + n' \<le> c \<or> c + n \<le> c'" if "live c' = Some n'" for c' n'
  proof (rule ccontr)
    assume *: "\<not> (c' + n' \<le> c \<or> c + n \<le> c')"
    have "0 < n'" using that assms(1) by (simp add: live_ok_def)
    then have "c' \<le> max c c' \<and> max c c' < c' + n'" using * by auto
    with that have "chunk_used live (max c c')" unfolding chunk_used_def by blast
    then show False using free [of "max c c'"] * \<open>0 < n\<close> by auto
  qed
  have "load32 m' (chunk_addr cfg h c') = load32 m (chunk_addr cfg h c')" if "live c' = Some n'" for c' n'
    using that by (intro other_header [OF assms(1) shape that apart [OF that] frame])
  moreover have "live c = None" using free [of c] live_used [OF assms(1), of c] \<open>0 < n\<close> by fastforce
  moreover have "c1 + n1 \<le> c2"
    if "(live(c \<mapsto> n)) c1 = Some n1" "(live(c \<mapsto> n)) c2 = Some n2" "c1 < c2" for c1 n1 c2 n2
    using that apart [of c1 n1] apart [of c2 n2] assms(1) unfolding live_ok_def
    by (auto split: if_splits)
  ultimately show ?thesis
    using assms(1,3,4) header unfolding live_ok_def by (auto split: if_splits)
qed

lemma chunk_used_insert:
  assumes "live c = None"
  shows "chunk_used (live(c \<mapsto> n)) i \<longleftrightarrow> chunk_used live i \<or> c \<le> i \<and> i < c + n"
  using assms by (auto simp: chunk_used_def)

lemma card_used_insert:
  assumes "c + n \<le> t" and "\<And>i. c \<le> i \<Longrightarrow> i < c + n \<Longrightarrow> \<not> P i"
  shows "card {i. i < t \<and> (P i \<or> c \<le> i \<and> i < c + n)} = card {i. i < t \<and> P i} + n"
proof -
  have "{i. i < t \<and> (P i \<or> c \<le> i \<and> i < c + n)} = {i. i < t \<and> P i} \<union> {c..<c + n}"
    using assms(1) by auto
  moreover have "{i. i < t \<and> P i} \<inter> {c..<c + n} = {}" using assms(2) by auto
  ultimately show ?thesis by (simp add: card_Un_disjoint)
qed

lemma live_ok_remove:
  assumes "live_ok cfg m h live" and "heap_shape cfg h" and "live c = Some n"
    and "\<And>x. x < chunk_addr cfg h c \<or> chunk_addr cfg h (c + n) \<le> x \<and> x < heap_end cfg h \<Longrightarrow> m' x = m x"
  shows "live_ok cfg m' h (live(c := None))"
proof -
  have "load32 m' (chunk_addr cfg h c') = load32 m (chunk_addr cfg h c')"
    if "live c' = Some n'" "c' \<noteq> c" for c' n'
    using that assms(1,3) by (intro other_header [OF assms(1,2) that(1) _ assms(4)])
      (auto simp: live_ok_def neq_iff)
  with assms(1) show ?thesis unfolding live_ok_def by (auto split: if_splits)
qed

lemma chunk_used_remove:
  assumes "live_ok cfg m h live" and "live c = Some n"
  shows "chunk_used (live(c := None)) i \<longleftrightarrow> chunk_used live i \<and> \<not> (c \<le> i \<and> i < c + n)"
proof -
  have "c' + n' \<le> c \<or> c + n \<le> c'" if "live c' = Some n'" "c' \<noteq> c" for c' n'
    using that assms by (auto simp: live_ok_def neq_iff)
  then show ?thesis using assms(2) unfolding chunk_used_def
    by (auto split: if_splits) (metis add_leE leD le_trans not_less option.inject)+
qed

lemma heap_count_update [simp]:
  "chunk_addr cfg (h\<lparr>m_allocated_chunks := k\<rparr>) c = chunk_addr cfg h c"
  "heap_end cfg (h\<lparr>m_allocated_chunks := k\<rparr>) = heap_end cfg h"
  "heap_shape cfg (h\<lparr>m_allocated_chunks := k\<rparr>) = heap_shape cfg h"
  "live_ok cfg m (h\<lparr>m_allocated_chunks := k\<rparr>) live = live_ok cfg m h live"
  by (simp_all add: chunk_addr_def heap_end_def heap_shape_def live_ok_def)

section \<open>Allocating\<close>

lemma take_chunks_result:
  assumes ok: "heap_ok cfg m h live" and "0 < n" and "c + n \<le> m_total_chunks h"
    and unset: "range_unset m (m_bitmap h) c n"
  shows "\<exists>m' h'. take_chunks cfg m h c n = Inr (m', h', chunk_addr cfg h c + header_size) \<and>
     h' = h\<lparr>m_allocated_chunks := m_allocated_chunks h + n\<rparr> \<and>
     heap_ok cfg m' h' (live(c \<mapsto> n)) \<and>
     (\<forall>x. x < chunk_addr cfg h c \<or> chunk_addr cfg h (c + n) \<le> x \<and> x < heap_end cfg h \<longrightarrow> m' x = m x) \<and>
     (\<forall>x. heap_end cfg h + (m_total_chunks h + 7) div 8 \<le> x \<longrightarrow> m' x = m x)"
proof -
  have shape: "heap_shape cfg h" and live: "live_ok cfg m h live" and bm: "bitmap_ok m h live"
    using ok by (simp_all add: heap_ok_def)
  note view = heap_bitmap [OF shape] and total = total_below [OF shape]
  define a where "a = chunk_addr cfg h c"
  define stop where "stop = chunk_addr cfg h (c + n)"
  have stop: "stop = a + n * CHUNK_SIZE cfg" "stop \<le> heap_end cfg h" "a + header_size \<le> stop"
    using assms(2,3) chunk_below_end [of c n h cfg] header_in_chunk [OF shape, of c "c + n"]
    by (simp_all add: a_def stop_def chunk_addr_add)
  define m1 where "m1 = store32 m a (of_nat n)"
  have m1_other: "m1 x = m x" if "x < a \<or> a + header_size \<le> x" for x
    using that by (simp add: m1_def store32_other header_size_def)
  have m1_bits: "bit_at m1 (m_bitmap h) i = bit_at m (m_bitmap h) i" for i
    using stop view by (intro bit_at_below m1_other) auto
  have "\<forall>i. c \<le> i \<and> i < c + n \<longrightarrow> bit_at m1 (m_bitmap h) i = (\<not> True)"
    using unset by (auto simp: range_unset_def m1_bits)
  then obtain m2 where m2: "set_range_template True True m1 (m_bitmap h) c n = Inr m2"
      "range_set_to True m1 (m_bitmap h) c n m2"
    using set_range_template_bits [of c "m_bitmap h" n True m1 True] assms(2,3) view total by auto
  define m3 where "m3 = (if HEAP_SCRUB_BYTE_ALLOC cfg \<noteq> 0
      then memset m2 (a + header_size) (of_nat (HEAP_SCRUB_BYTE_ALLOC cfg)) (n * CHUNK_SIZE cfg - header_size)
      else m2)"
  have m3_other: "m3 x = m2 x" if "x < a + header_size \<or> stop \<le> x" for x
    using that stop by (auto simp: m3_def memset_apply)
  have low: "m2 x = m1 x" if "x < heap_end cfg h" for x
    using that m2(2) view by (simp add: range_set_to_def)
  have frame: "m3 x = m x" if "x < a \<or> stop \<le> x \<and> x < heap_end cfg h" for x
    using that stop m3_other [of x] low [of x] m1_other [of x] by auto
  have beyond: "m3 x = m x" if "heap_end cfg h + (m_total_chunks h + 7) div 8 \<le> x" for x
  proof -
    have "m2 x = m1 x" using that assms(3) view by (intro range_set_other [OF m2(2), of "(m_total_chunks h + 7) div 8"]) simp_all
    then show ?thesis using that stop m3_other [of x] m1_other [of x] by simp
  qed
  have header: "load32 m3 a = of_nat n"
  proof -
    have "load32 m3 a = load32 m1 a"
      using stop m3_other low by (intro load32_cong) (auto simp: header_size_def)
    then show ?thesis by (simp add: m1_def load_store32)
  qed
  have free: "\<not> chunk_used live i" if "c \<le> i" "i < c + n" for i
    using that unset bm assms(3) by (auto simp: range_unset_def bitmap_ok_def)
  have "live c = None" using free [of c] live_used [OF live, of c] assms(2) by fastforce
  note used = chunk_used_insert [of live, OF this, of n]
  have bits: "bit_at m3 (m_bitmap h) i \<longleftrightarrow> chunk_used (live(c \<mapsto> n)) i" if "i < m_total_chunks h" for i
  proof -
    have "bit_at m3 (m_bitmap h) i = bit_at m2 (m_bitmap h) i"
      using stop view by (intro bit_at_below m3_other) auto
    with that m2(2) bm show ?thesis by (auto simp: range_set_to_def m1_bits used bitmap_ok_def)
  qed
  have count: "card {i. i < m_total_chunks h \<and> chunk_used (live(c \<mapsto> n)) i} = m_allocated_chunks h + n"
    using card_used_insert [OF assms(3) free] bm by (simp add: used bitmap_ok_def)
  then have "m_allocated_chunks h + n \<le> m_total_chunks h"
    using card_mono [of "{..<m_total_chunks h}" "{i. i < m_total_chunks h \<and> chunk_used (live(c \<mapsto> n)) i}"]
    by auto
  then have "take_chunks cfg m h c n =
      Inr (m3, h\<lparr>m_allocated_chunks := m_allocated_chunks h + n\<rparr>, a + header_size)"
    using m2(1) total
    by (simp add: take_chunks_def a_def [symmetric] m1_def [symmetric] m3_def size_add_id Let_def
        set_range_and_verify_that_all_bits_flip_def)
  moreover have "heap_ok cfg m3 (h\<lparr>m_allocated_chunks := m_allocated_chunks h + n\<rparr>) (live(c \<mapsto> n))"
    using shape bits count live_ok_insert [OF live shape assms(2,3) free, of m3] frame header
    by (simp add: heap_ok_def bitmap_ok_def a_def stop_def)
  ultimately show ?thesis using frame beyond by (auto simp: a_def stop_def)
qed

lemma chunks_needed_bounds:
  assumes "n + header_size + CHUNK_SIZE cfg < 2 ^ 32" and "0 < CHUNK_SIZE cfg"
  shows "n + header_size \<le> chunks_needed cfg n * CHUNK_SIZE cfg"
    and "chunks_needed cfg n * CHUNK_SIZE cfg < n + header_size + CHUNK_SIZE cfg"
    and "0 < chunks_needed cfg n" and "chunks_needed cfg n < 2 ^ 32"
proof -
  let ?k = "CHUNK_SIZE cfg" and ?r = "n + header_size"
  have eq: "chunks_needed cfg n = (?r + ?k - 1) div ?k"
    using assms by (simp add: chunks_needed_def size_add_id size_sub_id)
  have "?r + ?k - 1 = ?k * ((?r + ?k - 1) div ?k) + (?r + ?k - 1) mod ?k" by simp
  moreover have "(?r + ?k - 1) mod ?k < ?k" using assms(2) by simp
  ultimately show bounds: "?r \<le> chunks_needed cfg n * ?k" "chunks_needed cfg n * ?k < ?r + ?k"
    unfolding eq mult.commute [of _ ?k] using assms(2) by linarith+
  show "0 < chunks_needed cfg n" using bounds(1) by (cases "chunks_needed cfg n") (auto simp: header_size_def)
  have "chunks_needed cfg n \<le> chunks_needed cfg n * ?k" using assms(2) by simp
  with bounds(2) assms(1) show "chunks_needed cfg n < 2 ^ 32" by linarith
qed

lemma find_chunks_result:
  assumes "0 < n" and "n < 2 ^ 32"
  shows "\<exists>r. find_chunks m h n = Some (Inr r) \<and>
     (case r of
        None \<Rightarrow> \<forall>q. q + n \<le> m_size (m_bitmap h) \<longrightarrow> \<not> range_unset m (m_bitmap h) q n
      | Some c \<Rightarrow> c + n \<le> m_size (m_bitmap h) \<and> range_unset m (m_bitmap h) c n)"
proof (cases "n < best_fit_threshold")
  case True
  with find_first_fit_result [OF assms(1), of m "m_bitmap h"] show ?thesis
    by (auto simp: find_chunks_def split: option.splits)
next
  case False
  with find_best_fit_result [of n m "m_bitmap h"] assms(2) show ?thesis
    by (simp add: find_chunks_def best_fit_threshold_def max_size_def)
qed

lemma too_few_chunks:
  assumes "heap_ok cfg m h live" and "free_chunks h < n"
  shows "no_room h live n"
  unfolding no_room_def
proof (intro allI impI, rule ccontr)
  fix q assume q: "q + n \<le> m_total_chunks h" and "\<not> (\<exists>i. q \<le> i \<and> i < q + n \<and> chunk_used live i)"
  then have "card {i. i < m_total_chunks h \<and> (chunk_used live i \<or> q \<le> i \<and> i < q + n)} =
      m_allocated_chunks h + n"
    using card_used_insert [of q n "m_total_chunks h" "chunk_used live"] assms(1)
    by (auto simp: heap_ok_def bitmap_ok_def)
  moreover have "card {i. i < m_total_chunks h \<and> (chunk_used live i \<or> q \<le> i \<and> i < q + n)} \<le> m_total_chunks h"
    using card_mono [of "{..<m_total_chunks h}"] by (metis (no_types, lifting) card_lessThan
        finite_lessThan lessThan_iff mem_Collect_eq subsetI)
  ultimately have "m_allocated_chunks h + n \<le> m_total_chunks h" by simp
  then have "n \<le> free_chunks h"
    using total_below [of cfg h] assms(1) by (simp add: free_chunks_def heap_ok_def size_sub_id)
  with assms(2) show False by simp
qed

lemma allocate_result:
  assumes ok: "heap_ok cfg m h live" and small: "n + header_size + CHUNK_SIZE cfg < 2 ^ 32"
  shows "\<exists>m' h' ptr. heap_allocate cfg m h n = Some (Inr (m', h', ptr)) \<and>
     (ptr = 0 \<and> m' = m \<and> h' = h \<and> no_room h live (chunks_needed cfg n) \<or>
      (\<exists>c k. ptr = chunk_addr cfg h c + header_size \<and> k = chunks_needed cfg n \<and>
         {ptr..<ptr + n} \<subseteq> payload cfg h c k \<and> c + k \<le> m_total_chunks h \<and>
         (\<forall>i. c \<le> i \<and> i < c + k \<longrightarrow> \<not> chunk_used live i) \<and>
         h' = h\<lparr>m_allocated_chunks := m_allocated_chunks h + k\<rparr> \<and> heap_ok cfg m' h' (live(c \<mapsto> k)) \<and>
         (\<forall>x. x < chunk_addr cfg h c \<or> chunk_addr cfg h (c + k) \<le> x \<and> x < heap_end cfg h \<longrightarrow> m' x = m x) \<and>
         (\<forall>x. heap_end cfg h + (m_total_chunks h + 7) div 8 \<le> x \<longrightarrow> m' x = m x)))"
proof -
  define k where "k = chunks_needed cfg n"
  have shape: "heap_shape cfg h" using ok by (simp add: heap_ok_def)
  then have "0 < CHUNK_SIZE cfg" by (simp add: heap_shape_def header_size_def)
  note bounds = chunks_needed_bounds [OF small this, folded k_def]
  note view = heap_bitmap [OF shape]
  have bits: "bit_at m (m_bitmap h) i \<longleftrightarrow> chunk_used live i" if "i < m_total_chunks h" for i
    using ok that by (simp add: heap_ok_def bitmap_ok_def)
  obtain r where r: "find_chunks m h k = Some (Inr r)"
    and post: "case r of
        None \<Rightarrow> \<forall>q. q + k \<le> m_size (m_bitmap h) \<longrightarrow> \<not> range_unset m (m_bitmap h) q k
      | Some c \<Rightarrow> c + k \<le> m_size (m_bitmap h) \<and> range_unset m (m_bitmap h) c k"
    using find_chunks_result [OF bounds(3,4)] by blast
  show ?thesis
  proof (cases "free_chunks h < k")
    case True
    with too_few_chunks [OF ok] show ?thesis by (simp add: heap_allocate_def k_def)
  next
    case enough: False
    show ?thesis
    proof (cases r)
      case None
      have "no_room h live k"
        unfolding no_room_def
      proof (intro allI impI)
        fix q assume "q + k \<le> m_total_chunks h"
        with None post view bits show "\<exists>i. q \<le> i \<and> i < q + k \<and> chunk_used live i"
          by (auto simp: range_unset_def)
      qed
      with None r enough show ?thesis by (simp add: heap_allocate_def k_def)
    next
      case (Some c)
      with post view have c: "c + k \<le> m_total_chunks h" "range_unset m (m_bitmap h) c k" by auto
      from take_chunks_result [OF ok bounds(3) c] obtain m' h' where
        t: "take_chunks cfg m h c k = Inr (m', h', chunk_addr cfg h c + header_size)"
           "h' = h\<lparr>m_allocated_chunks := m_allocated_chunks h + k\<rparr>"
           "heap_ok cfg m' h' (live(c \<mapsto> k))"
           "\<forall>x. x < chunk_addr cfg h c \<or> chunk_addr cfg h (c + k) \<le> x \<and> x < heap_end cfg h \<longrightarrow> m' x = m x"
           "\<forall>x. heap_end cfg h + (m_total_chunks h + 7) div 8 \<le> x \<longrightarrow> m' x = m x"
        by blast
      have "heap_allocate cfg m h n = Some (Inr (m', h', chunk_addr cfg h c + header_size))"
        using enough r Some t(1) by (simp add: heap_allocate_def k_def Let_def)
      moreover have "{chunk_addr cfg h c + header_size..<chunk_addr cfg h c + header_size + n} \<subseteq> payload cfg h c k"
        using bounds(1) by (auto simp: payload_def chunk_addr_add)
      moreover have "\<forall>i. c \<le> i \<and> i < c + k \<longrightarrow> \<not> chunk_used live i"
        using c bits by (auto simp: range_unset_def)
      ultimately show ?thesis using t(2-5) c(1) k_def by blast
    qed
  qed
qed

section \<open>Deallocating\<close>

lemma unat_of_nat_32: "n < 2 ^ 32 \<Longrightarrow> unat (of_nat n :: 32 word) = n"
  by (simp add: unsigned_of_nat take_bit_nat_eq_self)

lemma deallocate_result:
  assumes ok: "heap_ok cfg m h live" and l: "live c = Some n"
  shows "\<exists>m'. heap_deallocate cfg m h (chunk_addr cfg h c + header_size) =
       Inr (m', h\<lparr>m_allocated_chunks := m_allocated_chunks h - n\<rparr>) \<and>
     heap_ok cfg m' (h\<lparr>m_allocated_chunks := m_allocated_chunks h - n\<rparr>) (live(c := None)) \<and>
     (\<forall>x. x < chunk_addr cfg h c \<or> chunk_addr cfg h (c + n) \<le> x \<and> x < heap_end cfg h \<longrightarrow> m' x = m x) \<and>
     (\<forall>x. heap_end cfg h + (m_total_chunks h + 7) div 8 \<le> x \<longrightarrow> m' x = m x)"
proof -
  have shape: "heap_shape cfg h" and live: "live_ok cfg m h live" and bm: "bitmap_ok m h live"
    using ok by (simp_all add: heap_ok_def)
  note view = heap_bitmap [OF shape] and total = total_below [OF shape]
  have n: "0 < n" "c + n \<le> m_total_chunks h" "load32 m (chunk_addr cfg h c) = of_nat n"
    using live l by (auto simp: live_ok_def)
  define a where "a = chunk_addr cfg h c"
  define stop where "stop = chunk_addr cfg h (c + n)"
  have stop: "stop = a + n * CHUNK_SIZE cfg" "stop \<le> heap_end cfg h" "a + header_size \<le> stop"
    "heap_end cfg h < 2 ^ 32"
    using n chunk_below_end [of c n h cfg] header_in_chunk [OF shape, of c "c + n"] shape
    by (simp_all add: a_def stop_def chunk_addr_add heap_shape_def)
  have header: "unat (load32 m a) = n" using n total by (simp add: a_def unat_of_nat_32)
  have used: "chunk_used live i" if "c \<le> i" "i < c + n" for i
    using that l unfolding chunk_used_def by blast
  note rest = chunk_used_remove [OF live l]
  have "\<forall>i. c \<le> i \<and> i < c + n \<longrightarrow> bit_at m (m_bitmap h) i = (\<not> False)"
    using used bm n by (auto simp: bitmap_ok_def)
  then obtain m1 where m1: "set_range_template False True m (m_bitmap h) c n = Inr m1"
      "range_set_to False m (m_bitmap h) c n m1"
    using set_range_template_bits [of c "m_bitmap h" n True m False] n view total by auto
  define m2 where "m2 = (if HEAP_SCRUB_BYTE_FREE cfg \<noteq> 0
      then memset m1 a (of_nat (HEAP_SCRUB_BYTE_FREE cfg)) (n * CHUNK_SIZE cfg) else m1)"
  have m2_other: "m2 x = m1 x" if "x < a \<or> stop \<le> x" for x
    using that stop by (auto simp: m2_def memset_apply)
  have frame: "m2 x = m x" if "x < a \<or> stop \<le> x \<and> x < heap_end cfg h" for x
    using that stop m2_other [of x] m1(2) view by (auto simp: range_set_to_def)
  have beyond: "m2 x = m x" if "heap_end cfg h + (m_total_chunks h + 7) div 8 \<le> x" for x
  proof -
    have "m1 x = m x" using that n(2) view by (intro range_set_other [OF m1(2), of "(m_total_chunks h + 7) div 8"]) simp_all
    then show ?thesis using that stop m2_other [of x] by simp
  qed
  have bits: "bit_at m2 (m_bitmap h) i \<longleftrightarrow> chunk_used (live(c := None)) i" if "i < m_total_chunks h" for i
  proof -
    have "bit_at m2 (m_bitmap h) i = bit_at m1 (m_bitmap h) i"
      using stop view by (intro bit_at_below m2_other) auto
    with that m1(2) bm show ?thesis by (auto simp: range_set_to_def rest bitmap_ok_def)
  qed
  have "{i. i < m_total_chunks h \<and> chunk_used live i} =
      {i. i < m_total_chunks h \<and> (chunk_used (live(c := None)) i \<or> c \<le> i \<and> i < c + n)}"
    using used by (auto simp: rest)
  then have count: "m_allocated_chunks h = card {i. i < m_total_chunks h \<and> chunk_used (live(c := None)) i} + n"
    using card_used_insert [OF n(2), of "chunk_used (live(c := None))"] bm
    by (simp add: rest bitmap_ok_def)
  have "heap_deallocate cfg m h (a + header_size) =
      Inr (m2, h\<lparr>m_allocated_chunks := m_allocated_chunks h - n\<rparr>)"
  proof -
    have "a - m_chunks h = c * CHUNK_SIZE cfg" "m_chunks h \<le> a" by (simp_all add: a_def chunk_addr_def)
    then have start: "(a - m_chunks h) div CHUNK_SIZE cfg = c"
      using shape by (simp add: heap_shape_def header_size_def)
    have "CHUNK_SIZE cfg \<le> n * CHUNK_SIZE cfg" using n(1) by simp
    moreover have "header_size < CHUNK_SIZE cfg" using shape by (simp add: heap_shape_def)
    ultimately have below: "a + header_size < heap_end cfg h"
      using stop(1,2) by linarith
    have ptr: "size_sub (a + header_size) header_size = a" "header_size \<noteq> 0"
      using below stop(4) by (auto simp: size_sub_id header_size_def)
    have len: "size_add a (size_mul n (CHUNK_SIZE cfg)) = stop"
      using stop by (simp add: size_add_id size_mul_id)
    have get: "bitmap_get m (m_bitmap h) c = Inr True"
      using used [of c] n bm view by (simp add: bitmap_get_bit bitmap_ok_def)
    show ?thesis
      using ptr header \<open>m_chunks h \<le> a\<close> below start get stop(2) m1(1) count
      by (simp add: heap_deallocate_def Let_def len set_range_and_verify_that_all_bits_flip_def m2_def)
  qed
  moreover have "heap_ok cfg m2 (h\<lparr>m_allocated_chunks := m_allocated_chunks h - n\<rparr>) (live(c := None))"
    using shape bits count live_ok_remove [OF live shape l, of m2] frame
    by (simp add: heap_ok_def bitmap_ok_def a_def stop_def)
  ultimately show ?thesis using frame beyond by (auto simp: a_def stop_def)
qed

section \<open>Every run of the heap\<close>

lemma payload_apart:
  assumes "heap_ok cfg m h live" and "live c = Some n" and "live c' = Some n'" and "c \<noteq> c'"
  shows "{chunk_addr cfg h c..<chunk_addr cfg h (c + n)} \<inter> {chunk_addr cfg h c'..<chunk_addr cfg h (c' + n')} = {}"
proof -
  have "c + n \<le> c' \<or> c' + n' \<le> c"
    using assms by (auto simp: heap_ok_def live_ok_def neq_iff)
  then have "chunk_addr cfg h (c + n) \<le> chunk_addr cfg h c' \<or> chunk_addr cfg h (c' + n') \<le> chunk_addr cfg h c"
    by (metis chunk_addr_add chunk_addr_mono)
  then show ?thesis by auto
qed

lemma heap_ok_writes:
  assumes ok: "heap_ok cfg m h live" and l: "live c = Some n"
    and frame: "\<And>x. x \<notin> payload cfg h c n \<Longrightarrow> m' x = m x"
  shows "heap_ok cfg m' h live"
proof -
  have shape: "heap_shape cfg h" and live: "live_ok cfg m h live" and bm: "bitmap_ok m h live"
    using ok by (simp_all add: heap_ok_def)
  have low: "x < heap_end cfg h" if "x \<in> payload cfg h c n" for x
    using that chunk_below_end [of c n h cfg] live l by (auto simp: payload_def chunk_addr_add live_ok_def)
  have "load32 m' (chunk_addr cfg h c') = load32 m (chunk_addr cfg h c')" if l': "live c' = Some n'" for c' n'
  proof (rule load32_cong, rule frame)
    fix y assume y: "chunk_addr cfg h c' \<le> y" "y < chunk_addr cfg h c' + 4"
    have "0 < n'" using live l' by (simp add: live_ok_def)
    then have "y < chunk_addr cfg h (c' + n')"
      using y header_in_chunk [OF shape, of c' "c' + n'"] by (simp add: header_size_def)
    then show "y \<notin> payload cfg h c n"
      using y payload_apart [OF ok l l'] by (cases "c = c'") (auto simp: payload_def header_size_def)
  qed
  then have "live_ok cfg m' h live" using live by (simp add: live_ok_def)
  moreover have "bit_at m' (m_bitmap h) i = bit_at m (m_bitmap h) i" for i
    using low heap_bitmap [OF shape] by (intro bit_at_below frame) (auto dest: low)
  ultimately show ?thesis using shape bm by (simp add: heap_ok_def bitmap_ok_def)
qed

lemma heap_ok_write:
  "heap_ok cfg m h live \<Longrightarrow> live c = Some n \<Longrightarrow> x \<in> payload cfg h c n \<Longrightarrow> heap_ok cfg (m(x := b)) h live"
  by (rule heap_ok_writes [of cfg m h live c n]) auto

lemma chunk_addr_inj: "heap_shape cfg h \<Longrightarrow> chunk_addr cfg h c = chunk_addr cfg h c' \<longleftrightarrow> c = c'"
  by (auto simp: chunk_addr_def heap_shape_def)

lemma heap_step_ok:
  assumes "heap_step cfg s s'" and "heap_ok cfg (fst s) (fst (snd s)) (snd (snd s))"
  shows "heap_ok cfg (fst s') (fst (snd s')) (snd (snd s'))"
  using assms
proof cases
  case (step_allocate m h n m' h' c live)
  with assms(2) allocate_result [of cfg m h live n] show ?thesis
    by (auto simp: header_size_def chunk_addr_inj heap_ok_def)
next
  case (step_out_of_memory m h n m' h' live)
  with assms(2) allocate_result [of cfg m h live n] show ?thesis by (auto simp: header_size_def)
next
  case (step_deallocate live c n m h m' h')
  with assms(2) deallocate_result [of cfg m h live c n] show ?thesis by auto
next
  case (step_write live c n x h m b)
  with assms(2) heap_ok_write show ?thesis by auto
qed

lemma heap_reachable_ok:
  assumes "heap_reachable cfg s0 s" and "heap_ok cfg (fst s0) (fst (snd s0)) (snd (snd s0))"
  shows "heap_ok cfg (fst s) (fst (snd s)) (snd (snd s))"
  using assms by (induction rule: heap_reachable.induct) (auto intro: heap_step_ok)

lemma heap_step_shape:
  assumes "heap_step cfg s s'" and "heap_ok cfg (fst s) (fst (snd s)) (snd (snd s))"
  shows "m_chunks (fst (snd s')) = m_chunks (fst (snd s)) \<and>
    m_total_chunks (fst (snd s')) = m_total_chunks (fst (snd s))"
  using assms
proof cases
  case (step_allocate m h n m' h' c live)
  with assms(2) allocate_result [of cfg m h live n] show ?thesis by (auto simp: header_size_def)
next
  case (step_out_of_memory m h n m' h' live)
  with assms(2) allocate_result [of cfg m h live n] show ?thesis by (auto simp: header_size_def)
next
  case (step_deallocate live c n m h m' h')
  with assms(2) deallocate_result [of cfg m h live c n] show ?thesis by auto
qed simp

lemma heap_reachable_shape:
  assumes "heap_reachable cfg (m0, h0, live0) (m, h, live)" and "heap_ok cfg m0 h0 live0"
  shows "m_chunks h = m_chunks h0 \<and> m_total_chunks h = m_total_chunks h0"
proof -
  have "m_chunks (fst (snd s)) = m_chunks h0 \<and> m_total_chunks (fst (snd s)) = m_total_chunks h0"
    if "heap_reachable cfg (m0, h0, live0) s" for s
    using that
  proof induction
    case (reach_step s s')
    with heap_reachable_ok [OF reach_step.hyps(1)] assms(2) heap_step_shape [OF reach_step.hyps(2)]
    show ?case by simp
  qed simp
  from this [OF assms(1)] show ?thesis by simp
qed

lemma construct_result:
  assumes "header_size < CHUNK_SIZE cfg" and "memory + memory_size + 1 < 2 ^ 32"
    and "\<And>x. memory \<le> x \<Longrightarrow> x < memory + memory_size \<Longrightarrow> m x = 0"
  shows "\<exists>h. heap_construct cfg memory memory_size = Inr h \<and> heap_ok cfg m h (\<lambda>_. None) \<and>
     m_chunks h = memory \<and> m_total_chunks h = memory_size div (CHUNK_SIZE cfg + 1)"
proof -
  define t where "t = memory_size div (CHUNK_SIZE cfg + 1)"
  have "t * (CHUNK_SIZE cfg + 1) \<le> memory_size"
    unfolding t_def by (rule div_times_less_eq_dividend)
  then have bound: "t * CHUNK_SIZE cfg + t \<le> memory_size" by simp
  have "(t + 7) div 8 \<le> t" by (cases t) auto
  with bound have fits: "t * CHUNK_SIZE cfg + (t + 7) div 8 \<le> memory_size" by linarith
  define h where "h = \<lparr>m_total_chunks = t, m_allocated_chunks = 0, m_chunks = memory,
      m_bitmap = \<lparr>m_data = memory + t * CHUNK_SIZE cfg, m_size = t\<rparr>\<rparr>"
  have h: "heap_construct cfg memory memory_size = Inr h"
    using fits unfolding heap_construct_def calculate_chunks_def t_def [symmetric]
    by (simp add: h_def Let_def)
  have "t div 8 \<le> t" by simp
  then have "heap_shape cfg h"
    using bound assms(1,2) by (auto simp: heap_shape_def heap_end_def h_def)
  moreover have "\<not> bit_at m (m_bitmap h) i" if "i < t" for i
  proof -
    have "i div 8 \<le> i" by simp
    then have "m (memory + t * CHUNK_SIZE cfg + i div 8) = 0"
      using bound that by (intro assms(3)) auto
    then show ?thesis by (simp add: bit_at_def h_def)
  qed
  ultimately have "heap_ok cfg m h (\<lambda>_. None)"
    by (auto simp: heap_ok_def live_ok_def bitmap_ok_def chunk_used_def h_def)
  with h show ?thesis by (auto simp: h_def t_def)
qed

section \<open>Properties\<close>

text \<open>
  C6. \<^verbatim>\<open>Heap::allocate\<close>, for a request that does not wrap around, returns without a fault: either a null
  pointer with nothing changed, and then every range of the needed number of chunks has a used
  one, or a pointer whose bytes lie in chunks that no live allocation uses, in a heap that keeps
  its invariant with that allocation added; no other byte of the chunks changes, nor any byte outside
  the chunks and their bitmap.
\<close>

theorem heap_allocate_correct:
  assumes "heap_ok cfg m h live" and "n + header_size + CHUNK_SIZE cfg < 2 ^ 32"
  shows "\<exists>m' h' ptr. heap_allocate cfg m h n = Some (Inr (m', h', ptr)) \<and>
     (ptr = 0 \<and> m' = m \<and> h' = h \<and> no_room h live (chunks_needed cfg n) \<or>
      (\<exists>c k. ptr = chunk_addr cfg h c + header_size \<and> k = chunks_needed cfg n \<and>
         {ptr..<ptr + n} \<subseteq> payload cfg h c k \<and> c + k \<le> m_total_chunks h \<and>
         (\<forall>i. c \<le> i \<and> i < c + k \<longrightarrow> \<not> chunk_used live i) \<and>
         h' = h\<lparr>m_allocated_chunks := m_allocated_chunks h + k\<rparr> \<and> heap_ok cfg m' h' (live(c \<mapsto> k)) \<and>
         (\<forall>x. x < chunk_addr cfg h c \<or> chunk_addr cfg h (c + k) \<le> x \<and> x < heap_end cfg h \<longrightarrow> m' x = m x) \<and>
         (\<forall>x. heap_end cfg h + (m_total_chunks h + 7) div 8 \<le> x \<longrightarrow> m' x = m x)))"
  using assms by (rule allocate_result)

definition small_config :: heap_config where
  "small_config = \<lparr>CHUNK_SIZE = 32, HEAP_SCRUB_BYTE_ALLOC = 0xbb, HEAP_SCRUB_BYTE_FREE = 0xaa\<rparr>"

definition small_heap :: heap where
  "small_heap = \<lparr>m_total_chunks = 30, m_allocated_chunks = 0, m_chunks = 4096,
     m_bitmap = \<lparr>m_data = 4096 + 30 * 32, m_size = 30\<rparr>\<rparr>"

lemma small_heap_ok: "heap_ok small_config (\<lambda>_. 0) small_heap (\<lambda>_. None)"
  by (simp add: heap_ok_def heap_shape_def live_ok_def bitmap_ok_def chunk_used_def bit_at_def
      small_config_def small_heap_def heap_end_def header_size_def)

theorem heap_allocate_correct_witness:
  "\<exists>m' h' ptr. heap_allocate small_config (\<lambda>_. 0) small_heap 100 = Some (Inr (m', h', ptr))"
  using heap_allocate_correct [OF small_heap_ok, of 100]
  by (auto simp: small_config_def header_size_def)

text \<open>
  C7. \<^verbatim>\<open>Heap::deallocate\<close> of a live allocation passes all of its checks, takes the allocation out of the
  heap, keeps the invariant, and changes no other byte of the chunks nor any byte outside the chunks and
  their bitmap.
\<close>

theorem heap_deallocate_correct:
  assumes "heap_ok cfg m h live" and "live c = Some n"
  shows "\<exists>m'. heap_deallocate cfg m h (chunk_addr cfg h c + header_size) =
       Inr (m', h\<lparr>m_allocated_chunks := m_allocated_chunks h - n\<rparr>) \<and>
     heap_ok cfg m' (h\<lparr>m_allocated_chunks := m_allocated_chunks h - n\<rparr>) (live(c := None)) \<and>
     (\<forall>x. x < chunk_addr cfg h c \<or> chunk_addr cfg h (c + n) \<le> x \<and> x < heap_end cfg h \<longrightarrow> m' x = m x) \<and>
     (\<forall>x. heap_end cfg h + (m_total_chunks h + 7) div 8 \<le> x \<longrightarrow> m' x = m x)"
  using assms by (rule deallocate_result)

lemma one_chunk_ok:
  "heap_ok small_config ((\<lambda>_. 0)(4096 := 1, 4096 + 30 * 32 := 1))
     (small_heap\<lparr>m_allocated_chunks := 1\<rparr>) ((\<lambda>_. None)(0 \<mapsto> 1))"
proof -
  have used: "chunk_used ((\<lambda>_. None)(0 \<mapsto> 1)) i \<longleftrightarrow> i = 0" for i
    by (auto simp: chunk_used_def split: if_splits)
  have "{i::nat. i < 30 \<and> i = 0} = {0}" by auto
  moreover have "bit_at ((\<lambda>_. 0)(4096 := 1, 4096 + 30 * 32 := 1)) (m_bitmap small_heap) i \<longleftrightarrow> i = 0" for i
    by (auto simp: bit_at_def small_heap_def bit_1_iff div_eq_0_iff)
  ultimately have "bitmap_ok ((\<lambda>_. 0)(4096 := 1, 4096 + 30 * 32 := 1))
     (small_heap\<lparr>m_allocated_chunks := 1\<rparr>) ((\<lambda>_. None)(0 \<mapsto> 1))"
    unfolding bitmap_ok_def used by (simp add: small_heap_def)
  moreover have "heap_shape small_config small_heap"
    using small_heap_ok by (simp add: heap_ok_def)
  moreover have "live_ok small_config ((\<lambda>_. 0)(4096 := 1, 4096 + 30 * 32 := 1)) small_heap ((\<lambda>_. None)(0 \<mapsto> 1))"
    by (simp add: live_ok_def small_heap_def chunk_addr_def load32_def)
  ultimately show ?thesis by (simp add: heap_ok_def)
qed

theorem heap_deallocate_correct_witness:
  "\<exists>m' h'. heap_deallocate small_config ((\<lambda>_. 0)(4096 := 1, 4096 + 30 * 32 := 1))
      (small_heap\<lparr>m_allocated_chunks := 1\<rparr>) 4100 = Inr (m', h')"
  using heap_deallocate_correct [OF one_chunk_ok, of 0 1]
  by (auto simp: chunk_addr_def header_size_def small_heap_def)

text \<open>
  Freeing a chunk that is not the start of a used range panics: the check on the bitmap catches a
  double free of a chunk that has not been handed out again.
\<close>

theorem heap_double_free_panics:
  assumes "heap_ok cfg m h live" and "\<not> chunk_used live c" and "c < m_total_chunks h"
  shows "heap_deallocate cfg m h (chunk_addr cfg h c + header_size) = Inl Verify_failed"
proof -
  have shape: "heap_shape cfg h" and bm: "bitmap_ok m h live" using assms(1) by (simp_all add: heap_ok_def)
  have low: "chunk_addr cfg h c + header_size \<le> heap_end cfg h" "heap_end cfg h < 2 ^ 32"
    using header_in_chunk [OF shape assms(3)] shape by (simp_all add: chunk_addr_end heap_shape_def)
  then have ptr: "size_sub (chunk_addr cfg h c + header_size) header_size = chunk_addr cfg h c"
    "header_size \<noteq> 0"
    by (simp_all add: size_sub_id header_size_def)
  have start: "(chunk_addr cfg h c - m_chunks h) div CHUNK_SIZE cfg = c"
    using shape by (simp add: chunk_addr_def heap_shape_def header_size_def)
  have "bitmap_get m (m_bitmap h) c = Inr False"
    using assms bm heap_bitmap [OF shape] by (simp add: bitmap_get_bit bitmap_ok_def)
  with ptr start show ?thesis by (simp add: heap_deallocate_def Let_def verify_def)
qed

theorem heap_double_free_panics_witness:
  "heap_deallocate small_config (\<lambda>_. 0) small_heap 4132 = Inl Verify_failed"
  using heap_double_free_panics [OF small_heap_ok, of 1]
  by (simp add: chunk_used_def chunk_addr_def header_size_def small_config_def small_heap_def)



text \<open>
  \<^verbatim>\<open>Heap::reallocate\<close> of a live allocation to a size other than that of its chunks returns without a
  fault and keeps the invariant.  The old allocation is gone; a pointer that is not null is a new
  allocation that holds the old bytes, as many as both have room for.
\<close>

theorem heap_reallocate_correct:
  assumes ok: "heap_ok cfg m h live" and l: "live c = Some n" and diff: "new_size \<noteq> n * CHUNK_SIZE cfg"
    and small: "new_size + header_size + CHUNK_SIZE cfg < 2 ^ 32"
  shows "\<exists>m' h' ptr. heap_reallocate cfg m h (chunk_addr cfg h c + header_size) new_size = Some (Inr (m', h', ptr)) \<and>
     (ptr = 0 \<and> heap_ok cfg m' h' (live(c := None)) \<or>
      (\<exists>c' k. ptr = chunk_addr cfg h c' + header_size \<and> c' \<noteq> c \<and>
         heap_ok cfg m' h' (live(c' \<mapsto> k, c := None)) \<and>
         {ptr..<ptr + new_size} \<subseteq> payload cfg h c' k \<and>
         (\<forall>i < min (n * CHUNK_SIZE cfg - header_size) new_size.
            m' (ptr + i) = m (chunk_addr cfg h c + header_size + i))))"
proof -
  define ptr where "ptr = chunk_addr cfg h c + header_size"
  have shape: "heap_shape cfg h" and live: "live_ok cfg m h live" using ok by (simp_all add: heap_ok_def)
  note total = total_below [OF shape]
  have n: "0 < n" "c + n \<le> m_total_chunks h" "load32 m (chunk_addr cfg h c) = of_nat n"
    using live l by (auto simp: live_ok_def)
  have stop: "chunk_addr cfg h c + n * CHUNK_SIZE cfg \<le> heap_end cfg h" "heap_end cfg h < 2 ^ 32"
    using chunk_below_end [OF n(2)] shape by (simp_all add: heap_shape_def)
  have hdr: "header_size < CHUNK_SIZE cfg" using shape by (simp add: heap_shape_def)
  moreover have "CHUNK_SIZE cfg \<le> n * CHUNK_SIZE cfg" using n(1) by simp
  ultimately have below: "ptr < heap_end cfg h" "header_size < n * CHUNK_SIZE cfg"
    using stop(1) unfolding ptr_def by linarith+
  have a: "size_sub ptr header_size = chunk_addr cfg h c" "ptr \<noteq> 0" "m_chunks h \<le> chunk_addr cfg h c"
    using below stop(2) by (auto simp: size_sub_id ptr_def header_size_def chunk_addr_def)
  have old: "size_mul (unat (load32 m (chunk_addr cfg h c))) (CHUNK_SIZE cfg) = n * CHUNK_SIZE cfg"
    using n total stop by (simp add: unat_of_nat_32 size_mul_id)
  define rest where "rest = (\<lambda>(m, h, new_ptr).
      bind_res (heap_deallocate cfg
        (if new_ptr \<noteq> 0 then memcpy m new_ptr ptr (min (n * CHUNK_SIZE cfg) new_size) else m) h ptr)
        (\<lambda>(m, h). Inr (m, h, new_ptr)))"
  have realloc: "heap_reallocate cfg m h ptr new_size = Some (rest (m1, h1, p1))"
    if "heap_allocate cfg m h new_size = Some (Inr (m1, h1, p1))" for m1 h1 p1
    using that a old below stop diff
    by (simp add: heap_reallocate_def Let_def size_add_id rest_def not_sym [OF diff])
  obtain m1 h1 p1 where alloc: "heap_allocate cfg m h new_size = Some (Inr (m1, h1, p1))"
    and post: "p1 = 0 \<and> m1 = m \<and> h1 = h \<or>
      (\<exists>c' k. p1 = chunk_addr cfg h c' + header_size \<and>
         {p1..<p1 + new_size} \<subseteq> payload cfg h c' k \<and>
         (\<forall>i. c' \<le> i \<and> i < c' + k \<longrightarrow> \<not> chunk_used live i) \<and> k = chunks_needed cfg new_size \<and>
         h1 = h\<lparr>m_allocated_chunks := m_allocated_chunks h + k\<rparr> \<and> heap_ok cfg m1 h1 (live(c' \<mapsto> k)) \<and>
         (\<forall>x. x < chunk_addr cfg h c' \<or> chunk_addr cfg h (c' + k) \<le> x \<and> x < heap_end cfg h \<longrightarrow> m1 x = m x))"
    using allocate_result [OF ok small] by blast
  show ?thesis
    using post
  proof (elim disjE exE conjE)
    assume "p1 = 0" "m1 = m" "h1 = h"
    with realloc [OF alloc] deallocate_result [OF ok l] show ?thesis
      by (auto simp: rest_def ptr_def [symmetric])
  next
    fix c' k
    assume c': "p1 = chunk_addr cfg h c' + header_size" "{p1..<p1 + new_size} \<subseteq> payload cfg h c' k"
      "\<forall>i. c' \<le> i \<and> i < c' + k \<longrightarrow> \<not> chunk_used live i" "k = chunks_needed cfg new_size"
      "h1 = h\<lparr>m_allocated_chunks := m_allocated_chunks h + k\<rparr>" "heap_ok cfg m1 h1 (live(c' \<mapsto> k))"
      "\<forall>x. x < chunk_addr cfg h c' \<or> chunk_addr cfg h (c' + k) \<le> x \<and> x < heap_end cfg h \<longrightarrow> m1 x = m x"
    have "0 < k" using chunks_needed_bounds(3) [OF small] hdr c'(4) by simp
    then have "c' \<noteq> c" using c'(3) live_used [OF live l] by auto
    then have lc: "(live(c' \<mapsto> k)) c = Some n" "(live(c' \<mapsto> k)) c' = Some k" using l by simp_all
    have "{chunk_addr cfg h c..<chunk_addr cfg h (c + n)} \<inter>
        {chunk_addr cfg h c'..<chunk_addr cfg h (c' + k)} = {}"
      using payload_apart [OF c'(6) lc] \<open>c' \<noteq> c\<close> unfolding c'(5) heap_count_update by blast
    then have apart: "\<not> (chunk_addr cfg h c \<le> x \<and> x < chunk_addr cfg h (c + n) \<and>
        chunk_addr cfg h c' \<le> x \<and> x < chunk_addr cfg h (c' + k))" for x
      unfolding disjoint_iff atLeastLessThan_iff by blast
    have stop': "chunk_addr cfg h (c' + k) \<le> heap_end cfg h"
      using c'(6) lc(2) chunk_below_end [of c' k h cfg] by (simp add: heap_ok_def live_ok_def c'(5) chunk_addr_add)
    define L where "L = min (n * CHUNK_SIZE cfg) new_size"
    define m2 where "m2 = memcpy m1 p1 ptr L"
    have in_new: "x \<in> payload cfg h c' k" if "p1 \<le> x" "x < p1 + L" for x
      using that c'(2) by (auto simp: L_def)
    have "heap_ok cfg m2 h1 (live(c' \<mapsto> k))"
      using in_new by (intro heap_ok_writes [OF c'(6) lc(2)]) (auto simp: m2_def memcpy_apply c'(5) payload_def)
    moreover have eqs: "chunk_addr cfg h1 x = chunk_addr cfg h x" "heap_end cfg h1 = heap_end cfg h" for x
      by (simp_all add: c'(5))
    ultimately obtain m3 h3 where
      m3: "heap_deallocate cfg m2 h1 ptr = Inr (m3, h3)" "heap_ok cfg m3 h3 (live(c' \<mapsto> k, c := None))"
        "\<forall>x. x < chunk_addr cfg h c \<or> chunk_addr cfg h (c + n) \<le> x \<and> x < heap_end cfg h \<longrightarrow> m3 x = m2 x"
      using deallocate_result [of cfg m2 h1 "live(c' \<mapsto> k)" c n, unfolded eqs, folded ptr_def] lc(1)
      by blast
    have "m3 (p1 + i) = m (ptr + i)" if "i < min (n * CHUNK_SIZE cfg - header_size) new_size" for i
    proof -
      have "p1 + i \<in> payload cfg h c' k" "i < L" using that in_new [of "p1 + i"] by (auto simp: L_def)
      then have "m3 (p1 + i) = m1 (ptr + i)"
        using m3(3) apart [of "p1 + i"] stop' by (auto simp: payload_def m2_def memcpy_apply not_less)
      moreover have "ptr + i \<in> {chunk_addr cfg h c..<chunk_addr cfg h (c + n)}"
        using that by (auto simp: ptr_def chunk_addr_add)
      then have "m1 (ptr + i) = m (ptr + i)"
        using c'(7) apart [of "ptr + i"] stop by (auto simp: chunk_addr_add not_less)
      ultimately show ?thesis by simp
    qed
    moreover have "heap_reallocate cfg m h ptr new_size = Some (Inr (m3, h3, p1))"
      using realloc [OF alloc] m3(1) c'(1) by (simp add: rest_def header_size_def m2_def L_def)
    ultimately show ?thesis
      using m3(2) c'(1,2) \<open>c' \<noteq> c\<close> by (auto simp: ptr_def [symmetric])
  qed
qed

theorem heap_reallocate_correct_witness:
  "\<exists>m' h' ptr. heap_reallocate small_config ((\<lambda>_. 0)(4096 := 1, 4096 + 30 * 32 := 1))
      (small_heap\<lparr>m_allocated_chunks := 1\<rparr>) 4100 50 = Some (Inr (m', h', ptr))"
  using heap_reallocate_correct [OF one_chunk_ok, of 0 1 50]
  by (auto simp: chunk_addr_def header_size_def small_heap_def small_config_def)

section \<open>Where the code falls short\<close>

text \<open>
  Reallocating to exactly the size of the chunks returns the old pointer, although the header
  takes part of the first chunk: the caller's bytes end before the size it asked for.
\<close>

theorem reallocate_chunk_size_is_short:
  "heap_reallocate small_config ((\<lambda>_. 0)(4096 := 1, 4096 + 30 * 32 := 1))
      (small_heap\<lparr>m_allocated_chunks := 1\<rparr>) 4100 32 =
     Some (Inr ((\<lambda>_. 0)(4096 := 1, 4096 + 30 * 32 := 1), small_heap\<lparr>m_allocated_chunks := 1\<rparr>, 4100)) \<and>
   payload small_config small_heap 0 1 = {4100..<4128}"
  by (simp add: heap_reallocate_def load32_def size_sub_def size_mul_def size_add_def heap_end_def
      small_heap_def small_config_def header_size_def payload_def chunk_addr_def Let_def)

text \<open>A request close to 4 GiB wraps around to no chunks at all.\<close>

theorem chunks_needed_wraps: "chunks_needed small_config 0xfffffffc = 0"
  by (simp add: chunks_needed_def size_add_def size_sub_def small_config_def header_size_def)

text \<open>
  The memory that \<^verbatim>\<open>calculate_memory_for_bytes\<close> reserves counts one bit of bitmap for a chunk, but the
  constructor divides by a chunk and a whole byte: the heap is a chunk short.
\<close>

theorem calculated_memory_is_short:
  "calculate_memory_for_bytes small_config 316 = 322 \<and>
   calculate_chunks small_config 322 = 9 \<and> chunks_needed small_config 316 = 10"
  by (simp add: calculate_memory_for_bytes_def calculate_chunks_def chunks_needed_def size_add_def
      size_sub_def size_mul_def small_config_def header_size_def)

end
