(* ===== verification/CString.thy ===== *)
theory CString
  imports Memory "HOL-Library.Monad_Syntax" "HOL-Library.Sublist"
begin

text \<open>
  The C string and memory routines of \<^verbatim>\<open>Kernel/StdLib.cpp\<close> and \<^verbatim>\<open>UserLand/Libraries/LibC/string.cpp\<close>
  on the byte memory.  A loop that runs to the terminating zero byte does not end when there is
  none; such a routine returns an option, \<open>None\<close> for a loop that does not end.
\<close>

section \<open>Operations\<close>

subsection \<open>Blocks of memory\<close>

text \<open>The string instructions \<^verbatim>\<open>rep movsb\<close>, \<^verbatim>\<open>rep movsl\<close>, \<^verbatim>\<open>rep stosb\<close> and \<^verbatim>\<open>rep stosl\<close>.\<close>

fun rep_movsb :: "mem \<Rightarrow> nat \<Rightarrow> nat \<Rightarrow> nat \<Rightarrow> mem" where
  "rep_movsb m dest src 0 = m"
| "rep_movsb m dest src (Suc n) = rep_movsb (m(dest := m src)) (dest + 1) (src + 1) n"

fun rep_movsl :: "mem \<Rightarrow> nat \<Rightarrow> nat \<Rightarrow> nat \<Rightarrow> mem" where
  "rep_movsl m dest src 0 = m"
| "rep_movsl m dest src (Suc n) = rep_movsl (store32 m dest (load32 m src)) (dest + 4) (src + 4) n"

fun rep_stosb :: "mem \<Rightarrow> nat \<Rightarrow> 8 word \<Rightarrow> nat \<Rightarrow> mem" where
  "rep_stosb m dest c 0 = m"
| "rep_stosb m dest c (Suc n) = rep_stosb (m(dest := c)) (dest + 1) c n"

fun rep_stosl :: "mem \<Rightarrow> nat \<Rightarrow> 32 word \<Rightarrow> nat \<Rightarrow> mem" where
  "rep_stosl m dest c 0 = m"
| "rep_stosl m dest c (Suc n) = rep_stosl (store32 m dest c) (dest + 4) c n"

definition k_memcpy :: "mem \<Rightarrow> nat \<Rightarrow> nat \<Rightarrow> nat \<Rightarrow> mem" where
  "k_memcpy m dest src n =
     (if dest mod 4 = 0 \<and> src mod 4 = 0 \<and> 12 \<le> n
      then
        (let size_ts = n div 4;
             m = rep_movsl m dest src size_ts;
             dest = dest + 4 * size_ts;
             src = src + 4 * size_ts;
             n = n - size_ts * 4 in
         if n = 0 then m else rep_movsb m dest src n)
      else rep_movsb m dest src n)"

fun copy_backwards :: "mem \<Rightarrow> nat \<Rightarrow> nat \<Rightarrow> nat \<Rightarrow> mem" where
  "copy_backwards m dest src 0 = m"
| "copy_backwards m dest src (Suc n) = copy_backwards (m(dest + n := m (src + n))) dest src n"

definition memmove :: "mem \<Rightarrow> nat \<Rightarrow> nat \<Rightarrow> nat \<Rightarrow> mem" where
  "memmove m dest src n = (if dest < src then k_memcpy m dest src n else copy_backwards m dest src n)"

definition explode_byte :: "8 word \<Rightarrow> 32 word" where
  "explode_byte b = push_bit 24 (ucast b) OR push_bit 16 (ucast b) OR push_bit 8 (ucast b) OR ucast b"

definition k_memset :: "mem \<Rightarrow> nat \<Rightarrow> int \<Rightarrow> nat \<Rightarrow> mem" where
  "k_memset m dest c n =
     (if dest mod 4 = 0 \<and> 12 \<le> n
      then
        (let size_ts = n div 4;
             expanded_c = explode_byte (word_of_int c);
             m = rep_stosl m dest expanded_c size_ts;
             dest = dest + 4 * size_ts;
             n = n - size_ts * 4 in
         if n = 0 then m else rep_stosb m dest (word_of_int c) n)
      else rep_stosb m dest (word_of_int c) n)"

fun memcmp :: "mem \<Rightarrow> nat \<Rightarrow> nat \<Rightarrow> nat \<Rightarrow> int" where
  "memcmp m s1 s2 0 = 0"
| "memcmp m s1 s2 (Suc n) =
     (if m s1 \<noteq> m s2 then (if m s1 < m s2 then -1 else 1) else memcmp m (s1 + 1) (s2 + 1) n)"

text \<open>A null pointer result is \<open>None\<close>.  The character argument is an \<^verbatim>\<open>int\<close> converted to \<^verbatim>\<open>char\<close>.\<close>

fun memchr_loop :: "mem \<Rightarrow> nat \<Rightarrow> 8 word \<Rightarrow> nat \<Rightarrow> nat \<Rightarrow> nat option" where
  "memchr_loop m ptr ch i 0 = None"
| "memchr_loop m ptr ch i (Suc n) =
     (if m (ptr + i) = ch then Some (ptr + i) else memchr_loop m ptr ch (i + 1) n)"

definition memchr :: "mem \<Rightarrow> nat \<Rightarrow> int \<Rightarrow> nat \<Rightarrow> nat option" where
  "memchr m ptr c n = memchr_loop m ptr (word_of_int c) 0 n"

subsection \<open>Lengths and comparisons\<close>

partial_function (option) strlen_loop :: "mem \<Rightarrow> nat \<Rightarrow> nat \<Rightarrow> nat option" where
  "strlen_loop m str len = (if m str \<noteq> 0 then strlen_loop m (str + 1) (len + 1) else Some len)"

definition strlen :: "mem \<Rightarrow> nat \<Rightarrow> nat option" where
  "strlen m str = strlen_loop m str 0"

function strnlen_loop :: "mem \<Rightarrow> nat \<Rightarrow> nat \<Rightarrow> nat \<Rightarrow> nat" where
  "strnlen_loop m str maxlen len =
     (if len < maxlen \<and> m str \<noteq> 0 then strnlen_loop m (str + 1) maxlen (len + 1) else len)"
  by pat_completeness auto
termination by (relation "measure (\<lambda>(m, str, maxlen, len). maxlen - len)") auto

definition strnlen :: "mem \<Rightarrow> nat \<Rightarrow> nat \<Rightarrow> nat" where
  "strnlen m str maxlen = strnlen_loop m str maxlen 0"

partial_function (option) strcmp :: "mem \<Rightarrow> nat \<Rightarrow> nat \<Rightarrow> int option" where
  "strcmp m s1 s2 =
     (if m s1 = m s2
      then if m s1 = 0 then Some 0 else strcmp m (s1 + 1) (s2 + 1)
      else Some (if m s1 < m s2 then -1 else 1))"

partial_function (option) libc_strcmp :: "mem \<Rightarrow> nat \<Rightarrow> nat \<Rightarrow> int option" where
  "libc_strcmp m s1 s2 =
     (if m s1 = m s2
      then if m s1 = 0 then Some 0 else libc_strcmp m (s1 + 1) (s2 + 1)
      else Some (uint (m s1) - uint (m s2)))"

fun strncmp :: "mem \<Rightarrow> nat \<Rightarrow> nat \<Rightarrow> nat \<Rightarrow> int" where
  "strncmp m s1 s2 0 = 0"
| "strncmp m s1 s2 (Suc n) =
     (if m s1 \<noteq> m s2 then uint (m s1) - uint (m s2)
      else if m s1 = 0 then 0
      else strncmp m (s1 + 1) (s2 + 1) n)"

subsection \<open>Copies\<close>

partial_function (option) strcpy :: "mem \<Rightarrow> nat \<Rightarrow> nat \<Rightarrow> mem option" where
  "strcpy m dest src =
     (let c = m src; m = m(dest := c) in
      if c \<noteq> 0 then strcpy m (dest + 1) (src + 1) else Some m)"

function strncpy_copy :: "mem \<Rightarrow> nat \<Rightarrow> nat \<Rightarrow> nat \<Rightarrow> nat \<Rightarrow> mem \<times> nat" where
  "strncpy_copy m dest src n i =
     (if i < n \<and> m (src + i) \<noteq> 0
      then strncpy_copy (m(dest + i := m (src + i))) dest src n (i + 1)
      else (m, i))"
  by pat_completeness auto
termination by (relation "measure (\<lambda>(m, dest, src, n, i). n - i)") auto

function zero_fill :: "mem \<Rightarrow> nat \<Rightarrow> nat \<Rightarrow> nat \<Rightarrow> mem" where
  "zero_fill m dest n i = (if i < n then zero_fill (m(dest + i := 0)) dest n (i + 1) else m)"
  by pat_completeness auto
termination by (relation "measure (\<lambda>(m, dest, n, i). n - i)") auto

definition strncpy :: "mem \<Rightarrow> nat \<Rightarrow> nat \<Rightarrow> nat \<Rightarrow> mem" where
  "strncpy m dest src n = (let (m, i) = strncpy_copy m dest src n 0 in zero_fill m dest n i)"

text \<open>
  \<^verbatim>\<open>i + 1 < n\<close> stops one byte short; the rest of the source is only measured.
\<close>

definition strlcpy :: "mem \<Rightarrow> nat \<Rightarrow> nat \<Rightarrow> nat \<Rightarrow> (mem \<times> nat) option" where
  "strlcpy m dest src n =
     (let (m, i) = strncpy_copy m dest src (n - 1) 0;
          m = (if n \<noteq> 0 then m(dest + i := 0) else m)
      in do { len \<leftarrow> strlen_loop m (src + i) i; Some (m, len) })"

partial_function (option) strcat_copy :: "mem \<Rightarrow> nat \<Rightarrow> nat \<Rightarrow> nat \<Rightarrow> (mem \<times> nat) option" where
  "strcat_copy m dest src i =
     (if m (src + i) \<noteq> 0
      then strcat_copy (m(dest + i := m (src + i))) dest src (i + 1)
      else Some (m, i))"

definition strcat :: "mem \<Rightarrow> nat \<Rightarrow> nat \<Rightarrow> mem option" where
  "strcat m dest src =
     do {
       dest_length \<leftarrow> strlen m dest;
       (m, i) \<leftarrow> strcat_copy m (dest + dest_length) src 0;
       Some (m(dest + dest_length + i := 0))
     }"

definition strncat :: "mem \<Rightarrow> nat \<Rightarrow> nat \<Rightarrow> nat \<Rightarrow> mem option" where
  "strncat m dest src n =
     do {
       dest_length \<leftarrow> strlen m dest;
       (let (m, i) = strncpy_copy m (dest + dest_length) src n 0
        in Some (m(dest + dest_length + i := 0)))
     }"

definition strxfrm :: "mem \<Rightarrow> nat \<Rightarrow> nat \<Rightarrow> nat \<Rightarrow> mem \<times> nat" where
  "strxfrm m dest src n =
     (let (m, i) = strncpy_copy m dest src n 0 in (zero_fill m dest n i, max i n))"

subsection \<open>Searches\<close>

partial_function (option) strchr_loop :: "mem \<Rightarrow> nat \<Rightarrow> 8 word \<Rightarrow> nat option option" where
  "strchr_loop m str ch =
     (if m str = ch then Some (Some str)
      else if m str = 0 then Some None
      else strchr_loop m (str + 1) ch)"

definition strchr :: "mem \<Rightarrow> nat \<Rightarrow> int \<Rightarrow> nat option option" where
  "strchr m str c = strchr_loop m str (word_of_int c)"

partial_function (option) strchrnul_loop :: "mem \<Rightarrow> nat \<Rightarrow> 8 word \<Rightarrow> nat option" where
  "strchrnul_loop m str ch =
     (if m str = ch \<or> m str = 0 then Some str else strchrnul_loop m (str + 1) ch)"

definition strchrnul :: "mem \<Rightarrow> nat \<Rightarrow> int \<Rightarrow> nat option" where
  "strchrnul m str c = strchrnul_loop m str (word_of_int c)"

text \<open>Here the \<^verbatim>\<open>char\<close> read, which is signed, is compared with the \<^verbatim>\<open>int\<close> argument.\<close>

partial_function (option) strrchr_loop :: "mem \<Rightarrow> nat \<Rightarrow> int \<Rightarrow> nat option \<Rightarrow> nat option option" where
  "strrchr_loop m str ch found =
     (if m str = 0 then Some found
      else strrchr_loop m (str + 1) ch (if sint (m str) = ch then Some str else found))"

definition strrchr :: "mem \<Rightarrow> nat \<Rightarrow> int \<Rightarrow> nat option option" where
  "strrchr m str ch = strrchr_loop m str ch None"

text \<open>
  The two nested loops of \<^verbatim>\<open>strstr\<close>: find the first character of the needle, then compare the rest.
\<close>

partial_function (option) strstr_loop ::
  "mem \<Rightarrow> nat \<Rightarrow> nat \<Rightarrow> 8 word \<Rightarrow> nat \<Rightarrow> nat option option" where
  "strstr_loop m haystack needle nch len =
     (let hch = m haystack; haystack = haystack + 1 in
      if hch = 0 then Some None
      else if hch \<noteq> nch then strstr_loop m haystack needle nch len
      else if strncmp m haystack needle len \<noteq> 0 then strstr_loop m haystack needle nch len
      else Some (Some (haystack - 1)))"

definition strstr :: "mem \<Rightarrow> nat \<Rightarrow> nat \<Rightarrow> nat option option" where
  "strstr m haystack needle =
     (let nch = m needle; needle = needle + 1 in
      if nch \<noteq> 0
      then do { len \<leftarrow> strlen m needle; strstr_loop m haystack needle nch len }
      else Some (Some haystack))"

text \<open>Is a character among those of a string, the inner loops of \<^verbatim>\<open>strspn\<close> and \<^verbatim>\<open>strcspn\<close>.\<close>

partial_function (option) accepts :: "mem \<Rightarrow> nat \<Rightarrow> 8 word \<Rightarrow> bool option" where
  "accepts m ap ch =
     (let ac = m ap in
      if ac = 0 then Some False else if ac = ch then Some True else accepts m (ap + 1) ch)"

partial_function (option) rejects :: "mem \<Rightarrow> nat \<Rightarrow> 8 word \<Rightarrow> bool option" where
  "rejects m rp c =
     (let rc = m rp in
      if rc = c then Some True else if rc \<noteq> 0 then rejects m (rp + 1) c else Some False)"

partial_function (option) strspn_loop :: "mem \<Rightarrow> nat \<Rightarrow> nat \<Rightarrow> nat \<Rightarrow> nat option" where
  "strspn_loop m s accept p =
     do {
       b \<leftarrow> accepts m accept (m p);
       if b then strspn_loop m s accept (p + 1) else Some (p - s)
     }"

definition strspn :: "mem \<Rightarrow> nat \<Rightarrow> nat \<Rightarrow> nat option" where
  "strspn m s accept = strspn_loop m s accept s"

partial_function (option) strcspn_loop :: "mem \<Rightarrow> nat \<Rightarrow> nat \<Rightarrow> nat \<Rightarrow> nat option" where
  "strcspn_loop m s reject p =
     do {
       b \<leftarrow> rejects m reject (m p);
       if b then Some (p - s) else strcspn_loop m s reject (p + 1)
     }"

definition strcspn :: "mem \<Rightarrow> nat \<Rightarrow> nat \<Rightarrow> nat option" where
  "strcspn m s reject = strcspn_loop m s reject s"

partial_function (option) strpbrk :: "mem \<Rightarrow> nat \<Rightarrow> nat \<Rightarrow> nat option option" where
  "strpbrk m s accept =
     (if m s \<noteq> 0
      then
        do {
          r \<leftarrow> strchr m accept (sint (m s));
          if r \<noteq> None then Some (Some s) else strpbrk m (s + 1) accept
        }
      else Some None)"

subsection \<open>Tokens\<close>

text \<open>
  \<^verbatim>\<open>strtok_r\<close>: the inner loop over the delimiters returns the new start of the token and whether a
  proper delimiter was seen; the outer loop returns the bounds of the token.
\<close>

function strtok_delim ::
  "mem \<Rightarrow> 8 word \<Rightarrow> nat \<Rightarrow> nat \<Rightarrow> nat \<Rightarrow> nat \<Rightarrow> nat \<Rightarrow> bool \<Rightarrow> nat \<times> bool" where
  "strtok_delim m c delim delim_len j token_start token_end is_proper_delim =
     (if j < delim_len
      then if c = m (delim + j)
        then if token_end = token_start then (token_start + 1, is_proper_delim)
          else strtok_delim m c delim delim_len (j + 1) token_start token_end True
        else strtok_delim m c delim delim_len (j + 1) token_start token_end is_proper_delim
      else (token_start, is_proper_delim))"
  by pat_completeness auto
termination by (relation "measure (\<lambda>(m, c, delim, delim_len, j, s, e, p). delim_len - j)") auto

function strtok_scan ::
  "mem \<Rightarrow> nat \<Rightarrow> nat \<Rightarrow> nat \<Rightarrow> nat \<Rightarrow> nat \<Rightarrow> nat \<Rightarrow> nat \<Rightarrow> nat \<times> nat" where
  "strtok_scan m str str_len delim delim_len i token_start token_end =
     (if i < str_len
      then
        (let (token_start, is_proper_delim) =
               strtok_delim m (m (str + i)) delim delim_len 0 token_start token_end False;
             token_end = token_end + 1 in
         if is_proper_delim \<and> 0 < token_end then (token_start, token_end - 1)
         else strtok_scan m str str_len delim delim_len (i + 1) token_start token_end)
      else (token_start, token_end))"
  by pat_completeness auto
termination by (relation "measure (\<lambda>(m, str, str_len, delim, delim_len, i, s, e). str_len - i)") auto

text \<open>
  The arguments are the string (0 for a null pointer) and the saved pointer; the result is the
  memory, the saved pointer and the token.
\<close>

definition strtok_r :: "mem \<Rightarrow> nat \<Rightarrow> nat \<Rightarrow> nat \<Rightarrow> (mem \<times> nat \<times> nat option) option" where
  "strtok_r m str delim saved =
     (let str = (if str = 0 then saved else str) in
      do {
        str_len \<leftarrow> strlen m str;
        delim_len \<leftarrow> strlen m delim;
        (let (token_start, token_end) = strtok_scan m str str_len delim delim_len 0 0 0 in
         if m (str + token_start) = 0 then Some (m, saved, None)
         else if token_end = 0 then Some (m, 0, Some (str + token_start))
         else
           (let saved = (if m (str + token_end) = 0 then str + token_end else str + token_end + 1)
            in Some (m(str + token_end := 0), saved, Some (str + token_start))))
      })"

declare strnlen_loop.simps [simp del] strncpy_copy.simps [simp del] zero_fill.simps [simp del]
  strtok_delim.simps [simp del] strtok_scan.simps [simp del]

section \<open>Blocks of memory\<close>

lemma rep_movsb_apply:
  "dest \<le> src \<or> src + n \<le> dest \<Longrightarrow>
   rep_movsb m dest src n x = (if dest \<le> x \<and> x < dest + n then m (src + (x - dest)) else m x)"
proof (induction n arbitrary: m dest src)
  case (Suc n)
  have "rep_movsb (m(dest := m src)) (dest + 1) (src + 1) n x =
      (if dest + 1 \<le> x \<and> x < dest + 1 + n then (m(dest := m src)) (src + 1 + (x - (dest + 1)))
       else (m(dest := m src)) x)"
    using Suc.prems by (intro Suc.IH) auto
  moreover have "dest < x \<Longrightarrow> src + 1 + (x - (dest + 1)) = src + (x - dest)" by simp
  ultimately show ?case using Suc.prems by auto
qed auto

lemma store32_load32:
  "store32 m dest (load32 m' src) x = (if dest \<le> x \<and> x < dest + 4 then m' (src + (x - dest)) else m x)"
proof -
  have byte: "ucast (drop_bit (8 * k) (load32 m' src)) = m' (src + k)" if "k < 4" for k
  proof (rule bit_word_eqI)
    fix j assume "j < LENGTH(8)"
    then show "bit (ucast (drop_bit (8 * k) (load32 m' src)) :: 8 word) j = bit (m' (src + k)) j"
      using that by (simp add: bit_ucast_iff bit_drop_bit_eq bit_load32)
  qed
  have "x = dest \<or> x = dest + 1 \<or> x = dest + 2 \<or> x = dest + 3" if "dest \<le> x" "x < dest + 4"
    using that by linarith
  then show ?thesis
    using byte [of 0] byte [of 1] byte [of 2] byte [of 3] by (auto simp: store32_def)
qed

lemma rep_movsl_apply:
  "dest + 4 \<le> src \<or> dest = src \<or> src + 4 * n \<le> dest \<Longrightarrow>
   rep_movsl m dest src n x = (if dest \<le> x \<and> x < dest + 4 * n then m (src + (x - dest)) else m x)"
proof (induction n arbitrary: m dest src)
  case (Suc n)
  define m1 where "m1 = store32 m dest (load32 m src)"
  have m1: "m1 y = (if dest \<le> y \<and> y < dest + 4 then m (src + (y - dest)) else m y)" for y
    by (simp add: m1_def store32_load32)
  have "rep_movsl m1 (dest + 4) (src + 4) n x =
      (if dest + 4 \<le> x \<and> x < dest + 4 + 4 * n then m1 (src + 4 + (x - (dest + 4))) else m1 x)"
    using Suc.prems by (intro Suc.IH) auto
  moreover have "dest + 4 \<le> x \<Longrightarrow> src + 4 + (x - (dest + 4)) = src + (x - dest)" by simp
  ultimately show ?case using Suc.prems by (auto simp: m1_def [symmetric] m1)
qed auto

lemma k_memcpy_apply:
  assumes "dest \<le> src \<or> src + n \<le> dest"
  shows "k_memcpy m dest src n = Memory.memcpy m dest src n"
proof (cases "dest mod 4 = 0 \<and> src mod 4 = 0 \<and> 12 \<le> n")
  case False
  with assms show ?thesis by (auto simp: k_memcpy_def fun_eq_iff rep_movsb_apply memcpy_apply)
next
  case True
  then have "dest + 4 \<le> src \<or> dest = src \<or> src + 4 * (n div 4) \<le> dest"
    using assms by presburger
  then have words: "rep_movsl m dest src (n div 4) x =
      (if dest \<le> x \<and> x < dest + 4 * (n div 4) then m (src + (x - dest)) else m x)" for x
    by (rule rep_movsl_apply)
  define k where "k = 4 * (n div 4)"
  have k: "k \<le> n" "n div 4 * 4 = k" by (simp_all add: k_def)
  have "rep_movsb (rep_movsl m dest src (n div 4)) (dest + k) (src + k) (n - k) x = Memory.memcpy m dest src n x" for x
  proof -
    have "rep_movsb (rep_movsl m dest src (n div 4)) (dest + k) (src + k) (n - k) x =
        (if dest + k \<le> x \<and> x < dest + k + (n - k)
         then rep_movsl m dest src (n div 4) (src + k + (x - (dest + k)))
         else rep_movsl m dest src (n div 4) x)"
      using assms k by (intro rep_movsb_apply) auto
    moreover have "dest + k \<le> x \<Longrightarrow> src + k + (x - (dest + k)) = src + (x - dest)" by simp
    ultimately show ?thesis
      using assms k(1) unfolding words k_def [symmetric] memcpy_apply by auto
  qed
  then show ?thesis
    using True by (auto simp: k_memcpy_def k_def [symmetric] k fun_eq_iff Let_def)
qed

lemma copy_backwards_apply:
  "src \<le> dest \<Longrightarrow>
   copy_backwards m dest src n x = (if dest \<le> x \<and> x < dest + n then m (src + (x - dest)) else m x)"
proof (induction n arbitrary: m)
  case (Suc n)
  then show ?case by (cases "x = dest + n") auto
qed auto

lemma rep_stosb_apply: "rep_stosb m dest c n = Memory.memset m dest c n"
  by (induction n arbitrary: m dest) (auto simp: fun_eq_iff memset_apply)

lemma explode_byte_load: "explode_byte b = load32 (\<lambda>_. b) 0"
  by (simp add: explode_byte_def load32_def ac_simps)

lemma rep_stosl_apply: "rep_stosl m dest (explode_byte b) n = Memory.memset m dest b (4 * n)"
proof (induction n arbitrary: m dest)
  case (Suc n)
  have "store32 m dest (explode_byte b) = Memory.memset m dest b 4"
    by (auto simp: explode_byte_load store32_load32 memset_apply fun_eq_iff)
  with Suc show ?case by (auto simp: fun_eq_iff memset_apply)
qed simp

lemma k_memset_apply: "k_memset m dest c n = Memory.memset m dest (word_of_int c) n"
proof -
  have "n div 4 * 4 \<le> n" "4 * (n div 4) = n div 4 * 4" by simp_all
  then show ?thesis
    by (auto simp: k_memset_def rep_stosb_apply rep_stosl_apply Let_def fun_eq_iff memset_apply)
qed

section \<open>Strings\<close>

text \<open>The bytes before the terminating zero.\<close>

fun cstring :: "mem \<Rightarrow> nat \<Rightarrow> 8 word list \<Rightarrow> bool" where
  "cstring m s [] \<longleftrightarrow> m s = 0"
| "cstring m s (x # xs) \<longleftrightarrow> m s = x \<and> x \<noteq> 0 \<and> cstring m (s + 1) xs"

fun store_bytes :: "mem \<Rightarrow> nat \<Rightarrow> 8 word list \<Rightarrow> mem" where
  "store_bytes m a [] = m"
| "store_bytes m a (x # xs) = store_bytes (m(a := x)) (a + 1) xs"

definition apart :: "nat \<Rightarrow> nat \<Rightarrow> nat \<Rightarrow> nat \<Rightarrow> bool" where
  "apart a la b lb \<longleftrightarrow> a + la \<le> b \<or> b + lb \<le> a"

lemma cstring_frame:
  "cstring m s xs \<Longrightarrow> (\<And>x. s \<le> x \<Longrightarrow> x \<le> s + length xs \<Longrightarrow> m' x = m x) \<Longrightarrow> cstring m' s xs"
  by (induction xs arbitrary: s) auto

lemma cstring_nth:
  "cstring m s xs \<Longrightarrow> i \<le> length xs \<Longrightarrow> m (s + i) = (if i < length xs then xs ! i else 0)"
proof (induction xs arbitrary: s i)
  case (Cons x xs)
  from Cons.IH [of "s + 1" "i - 1"] Cons.prems show ?case by (cases i) auto
qed simp

lemma cstring_drop: "cstring m s xs \<Longrightarrow> i \<le> length xs \<Longrightarrow> cstring m (s + i) (drop i xs)"
proof (induction xs arbitrary: s i)
  case (Cons x xs)
  from Cons.IH [of "s + 1" "i - 1"] Cons.prems show ?case by (cases i) auto
qed simp

lemma cstring_truncate: "cstring m s (xs @ ys) \<Longrightarrow> cstring (m(s + length xs := 0)) s xs"
proof (induction xs arbitrary: s)
  case (Cons x xs)
  from Cons.IH [of "s + 1"] Cons.prems show ?case by simp
qed simp

lemma cstring_nonzero: "cstring m s xs \<Longrightarrow> 0 \<notin> set xs"
  by (induction xs arbitrary: s) auto

lemma store_bytes_other: "x < a \<or> a + length xs \<le> x \<Longrightarrow> store_bytes m a xs x = m x"
  by (induction xs arbitrary: m a) auto

lemma store_bytes_cstring: "0 \<notin> set xs \<Longrightarrow> cstring (store_bytes m a (xs @ [0])) a xs"
proof (induction xs arbitrary: m a)
  case (Cons x xs)
  then show ?case by (simp add: store_bytes_other)
qed simp

lemma strlen_loop_cstring: "cstring m s xs \<Longrightarrow> strlen_loop m s len = Some (len + length xs)"
  by (induction xs arbitrary: s len) (auto simp: strlen_loop.simps)

lemma strlen_cstring: "cstring m s xs \<Longrightarrow> strlen m s = Some (length xs)"
  by (simp add: strlen_def strlen_loop_cstring)

lemma strnlen_loop_cstring:
  "cstring m s xs \<Longrightarrow> strnlen_loop m s n len = (if len < n then min n (len + length xs) else len)"
proof (induction xs arbitrary: s len)
  case (Cons x xs)
  from Cons.IH [of "s + 1" "len + 1"] Cons.prems show ?case
    by (auto simp: strnlen_loop.simps [of m s])
qed (simp add: strnlen_loop.simps)

subsection \<open>Comparisons\<close>

abbreviation (input) byte_less :: "8 word list \<Rightarrow> 8 word list \<Rightarrow> bool" where
  "byte_less xs ys \<equiv> (xs, ys) \<in> lexord {(a, b). a < b}"

definition compare_bytes :: "8 word list \<Rightarrow> 8 word list \<Rightarrow> int" where
  "compare_bytes xs ys = (if xs = ys then 0 else if byte_less xs ys then -1 else 1)"

lemma compare_bytes_simps [simp]:
  "compare_bytes [] [] = 0"
  "compare_bytes [] (y # ys) = -1"
  "compare_bytes (x # xs) [] = 1"
  "compare_bytes (x # xs) (y # ys) =
     (if x = y then compare_bytes xs ys else if x < y then -1 else 1)"
  by (simp_all add: compare_bytes_def)

lemma strcmp_cstring:
  "cstring m s xs \<Longrightarrow> cstring m t ys \<Longrightarrow> strcmp m s t = Some (compare_bytes xs ys)"
proof (induction xs arbitrary: s t ys)
  case Nil
  then show ?case by (cases ys) (auto simp: strcmp.simps [of m s t] word_gt_0)
next
  case (Cons x xs)
  then show ?case by (cases ys) (auto simp: strcmp.simps [of m s t])
qed

lemma uint_diff_sgn: "x \<noteq> y \<Longrightarrow> sgn (uint x - uint y) = (if x < y then -1 else 1)" for x y :: "8 word"
  by (auto simp: word_less_def sgn_if word_uint_eq_iff)

lemma libc_strcmp_cstring:
  "cstring m s xs \<Longrightarrow> cstring m t ys \<Longrightarrow>
   \<exists>d. libc_strcmp m s t = Some d \<and> sgn d = compare_bytes xs ys"
proof (induction xs arbitrary: s t ys)
  case Nil
  then show ?case
    by (cases ys) (auto simp: libc_strcmp.simps [of m s t] uint_diff_sgn word_gt_0)
next
  case (Cons x xs)
  then show ?case
    by (cases ys) (auto simp: libc_strcmp.simps [of m s t] uint_diff_sgn word_gt_0)
qed

lemma strncmp_cstring:
  "cstring m s xs \<Longrightarrow> cstring m t ys \<Longrightarrow>
   sgn (strncmp m s t n) = compare_bytes (take n xs) (take n ys)"
proof (induction n arbitrary: s t xs ys)
  case (Suc n)
  then show ?case
    by (cases xs; cases ys) (auto simp: uint_diff_sgn word_gt_0)
qed simp

subsection \<open>Copies\<close>

lemma apart_step: "apart (a + 1) la (b + 1) lb" if "apart a (Suc la) b (Suc lb)"
  using that by (auto simp: apart_def)

lemma cstring_upd:
  "cstring m s xs \<Longrightarrow> apart s (Suc (length xs)) d 1 \<Longrightarrow> cstring (m(d := b)) s xs"
  by (rule cstring_frame [of m]) (auto simp: apart_def)

lemma strcpy_cstring:
  "cstring m src xs \<Longrightarrow> apart src (Suc (length xs)) dest (Suc (length xs)) \<Longrightarrow>
   strcpy m dest src = Some (store_bytes m dest (xs @ [0]))"
proof (induction xs arbitrary: m dest src)
  case (Cons x xs)
  have "apart (src + 1) (Suc (length xs)) dest 1" using Cons.prems(2) by (auto simp: apart_def)
  then have "cstring (m(dest := x)) (src + 1) xs" using Cons.prems(1) by (intro cstring_upd) simp_all
  moreover have "apart (src + 1) (Suc (length xs)) (dest + 1) (Suc (length xs))"
    using Cons.prems(2) by (auto simp: apart_def)
  ultimately have "strcpy (m(dest := x)) (dest + 1) (src + 1) = Some (store_bytes (m(dest := x)) (dest + 1) (xs @ [0]))"
    by (rule Cons.IH)
  with Cons.prems(1) show ?case by (simp add: strcpy.simps [of m dest src] Let_def)
qed (simp add: strcpy.simps [of _ dest src for dest src])

lemma strncpy_copy_cstring:
  "cstring m (src + i) xs \<Longrightarrow> apart (src + i) (Suc (length xs)) (dest + i) (n - i) \<Longrightarrow>
   strncpy_copy m dest src n i = (store_bytes m (dest + i) (take (n - i) xs), i + min (n - i) (length xs))"
proof (induction xs arbitrary: m i)
  case Nil
  then show ?case by (simp add: strncpy_copy.simps [of m dest src n i])
next
  case (Cons x xs)
  show ?case
  proof (cases "i < n")
    case False
    then show ?thesis by (simp add: strncpy_copy.simps [of m dest src n i])
  next
    case True
    define m1 where "m1 = m(dest + i := x)"
    have "apart (src + (i + 1)) (Suc (length xs)) (dest + i) 1"
      using Cons.prems(2) True by (auto simp: apart_def)
    then have "cstring m1 (src + (i + 1)) xs"
      unfolding m1_def using Cons.prems(1) by (intro cstring_upd) simp_all
    moreover have "apart (src + (i + 1)) (Suc (length xs)) (dest + (i + 1)) (n - (i + 1))"
      using Cons.prems(2) True by (auto simp: apart_def)
    ultimately have "strncpy_copy m1 dest src n (i + 1) =
        (store_bytes m1 (dest + (i + 1)) (take (n - (i + 1)) xs), i + 1 + min (n - (i + 1)) (length xs))"
      by (rule Cons.IH)
    moreover obtain j where "n - i = Suc j" using True by (cases "n - i") auto
    then have "n - (i + 1) = j" by simp
    ultimately show ?thesis
      using True Cons.prems(1) \<open>n - i = Suc j\<close>
      by (simp add: strncpy_copy.simps [of m dest src n i] m1_def [symmetric])
  qed
qed

lemma zero_fill_bytes: "zero_fill m dest n i = store_bytes m (dest + i) (replicate (n - i) 0)"
proof (induction "n - i" arbitrary: m i)
  case (Suc k)
  then have "n - (i + 1) = k" "i < n" by auto
  with Suc.hyps(1) [of "i + 1" "m(dest + i := 0)"] Suc.hyps(2) show ?case
    by (simp add: zero_fill.simps [of m dest n i] flip: Suc.hyps(2))
qed (simp add: zero_fill.simps)

lemma store_bytes_append: "store_bytes m a (xs @ ys) = store_bytes (store_bytes m a xs) (a + length xs) ys"
  by (induction xs arbitrary: m a) simp_all

lemma strncpy_cstring:
  assumes "cstring m src xs" and "apart src (Suc (length xs)) dest n"
  shows "strncpy m dest src n = store_bytes m dest (take n xs @ replicate (n - length xs) 0)"
  using strncpy_copy_cstring [of m src 0 xs dest n] assms
  by (simp add: strncpy_def zero_fill_bytes store_bytes_append min_def)

lemma strlcpy_cstring:
  assumes "cstring m src xs" and "apart src (Suc (length xs)) dest n"
  shows "strlcpy m dest src n =
    Some (if n = 0 then m else store_bytes m dest (take (n - 1) xs @ [0]), length xs)"
proof -
  let ?k = "min (n - 1) (length xs)"
  have ap: "apart src (Suc (length xs)) dest (n - 1)" using assms(2) by (auto simp: apart_def)
  define m1 where "m1 = store_bytes m dest (take (n - 1) xs)"
  define m2 where "m2 = (if n \<noteq> 0 then m1(dest + ?k := 0) else m1)"
  have copy: "strncpy_copy m dest src (n - 1) 0 = (m1, ?k)"
    using strncpy_copy_cstring [of m src 0 xs dest "n - 1"] assms(1) ap by (simp add: m1_def)
  have m2: "m2 = (if n = 0 then m else store_bytes m dest (take (n - 1) xs @ [0]))"
    by (simp add: m2_def m1_def store_bytes_append min.commute)
  have "cstring m2 src xs"
  proof (rule cstring_frame [OF assms(1)])
    fix x assume "src \<le> x" "x \<le> src + length xs"
    with assms(2) show "m2 x = m x" unfolding m2 by (auto simp: apart_def intro: store_bytes_other)
  qed
  then have "cstring m2 (src + ?k) (drop ?k xs)" by (rule cstring_drop) simp
  then have "strlen_loop m2 (src + ?k) ?k = Some (?k + (length xs - ?k))"
    by (simp add: strlen_loop_cstring)
  moreover have "strlcpy m dest src n = do { len \<leftarrow> strlen_loop m2 (src + ?k) ?k; Some (m2, len) }"
    by (simp only: strlcpy_def copy m2_def Let_def prod.case)
  ultimately show ?thesis by (simp flip: m2)
qed

lemma strcat_copy_cstring:
  "cstring m (src + i) xs \<Longrightarrow> apart (src + i) (Suc (length xs)) (dest + i) (length xs) \<Longrightarrow>
   strcat_copy m dest src i = Some (store_bytes m (dest + i) xs, i + length xs)"
proof (induction xs arbitrary: m i)
  case (Cons x xs)
  define m1 where "m1 = m(dest + i := x)"
  have "apart (src + (i + 1)) (Suc (length xs)) (dest + i) 1"
    using Cons.prems(2) by (auto simp: apart_def)
  then have "cstring m1 (src + (i + 1)) xs"
    unfolding m1_def using Cons.prems(1) by (intro cstring_upd) simp_all
  moreover have "apart (src + (i + 1)) (Suc (length xs)) (dest + (i + 1)) (length xs)"
    using Cons.prems(2) by (auto simp: apart_def)
  ultimately have "strcat_copy m1 dest src (i + 1) = Some (store_bytes m1 (dest + (i + 1)) xs, i + 1 + length xs)"
    by (rule Cons.IH)
  with Cons.prems(1) show ?case
    by (simp add: strcat_copy.simps [of m dest src i] m1_def [symmetric])
qed (simp add: strcat_copy.simps)

lemma strcat_cstring:
  assumes "cstring m src xs" and "cstring m dest ys"
    and "apart src (Suc (length xs)) dest (length ys + length xs + 1)"
  shows "strcat m dest src = Some (store_bytes m (dest + length ys) (xs @ [0]))"
proof -
  have "apart src (Suc (length xs)) (dest + length ys) (length xs)" using assms(3) by (auto simp: apart_def)
  then show ?thesis
    using strcat_copy_cstring [of m src 0 xs "dest + length ys"] assms
    by (simp add: strcat_def strlen_cstring store_bytes_append)
qed

lemma strncat_cstring:
  assumes "cstring m src xs" and "cstring m dest ys"
    and "apart src (Suc (length xs)) dest (length ys + n + 1)"
  shows "strncat m dest src n = Some (store_bytes m (dest + length ys) (take n xs @ [0]))"
proof -
  have "apart src (Suc (length xs)) (dest + length ys) n" using assms(3) by (auto simp: apart_def)
  then show ?thesis
    using strncpy_copy_cstring [of m src 0 xs "dest + length ys" n] assms
    by (simp add: strncat_def strlen_cstring store_bytes_append min.commute)
qed

subsection \<open>Searches\<close>

lemma strncmp_prefix:
  "cstring m s1 xs \<Longrightarrow> cstring m s2 ys \<Longrightarrow> strncmp m s1 s2 (length ys) = 0 \<longleftrightarrow> prefix ys xs"
proof (induction ys arbitrary: s1 s2 xs)
  case (Cons y ys)
  then show ?case by (cases xs) (auto simp: uint_0_iff simp flip: word_eq_iff_unsigned)
qed simp

lemma memchr_loop_first:
  "memchr_loop m ptr ch i n =
     (if \<exists>j<n. m (ptr + i + j) = ch then Some (ptr + i + (LEAST j. m (ptr + i + j) = ch)) else None)"
proof (induction n arbitrary: i)
  case (Suc n)
  show ?case
  proof (cases "m (ptr + i) = ch")
    case True
    then have "(LEAST j. m (ptr + i + j) = ch) = 0" by (intro Least_eq_0) simp
    with True show ?thesis by auto
  next
    case False
    have shift: "(\<exists>j<Suc n. m (ptr + i + j) = ch) \<longleftrightarrow> (\<exists>j<n. m (ptr + (i + 1) + j) = ch)"
      using False less_Suc_eq_0_disj by auto
    have "(LEAST j. m (ptr + i + j) = ch) = Suc (LEAST j. m (ptr + i + Suc j) = ch)"
      if "\<exists>j<n. m (ptr + (i + 1) + j) = ch"
    proof -
      from that obtain j where "m (ptr + i + Suc j) = ch" by auto
      with False show ?thesis by (intro Least_Suc [of _ "Suc j"]) auto
    qed
    with Suc.IH [of "i + 1"] False shift show ?thesis by simp
  qed
qed simp

lemma strchr_loop_cstring:
  "cstring m s xs \<Longrightarrow> ch \<noteq> 0 \<Longrightarrow>
   strchr_loop m s ch = Some (if ch \<in> set xs then Some (s + length (takeWhile (\<lambda>x. x \<noteq> ch) xs)) else None)"
  by (induction xs arbitrary: s) (auto simp: strchr_loop.simps)

lemma strchr_loop_zero: "cstring m s xs \<Longrightarrow> strchr_loop m s 0 = Some (Some (s + length xs))"
  by (induction xs arbitrary: s) (auto simp: strchr_loop.simps)

lemma strchrnul_loop_cstring:
  "cstring m s xs \<Longrightarrow> strchrnul_loop m s ch = Some (s + length (takeWhile (\<lambda>x. x \<noteq> ch) xs))"
  by (induction xs arbitrary: s) (auto simp: strchrnul_loop.simps)

lemma strrchr_loop_cstring:
  "cstring m s xs \<Longrightarrow>
   strrchr_loop m s ch found =
     Some (if \<exists>x\<in>set xs. sint x = ch
           then Some (s + (length xs - Suc (length (takeWhile (\<lambda>x. sint x \<noteq> ch) (rev xs))))) else found)"
proof (induction xs arbitrary: s found)
  case (Cons x xs)
  let ?P = "\<lambda>x. sint x \<noteq> ch"
  have step: "strrchr_loop m s ch found = strrchr_loop m (s + 1) ch (if sint x = ch then Some s else found)"
    using Cons.prems by (simp add: strrchr_loop.simps [of m s])
  show ?case
  proof (cases "\<exists>x\<in>set xs. sint x = ch")
    case True
    then obtain y where y: "y \<in> set (rev xs)" "\<not> ?P y" by auto
    then have "takeWhile ?P (rev xs @ [x]) = takeWhile ?P (rev xs)"
      by (rule takeWhile_append1)
    moreover have "length (takeWhile ?P (rev xs)) < length xs"
      using y by (induction xs rule: rev_induct) auto
    ultimately show ?thesis using True Cons by (simp add: step)
  next
    case False
    then have "takeWhile ?P (rev xs @ [x]) = rev xs @ takeWhile ?P [x]"
      by (intro takeWhile_append2) auto
    with False Cons show ?thesis by (auto simp: step)
  qed
qed (simp add: strrchr_loop.simps)

lemma accepts_cstring: "cstring m ap ys \<Longrightarrow> accepts m ap ch = Some (ch \<in> set ys)"
  by (induction ys arbitrary: ap) (auto simp: accepts.simps Let_def)

lemma rejects_cstring: "cstring m rp ys \<Longrightarrow> rejects m rp c = Some (c \<in> set ys \<or> c = 0)"
  by (induction ys arbitrary: rp) (auto simp: rejects.simps Let_def)

lemma strspn_cstring:
  assumes "cstring m s xs" and ys: "cstring m accept ys"
  shows "strspn m s accept = Some (length (takeWhile (\<lambda>x. x \<in> set ys) xs))"
proof -
  have "cstring m p xs \<Longrightarrow> s \<le> p \<Longrightarrow>
      strspn_loop m s accept p = Some (p - s + length (takeWhile (\<lambda>x. x \<in> set ys) xs))" for p
  proof (induction xs arbitrary: p)
    case Nil
    then show ?case using cstring_nonzero [OF ys]
      by (simp add: strspn_loop.simps [of m s accept p] accepts_cstring [OF ys])
  next
    case (Cons x xs)
    then show ?case using Cons.IH [of "p + 1"]
      by (simp add: strspn_loop.simps [of m s accept p] accepts_cstring [OF ys] Suc_diff_le)
  qed
  from this [of s] assms show ?thesis by (simp add: strspn_def)
qed

lemma strcspn_cstring:
  assumes "cstring m s xs" and ys: "cstring m reject ys"
  shows "strcspn m s reject = Some (length (takeWhile (\<lambda>x. x \<notin> set ys) xs))"
proof -
  have "cstring m p xs \<Longrightarrow> s \<le> p \<Longrightarrow>
      strcspn_loop m s reject p = Some (p - s + length (takeWhile (\<lambda>x. x \<notin> set ys) xs))" for p
  proof (induction xs arbitrary: p)
    case Nil
    then show ?case by (simp add: strcspn_loop.simps [of m s reject p] rejects_cstring [OF ys])
  next
    case (Cons x xs)
    then show ?case using Cons.IH [of "p + 1"]
      by (auto simp: strcspn_loop.simps [of m s reject p] rejects_cstring [OF ys] Suc_diff_le)
  qed
  from this [of s] assms show ?thesis by (simp add: strcspn_def)
qed

lemma strpbrk_cstring:
  assumes "cstring m s xs" and ys: "cstring m accept ys"
  shows "strpbrk m s accept =
    Some (if \<exists>x\<in>set xs. x \<in> set ys then Some (s + length (takeWhile (\<lambda>x. x \<notin> set ys) xs)) else None)"
  using assms(1)
proof (induction xs arbitrary: s)
  case Nil
  then show ?case by (simp add: strpbrk.simps)
next
  case (Cons x xs)
  then have "strchr m accept (sint x) =
      Some (if x \<in> set ys then Some (accept + length (takeWhile (\<lambda>y. y \<noteq> x) ys)) else None)"
    using strchr_loop_cstring [OF ys, of x] by (simp add: strchr_def)
  with Cons show ?case by (simp add: strpbrk.simps [of m s])
qed

lemma strstr_loop_cstring:
  assumes "cstring m h xs" and ys: "cstring m needle ys" and nch: "nch \<noteq> 0"
  shows "strstr_loop m h needle nch (length ys) =
    Some (if \<exists>i. prefix (nch # ys) (drop i xs)
          then Some (h + (LEAST i. prefix (nch # ys) (drop i xs))) else None)"
  using assms(1)
proof (induction xs arbitrary: h)
  case Nil
  then show ?case by (simp add: strstr_loop.simps)
next
  case (Cons x xs)
  let ?P = "\<lambda>i. prefix (nch # ys) (drop i (x # xs))"
  have cs: "cstring m (h + 1) xs" "m h = x" "x \<noteq> 0" using Cons.prems by auto
  have cmp: "strncmp m (h + 1) needle (length ys) = 0 \<longleftrightarrow> prefix ys xs"
    using strncmp_prefix [OF cs(1) ys] .
  have step: "strstr_loop m h needle nch (length ys) =
      (if ?P 0 then Some (Some h) else strstr_loop m (h + 1) needle nch (length ys))"
    using cs cmp by (auto simp: strstr_loop.simps [of m h] Let_def)
  show ?case
  proof (cases "?P 0")
    case True
    then have "(LEAST i. ?P i) = 0" by (intro Least_eq_0)
    moreover have "\<exists>i. ?P i" using True by blast
    ultimately show ?thesis using True unfolding step by simp
  next
    case False
    then have ex: "(\<exists>i. ?P i) \<longleftrightarrow> (\<exists>i. prefix (nch # ys) (drop i xs))"
      by (metis drop_Suc_Cons not0_implies_Suc)
    have "(LEAST i. ?P i) = Suc (LEAST i. ?P (Suc i))" if "\<exists>i. ?P i"
      using that Least_Suc [where P = ?P] False by blast
    moreover have "strstr_loop m h needle nch (length ys) = strstr_loop m (h + 1) needle nch (length ys)"
      using False step by presburger
    ultimately show ?thesis using Cons.IH [OF cs(1)] ex by simp
  qed
qed

lemma strstr_cstring:
  assumes "cstring m h xs" and "cstring m needle ys"
  shows "strstr m h needle =
    Some (if \<exists>i. prefix ys (drop i xs) then Some (h + (LEAST i. prefix ys (drop i xs))) else None)"
proof (cases ys)
  case Nil
  then have "(LEAST i. prefix ys (drop i xs)) = 0" by (intro Least_eq_0) simp
  with Nil assms show ?thesis by (simp add: strstr_def Let_def)
next
  case (Cons y ys')
  with assms have "cstring m (needle + 1) ys'" "m needle = y" "y \<noteq> 0" by auto
  with assms(1) Cons show ?thesis
    by (simp add: strstr_def Let_def strlen_cstring strstr_loop_cstring)
qed

subsection \<open>Tokens\<close>

lemma strtok_delim_skip:
  "strtok_delim m c delim n j ts ts False =
     (if \<exists>i<n. j \<le> i \<and> m (delim + i) = c then ts + 1 else ts, False)"
proof (induction "n - j" arbitrary: j)
  case 0
  then show ?case by (auto simp: strtok_delim.simps [of m c delim n j])
next
  case (Suc k)
  then have IH: "strtok_delim m c delim n (j + 1) ts ts False =
      (if \<exists>i<n. j + 1 \<le> i \<and> m (delim + i) = c then ts + 1 else ts, False)" and "j < n"
    by simp_all
  moreover have "(\<exists>i<n. j \<le> i \<and> m (delim + i) = c) \<longleftrightarrow>
      c = m (delim + j) \<or> (\<exists>i<n. j + 1 \<le> i \<and> m (delim + i) = c)"
    using \<open>j < n\<close> by (metis Suc_eq_plus1 Suc_le_eq le_eq_less_or_eq)
  ultimately show ?case by (simp add: strtok_delim.simps [of m c delim n j])
qed

lemma strtok_delim_end:
  "te \<noteq> ts \<Longrightarrow> strtok_delim m c delim n j ts te p =
     (ts, p \<or> (\<exists>i<n. j \<le> i \<and> m (delim + i) = c))"
proof (induction "n - j" arbitrary: j p)
  case 0
  then show ?case by (auto simp: strtok_delim.simps [of m c delim n j])
next
  case (Suc k)
  then have IH: "strtok_delim m c delim n (j + 1) ts te q =
      (ts, q \<or> (\<exists>i<n. j + 1 \<le> i \<and> m (delim + i) = c))" and "j < n" for q
    by simp_all
  moreover have "(\<exists>i<n. j \<le> i \<and> m (delim + i) = c) \<longleftrightarrow>
      c = m (delim + j) \<or> (\<exists>i<n. j + 1 \<le> i \<and> m (delim + i) = c)"
    using \<open>j < n\<close> by (metis Suc_eq_plus1 Suc_le_eq le_eq_less_or_eq)
  ultimately show ?case using Suc.prems by (auto simp: strtok_delim.simps [of m c delim n j])
qed

lemma cstring_mem_iff: "cstring m s ys \<Longrightarrow> (\<exists>i<length ys. m (s + i) = c) \<longleftrightarrow> c \<in> set ys"
  using cstring_nth [of m s ys] by (auto simp: in_set_conv_nth)

text \<open>While no byte of the token has been read, the two bounds advance together.\<close>

lemma strtok_scan_token:
  assumes ds: "cstring m delim ds"
  shows "cstring m (str + i) xs \<Longrightarrow> n = i + length xs \<Longrightarrow> ts < i \<Longrightarrow>
    strtok_scan m str n delim (length ds) i ts i = (ts, i + length (takeWhile (\<lambda>x. x \<notin> set ds) xs))"
proof (induction xs arbitrary: i)
  case Nil
  then show ?case by (simp add: strtok_scan.simps [of m str i _ _ i])
next
  case (Cons x xs)
  then have "m (str + i) = x" "cstring m (str + (i + 1)) xs" by simp_all
  with Cons show ?case
    by (simp add: strtok_scan.simps [of m str _ _ _ i] strtok_delim_end cstring_mem_iff [OF ds] Let_def)
qed

lemma strtok_scan_cstring:
  assumes ds: "cstring m delim ds"
  shows "cstring m (str + i) xs \<Longrightarrow> n = i + length xs \<Longrightarrow>
    strtok_scan m str n delim (length ds) i i i =
      (let skipped = length (takeWhile (\<lambda>x. x \<in> set ds) xs) in
       (i + skipped, i + skipped + length (takeWhile (\<lambda>x. x \<notin> set ds) (drop skipped xs))))"
proof (induction xs arbitrary: i)
  case Nil
  then show ?case by (simp add: strtok_scan.simps [of m str i _ _ i])
next
  case (Cons x xs)
  then have x: "m (str + i) = x" and xs: "cstring m (str + (i + 1)) xs" by simp_all
  show ?case
  proof (cases "x \<in> set ds")
    case True
    with Cons x xs show ?thesis
      by (simp add: strtok_scan.simps [of m str _ _ _ i] strtok_delim_skip cstring_mem_iff [OF ds] Let_def)
  next
    case False
    with Cons x xs strtok_scan_token [OF ds, of str "i + 1" xs n i] show ?thesis
      by (simp add: strtok_scan.simps [of m str _ _ _ i] strtok_delim_skip cstring_mem_iff [OF ds] Let_def)
  qed
qed

lemma strtok_r_cstring:
  assumes xs: "cstring m str xs" and ds: "cstring m delim ds" and "str \<noteq> 0"
    and "skipped = length (takeWhile (\<lambda>x. x \<in> set ds) xs)"
    and "token = takeWhile (\<lambda>x. x \<notin> set ds) (drop skipped xs)"
  shows "strtok_r m str delim saved =
    Some (if token = [] then (m, saved, None)
          else (m(str + skipped + length token := 0),
                str + skipped + length token + (if skipped + length token = length xs then 0 else 1),
                Some (str + skipped)))"
proof -
  have scan: "strtok_scan m str (length xs) delim (length ds) 0 0 0 = (skipped, skipped + length token)"
    using strtok_scan_cstring [OF ds, of str 0 xs "length xs"] xs assms(4,5) by (simp add: Let_def)
  have rest: "drop skipped xs = dropWhile (\<lambda>x. x \<in> set ds) xs"
    by (simp add: assms(4) dropWhile_eq_drop)
  have "skipped \<le> length xs" using assms(4) by (simp add: length_takeWhile_le)
  moreover have "skipped + length token \<le> length xs"
    using assms(5) length_takeWhile_le [of "\<lambda>x. x \<notin> set ds" "drop skipped xs"] calculation by simp
  moreover have "token = [] \<longleftrightarrow> skipped = length xs"
  proof -
    have "token = [] \<longleftrightarrow> drop skipped xs = []"
      using dropWhile_eq_Cons_conv [of "\<lambda>x. x \<in> set ds" xs] assms(5) unfolding rest
      by (cases "dropWhile (\<lambda>x. x \<in> set ds) xs") auto
    then show ?thesis using calculation by auto
  qed
  moreover have "m (str + i) = 0 \<longleftrightarrow> i = length xs" if "i \<le> length xs" for i
    using cstring_nth [OF xs that] cstring_nonzero [OF xs] that by (force dest: nth_mem split: if_splits)
  ultimately show ?thesis
    using xs ds \<open>str \<noteq> 0\<close> by (auto simp: strtok_r_def strlen_cstring scan Let_def add.assoc)
qed

section \<open>Properties\<close>

text \<open>
  C34.  \<^verbatim>\<open>memmove\<close> stores in every byte of the destination what the corresponding source byte was before
  the call, whatever the overlap and the alignment, and changes nothing else; \<^verbatim>\<open>memset\<close> stores its
  character in every byte of the block, although both work four bytes at a time.
\<close>

theorem memmove_memset_exact:
  "memmove m dest src n x = (if dest \<le> x \<and> x < dest + n then m (src + (x - dest)) else m x) \<and>
   k_memset m dest c n x = (if dest \<le> x \<and> x < dest + n then word_of_int c else m x)"
  by (auto simp: memmove_def k_memcpy_apply copy_backwards_apply k_memset_apply memset_apply memcpy_apply)

text \<open>
  C35.  The comparisons return on every pair of strings, and the sign of each result is the
  lexicographic comparison of the bytes taken as unsigned, of the first \<open>n\<close> of them for
  \<^verbatim>\<open>strncmp\<close>.
\<close>

theorem comparisons_lexicographic:
  assumes "cstring m s xs" and "cstring m t ys"
  shows "strcmp m s t = Some (compare_bytes xs ys) \<and>
    (\<exists>d. libc_strcmp m s t = Some d \<and> sgn d = compare_bytes xs ys) \<and>
    sgn (strncmp m s t n) = compare_bytes (take n xs) (take n ys)"
  using assms by (simp add: strcmp_cstring libc_strcmp_cstring strncmp_cstring)

theorem comparisons_lexicographic_witness:
  "strcmp (store_bytes (\<lambda>_. 0) 8 [97, 98, 0, 97, 200]) 8 11 = Some (compare_bytes [97, 98] [97, 200]) \<and>
   (\<exists>d. libc_strcmp (store_bytes (\<lambda>_. 0) 8 [97, 98, 0, 97, 200]) 8 11 = Some d \<and>
      sgn d = compare_bytes [97, 98] [97, 200]) \<and>
   sgn (strncmp (store_bytes (\<lambda>_. 0) 8 [97, 98, 0, 97, 200]) 8 11 1) =
     compare_bytes (take 1 [97, 98]) (take 1 [97, 200])"
  by (rule comparisons_lexicographic) simp_all

text \<open>
  C36.  \<^verbatim>\<open>strlcpy\<close> into a buffer of \<open>n\<close> bytes that is apart from the source leaves there the longest
  prefix of the source that fits with its terminating zero, writes at no address outside the buffer,
  and returns the length of the source.
\<close>

theorem strlcpy_bounded:
  assumes "cstring m src xs" and "apart src (Suc (length xs)) dest n" and "0 < n"
  shows "\<exists>m'. strlcpy m dest src n = Some (m', length xs) \<and> cstring m' dest (take (n - 1) xs) \<and>
    (\<forall>x. x < dest \<or> dest + n \<le> x \<longrightarrow> m' x = m x)"
proof -
  let ?m' = "store_bytes m dest (take (n - 1) xs @ [0])"
  have "0 \<notin> set (take (n - 1) xs)"
    using cstring_nonzero [OF assms(1)] in_set_takeD by fastforce
  then have "cstring ?m' dest (take (n - 1) xs)" by (rule store_bytes_cstring)
  moreover have "strlcpy m dest src n = Some (?m', length xs)"
    using strlcpy_cstring [OF assms(1,2)] assms(3) by simp
  ultimately show ?thesis using assms(3) by (auto simp: store_bytes_other)
qed

theorem strlcpy_bounded_witness:
  "\<exists>m'. strlcpy (store_bytes (\<lambda>_. 0) 8 [97, 98, 99]) 20 8 3 = Some (m', length [97 :: 8 word, 98, 99]) \<and>
     cstring m' 20 (take (3 - 1) [97, 98, 99]) \<and>
     (\<forall>x. x < 20 \<or> 20 + 3 \<le> x \<longrightarrow> m' x = store_bytes (\<lambda>_. 0) 8 [97, 98, 99] x)"
  by (rule strlcpy_bounded) (simp_all add: apart_def)

text \<open>
  C37.  \<^verbatim>\<open>strstr\<close> returns on every pair of strings, with the address of the first occurrence of the
  needle, or null when it does not occur.
\<close>

theorem strstr_first_occurrence:
  assumes "cstring m h xs" and "cstring m needle ys"
  shows "(strstr m h needle = Some None \<longleftrightarrow> \<not> (\<exists>i. prefix ys (drop i xs))) \<and>
    (\<forall>i. strstr m h needle = Some (Some (h + i)) \<longleftrightarrow>
       prefix ys (drop i xs) \<and> (\<forall>j<i. \<not> prefix ys (drop j xs)))"
proof -
  let ?P = "\<lambda>i. prefix ys (drop i xs)"
  have "(\<exists>i. ?P i) \<and> (LEAST i. ?P i) = i \<longleftrightarrow> ?P i \<and> (\<forall>j<i. \<not> ?P j)" for i
    using LeastI_ex [of ?P] not_less_Least [of _ ?P] Least_equality [of ?P i] by (metis not_le_imp_less)
  then show ?thesis by (auto simp: strstr_cstring [OF assms])
qed

theorem strstr_first_occurrence_witness:
  "strstr (store_bytes (\<lambda>_. 0) 8 [97, 97, 98, 0, 97, 98]) 8 12 = Some (Some (8 + 1))"
  by (rule strstr_first_occurrence [where xs = "[97, 97, 98]" and ys = "[97, 98]", THEN conjunct2,
        THEN spec, THEN iffD2]) simp_all



end
