(* ===== verification/Safe_Mem.thy ===== *)
theory Safe_Mem
  imports CString
begin

text \<open>
  Access to user memory: the fault-tolerant copies of \<^verbatim>\<open>Kernel/Arch/i386/SafeMem.cpp\<close>, the range
  checks of \<^verbatim>\<open>Kernel/VM/MemoryManager.h\<close> and the user copies and user atomics of
  \<^verbatim>\<open>Kernel/StdLib.cpp\<close>.  The page tables are the argument \<open>pages\<close>, which says what may be read and
  written; an access that is not allowed faults, and the page fault handler resumes at the
  \<^verbatim>\<open>_faulted\<close> label with the fault address in \<^verbatim>\<open>edx\<close>.
\<close>

section \<open>Operations\<close>

record page_access =
  readable :: "nat \<Rightarrow> bool"
  writable :: "nat \<Rightarrow> bool"

definition readable4 :: "page_access \<Rightarrow> nat \<Rightarrow> bool" where
  "readable4 pages a \<longleftrightarrow>
     readable pages a \<and> readable pages (a + 1) \<and> readable pages (a + 2) \<and> readable pages (a + 3)"

definition writable4 :: "page_access \<Rightarrow> nat \<Rightarrow> bool" where
  "writable4 pages a \<longleftrightarrow>
     writable pages a \<and> writable pages (a + 1) \<and> writable pages (a + 2) \<and> writable pages (a + 3)"

text \<open>
  The string instructions, interrupted by a fault: the memory, the remaining count (\<^verbatim>\<open>ecx\<close>) and the
  fault address (0 without a fault).
\<close>

fun movsb :: "page_access \<Rightarrow> mem \<Rightarrow> nat \<Rightarrow> nat \<Rightarrow> nat \<Rightarrow> mem \<times> nat \<times> nat" where
  "movsb pages m dest src 0 = (m, 0, 0)"
| "movsb pages m dest src (Suc n) =
     (if \<not> readable pages src then (m, Suc n, src)
      else if \<not> writable pages dest then (m, Suc n, dest)
      else movsb pages (m(dest := m src)) (dest + 1) (src + 1) n)"

fun movsl :: "page_access \<Rightarrow> mem \<Rightarrow> nat \<Rightarrow> nat \<Rightarrow> nat \<Rightarrow> mem \<times> nat \<times> nat" where
  "movsl pages m dest src 0 = (m, 0, 0)"
| "movsl pages m dest src (Suc n) =
     (if \<not> readable4 pages src then (m, Suc n, src)
      else if \<not> writable4 pages dest then (m, Suc n, dest)
      else movsl pages (store32 m dest (load32 m src)) (dest + 4) (src + 4) n)"

fun stosb :: "page_access \<Rightarrow> mem \<Rightarrow> nat \<Rightarrow> 8 word \<Rightarrow> nat \<Rightarrow> mem \<times> nat \<times> nat" where
  "stosb pages m dest c 0 = (m, 0, 0)"
| "stosb pages m dest c (Suc n) =
     (if \<not> writable pages dest then (m, Suc n, dest) else stosb pages (m(dest := c)) (dest + 1) c n)"

fun stosl :: "page_access \<Rightarrow> mem \<Rightarrow> nat \<Rightarrow> 32 word \<Rightarrow> nat \<Rightarrow> mem \<times> nat \<times> nat" where
  "stosl pages m dest c 0 = (m, 0, 0)"
| "stosl pages m dest c (Suc n) =
     (if \<not> writable4 pages dest then (m, Suc n, dest) else stosl pages (store32 m dest c) (dest + 4) c n)"

text \<open>The result is the memory, the boolean returned and \<^verbatim>\<open>fault_at\<close>.\<close>

definition safe_memcpy_bytes ::
  "page_access \<Rightarrow> mem \<Rightarrow> nat \<Rightarrow> nat \<Rightarrow> nat \<Rightarrow> mem \<times> bool \<times> nat" where
  "safe_memcpy_bytes pages m dest src n =
     (let (m, remainder, fault_at) = movsb pages m dest src n in
      if remainder \<noteq> 0 then (m, False, fault_at) else (m, True, 0))"

definition safe_memcpy :: "page_access \<Rightarrow> mem \<Rightarrow> nat \<Rightarrow> nat \<Rightarrow> nat \<Rightarrow> mem \<times> bool \<times> nat" where
  "safe_memcpy pages m dest src n =
     (if dest mod 4 = 0 \<and> src mod 4 = 0 \<and> 12 \<le> n
      then
        (let size_ts = n div 4;
             (m, remainder, fault_at) = movsl pages m dest src size_ts in
         if remainder \<noteq> 0 then (m, False, fault_at)
         else if n - size_ts * 4 = 0 then (m, True, 0)
         else safe_memcpy_bytes pages m (dest + 4 * size_ts) (src + 4 * size_ts) (n - size_ts * 4))
      else safe_memcpy_bytes pages m dest src n)"

text \<open>\<^verbatim>\<open>safe_strnlen\<close> returns -1 on a fault, and the count in a \<^verbatim>\<open>ssize_t\<close> otherwise.\<close>

fun safe_strnlen_loop :: "page_access \<Rightarrow> mem \<Rightarrow> nat \<Rightarrow> nat \<Rightarrow> nat \<Rightarrow> int" where
  "safe_strnlen_loop pages m str 0 count = wrap i32_t (int count)"
| "safe_strnlen_loop pages m str (Suc max_n) count =
     (if \<not> readable pages (str + count) then -1
      else if m (str + count) = 0 then wrap i32_t (int count)
      else safe_strnlen_loop pages m str max_n (count + 1))"

definition safe_strnlen :: "page_access \<Rightarrow> mem \<Rightarrow> nat \<Rightarrow> nat \<Rightarrow> int" where
  "safe_strnlen pages m str max_n = safe_strnlen_loop pages m str max_n 0"

definition expand_c :: "int \<Rightarrow> 32 word" where
  "expand_c c =
     (let expanded_c = ucast (word_of_int c :: 8 word);
          expanded_c = expanded_c OR push_bit 8 expanded_c
      in expanded_c OR push_bit 16 expanded_c)"

text \<open>After the words are stored, \<^verbatim>\<open>safe_memset\<close> tests the \<^verbatim>\<open>remainder\<close> of the string instruction.\<close>

definition safe_memset :: "page_access \<Rightarrow> mem \<Rightarrow> nat \<Rightarrow> int \<Rightarrow> nat \<Rightarrow> mem \<times> bool \<times> nat" where
  "safe_memset pages m dest c n =
     (if dest mod 4 = 0 \<and> 12 \<le> n
      then
        (let size_ts = n div 4;
             (m, remainder, fault_at) = stosl pages m dest (expand_c c) size_ts in
         if remainder \<noteq> 0 then (m, False, fault_at)
         else if remainder = 0 then (m, True, 0)
         else
           (let (m, remainder, fault_at) =
                  stosb pages m (dest + 4 * size_ts) (word_of_int c) (n - size_ts * 4) in
            if remainder \<noteq> 0 then (m, False, fault_at) else (m, True, 0)))
      else
        (let (m, remainder, fault_at) = stosb pages m dest (word_of_int c) n in
         if remainder \<noteq> 0 then (m, False, fault_at) else (m, True, 0)))"

subsection \<open>Range checks and copies\<close>

definition is_user_address :: "nat \<Rightarrow> bool" where
  "is_user_address vaddr \<longleftrightarrow> vaddr < 0xc0000000"

definition is_user_range :: "nat \<Rightarrow> nat \<Rightarrow> bool" where
  "is_user_range vaddr n \<longleftrightarrow>
     \<not> size_add vaddr n < vaddr \<and> is_user_address vaddr \<and> is_user_address (size_add vaddr n)"

definition copy_to_user :: "page_access \<Rightarrow> mem \<Rightarrow> nat \<Rightarrow> nat \<Rightarrow> nat \<Rightarrow> (mem \<times> bool) res" where
  "copy_to_user pages m dest_ptr src_ptr n =
     (if \<not> is_user_range dest_ptr n then Inr (m, False)
      else verify (\<not> is_user_range src_ptr n)
        (let (m, ok, fault_at) = safe_memcpy pages m dest_ptr src_ptr n in
         if \<not> ok
         then verify (dest_ptr \<le> fault_at \<and> fault_at \<le> size_add dest_ptr n) (Inr (m, False))
         else Inr (m, True)))"

definition copy_from_user :: "page_access \<Rightarrow> mem \<Rightarrow> nat \<Rightarrow> nat \<Rightarrow> nat \<Rightarrow> (mem \<times> bool) res" where
  "copy_from_user pages m dest_ptr src_ptr n =
     (if \<not> is_user_range src_ptr n then Inr (m, False)
      else verify (\<not> is_user_range dest_ptr n)
        (let (m, ok, fault_at) = safe_memcpy pages m dest_ptr src_ptr n in
         if \<not> ok
         then verify (src_ptr \<le> fault_at \<and> fault_at \<le> size_add src_ptr n) (Inr (m, False))
         else Inr (m, True)))"

definition memset_user :: "page_access \<Rightarrow> mem \<Rightarrow> nat \<Rightarrow> int \<Rightarrow> nat \<Rightarrow> mem \<times> bool" where
  "memset_user pages m dest_ptr c n =
     (if \<not> is_user_range dest_ptr n then (m, False)
      else let (m, ok, fault_at) = safe_memset pages m dest_ptr c n in (m, ok))"

text \<open>
  The string allocated by \<^verbatim>\<open>copy_string_from_user\<close> is the result; \<open>buffer\<close> is the address of its
  storage, and a null string is \<open>None\<close>.
\<close>

definition copy_string_from_user ::
  "page_access \<Rightarrow> mem \<Rightarrow> nat \<Rightarrow> nat \<Rightarrow> nat \<Rightarrow> mem \<times> 8 word list option" where
  "copy_string_from_user pages m buffer user_str user_str_size =
     (if \<not> is_user_range user_str user_str_size then (m, None)
      else
        (let n = safe_strnlen pages m user_str user_str_size in
         if n < 0 then (m, None)
         else if n = 0 then (m, Some [])
         else
           (let (m, ok, fault_at) = safe_memcpy pages m buffer user_str (nat n) in
            if \<not> ok then (m, None) else (m, Some (map m [buffer..<buffer + nat n])))))"

subsection \<open>Atomics\<close>

text \<open>
  A faulting atomic instruction changes nothing and the handler sets \<^verbatim>\<open>edx\<close>, the \<^verbatim>\<open>error\<close> flag.
\<close>

definition safe_atomic_fetch_add_relaxed ::
  "page_access \<Rightarrow> mem \<Rightarrow> nat \<Rightarrow> 32 word \<Rightarrow> mem \<times> 32 word option" where
  "safe_atomic_fetch_add_relaxed pages m var val =
     (if readable4 pages var \<and> writable4 pages var
      then (store32 m var (load32 m var + val), Some (load32 m var)) else (m, None))"

definition safe_atomic_exchange_relaxed ::
  "page_access \<Rightarrow> mem \<Rightarrow> nat \<Rightarrow> 32 word \<Rightarrow> mem \<times> 32 word option" where
  "safe_atomic_exchange_relaxed pages m var val =
     (if readable4 pages var \<and> writable4 pages var
      then (store32 m var val, Some (load32 m var)) else (m, None))"

definition safe_atomic_load_relaxed :: "page_access \<Rightarrow> mem \<Rightarrow> nat \<Rightarrow> 32 word option" where
  "safe_atomic_load_relaxed pages m var = (if readable4 pages var then Some (load32 m var) else None)"

definition safe_atomic_store_relaxed :: "page_access \<Rightarrow> mem \<Rightarrow> nat \<Rightarrow> 32 word \<Rightarrow> mem \<times> bool" where
  "safe_atomic_store_relaxed pages m var val =
     (if readable4 pages var \<and> writable4 pages var then (store32 m var val, True) else (m, False))"

text \<open>The new value of \<^verbatim>\<open>expected\<close> is the second component.\<close>

definition safe_atomic_compare_exchange_relaxed ::
  "page_access \<Rightarrow> mem \<Rightarrow> nat \<Rightarrow> 32 word \<Rightarrow> 32 word \<Rightarrow> mem \<times> 32 word \<times> bool option" where
  "safe_atomic_compare_exchange_relaxed pages m var expected val =
     (if readable4 pages var \<and> writable4 pages var
      then if load32 m var = expected then (store32 m var val, expected, Some True)
        else (m, load32 m var, Some False)
      else (m, expected, None))"

text \<open>
  The loops of \<^verbatim>\<open>SafeMem.h\<close>: other processors may write to memory before each attempt, which is
  \<open>env k\<close> before the \<open>k\<close>th, and the loop may lose every race.
\<close>

partial_function (option) compare_exchange_loop ::
  "page_access \<Rightarrow> (nat \<Rightarrow> mem \<Rightarrow> mem) \<Rightarrow> (32 word \<Rightarrow> 32 word) \<Rightarrow> nat \<Rightarrow> mem \<Rightarrow> nat \<Rightarrow> 32 word
   \<Rightarrow> (mem \<times> 32 word option) option" where
  "compare_exchange_loop pages env f k m var expected =
     (let (m, expected, result) =
        safe_atomic_compare_exchange_relaxed pages (env k m) var expected (f expected) in
      if result = None then Some (m, None)
      else if result = Some True then Some (m, Some expected)
      else compare_exchange_loop pages env f (k + 1) m var expected)"

definition fetch_and_modify ::
  "page_access \<Rightarrow> (nat \<Rightarrow> mem \<Rightarrow> mem) \<Rightarrow> (32 word \<Rightarrow> 32 word) \<Rightarrow> mem \<Rightarrow> nat
   \<Rightarrow> (mem \<times> 32 word option) option" where
  "fetch_and_modify pages env f m var =
     (case safe_atomic_load_relaxed pages m var of
        None \<Rightarrow> Some (m, None)
      | Some expected \<Rightarrow> compare_exchange_loop pages env f 0 m var expected)"

definition safe_atomic_fetch_and_relaxed where
  "safe_atomic_fetch_and_relaxed pages env m var val = fetch_and_modify pages env (\<lambda>e. e AND val) m var"

definition safe_atomic_fetch_and_not_relaxed where
  "safe_atomic_fetch_and_not_relaxed pages env m var val =
     fetch_and_modify pages env (\<lambda>e. e AND NOT val) m var"

definition safe_atomic_fetch_or_relaxed where
  "safe_atomic_fetch_or_relaxed pages env m var val = fetch_and_modify pages env (\<lambda>e. e OR val) m var"

definition safe_atomic_fetch_xor_relaxed where
  "safe_atomic_fetch_xor_relaxed pages env m var val = fetch_and_modify pages env (\<lambda>e. e XOR val) m var"

definition user_word :: "nat \<Rightarrow> bool" where
  "user_word var \<longleftrightarrow> var mod 4 = 0 \<and> is_user_range var 4"

definition user_atomic_fetch_add_relaxed where
  "user_atomic_fetch_add_relaxed pages m var val =
     (if user_word var then safe_atomic_fetch_add_relaxed pages m var val else (m, None))"

definition user_atomic_exchange_relaxed where
  "user_atomic_exchange_relaxed pages m var val =
     (if user_word var then safe_atomic_exchange_relaxed pages m var val else (m, None))"

definition user_atomic_load_relaxed where
  "user_atomic_load_relaxed pages m var =
     (if user_word var then safe_atomic_load_relaxed pages m var else None)"

definition user_atomic_store_relaxed where
  "user_atomic_store_relaxed pages m var val =
     (if user_word var then safe_atomic_store_relaxed pages m var val else (m, False))"

definition user_atomic_compare_exchange_relaxed ::
  "page_access \<Rightarrow> mem \<Rightarrow> nat \<Rightarrow> nat \<Rightarrow> 32 word \<Rightarrow> 32 word \<Rightarrow> (mem \<times> 32 word \<times> bool option) res" where
  "user_atomic_compare_exchange_relaxed pages m var expected_ptr expected val =
     (if var mod 4 \<noteq> 0 then Inr (m, expected, None)
      else verify (\<not> is_user_range expected_ptr 4)
        (if \<not> is_user_range var 4 then Inr (m, expected, None)
         else Inr (safe_atomic_compare_exchange_relaxed pages m var expected val)))"

definition user_atomic_fetch_and_relaxed where
  "user_atomic_fetch_and_relaxed pages env m var val =
     (if user_word var then safe_atomic_fetch_and_relaxed pages env m var val else Some (m, None))"

definition user_atomic_fetch_and_not_relaxed where
  "user_atomic_fetch_and_not_relaxed pages env m var val =
     (if user_word var then safe_atomic_fetch_and_not_relaxed pages env m var val else Some (m, None))"

definition user_atomic_fetch_or_relaxed where
  "user_atomic_fetch_or_relaxed pages env m var val =
     (if user_word var then safe_atomic_fetch_or_relaxed pages env m var val else Some (m, None))"

definition user_atomic_fetch_xor_relaxed where
  "user_atomic_fetch_xor_relaxed pages env m var val =
     (if user_word var then safe_atomic_fetch_xor_relaxed pages env m var val else Some (m, None))"

section \<open>Facts\<close>

lemma is_user_range_iff:
  assumes "a < 2 ^ 32" and "n < 2 ^ 32"
  shows "is_user_range a n \<longleftrightarrow> a + n < 0xc0000000"
proof (cases "a + n < 2 ^ 32")
  case True
  then show ?thesis by (auto simp: is_user_range_def is_user_address_def size_add_id)
next
  case False
  with assms have "size_add a n = a + n - 2 ^ 32" by (simp add: size_add_def mod_if)
  with False assms have "size_add a n < a" by linarith
  with False show ?thesis by (simp add: is_user_range_def)
qed

lemma memcpy_0 [simp]: "memcpy m dest src 0 = m"
  by (auto simp: memcpy_def fun_eq_iff)

text \<open>Both string copies stop after \<open>k\<close> units, at the first one that faults.\<close>

lemma movsb_cases:
  "dest \<le> src \<or> src + n \<le> dest \<Longrightarrow>
   \<exists>k\<le>n. \<exists>f. movsb pages m dest src n = (memcpy m dest src k, n - k, f) \<and>
     (\<forall>i<k. readable pages (src + i) \<and> writable pages (dest + i)) \<and>
     (k < n \<longrightarrow> \<not> readable pages (src + k) \<and> f = src + k \<or> \<not> writable pages (dest + k) \<and> f = dest + k)"
proof (induction n arbitrary: m dest src)
  case (Suc n)
  let ?m = "m(dest := m src)"
  show ?case
  proof (cases "readable pages src \<and> writable pages dest")
    case False
    then show ?thesis by (intro exI [of _ 0]) auto
  next
    case True
    from Suc.prems have "dest + 1 \<le> src + 1 \<or> src + 1 + n \<le> dest + 1" by auto
    from Suc.IH [OF this, of ?m] obtain k f where k: "k \<le> n"
      "movsb pages ?m (dest + 1) (src + 1) n = (memcpy ?m (dest + 1) (src + 1) k, n - k, f)"
      "\<forall>i<k. readable pages (src + 1 + i) \<and> writable pages (dest + 1 + i)"
      "k < n \<longrightarrow> \<not> readable pages (src + 1 + k) \<and> f = src + 1 + k \<or>
        \<not> writable pages (dest + 1 + k) \<and> f = dest + 1 + k" by blast
    have "memcpy ?m (dest + 1) (src + 1) k x = memcpy m dest src (Suc k) x" for x
      using Suc.prems k(1) by (cases "x = dest") (auto simp: memcpy_def intro!: arg_cong [of _ _ m])
    then have "memcpy ?m (dest + 1) (src + 1) k = memcpy m dest src (Suc k)" ..
    with True k show ?thesis by (intro exI [of _ "Suc k"]) (auto simp: less_Suc_eq_0_disj)
  qed
qed simp

lemma movsl_cases:
  "dest + 4 \<le> src \<or> dest = src \<or> src + 4 * n \<le> dest \<Longrightarrow>
   \<exists>k\<le>n. \<exists>f. movsl pages m dest src n = (memcpy m dest src (4 * k), n - k, f) \<and>
     (\<forall>i<k. readable4 pages (src + 4 * i) \<and> writable4 pages (dest + 4 * i)) \<and>
     (k < n \<longrightarrow> \<not> readable4 pages (src + 4 * k) \<and> f = src + 4 * k \<or>
        \<not> writable4 pages (dest + 4 * k) \<and> f = dest + 4 * k)"
proof (induction n arbitrary: m dest src)
  case (Suc n)
  let ?m = "store32 m dest (load32 m src)"
  show ?case
  proof (cases "readable4 pages src \<and> writable4 pages dest")
    case False
    then show ?thesis by (intro exI [of _ 0]) auto
  next
    case True
    from Suc.prems have "dest + 4 + 4 \<le> src + 4 \<or> dest + 4 = src + 4 \<or> src + 4 + 4 * n \<le> dest + 4" by auto
    from Suc.IH [OF this, of ?m] obtain k f where k: "k \<le> n"
      "movsl pages ?m (dest + 4) (src + 4) n = (memcpy ?m (dest + 4) (src + 4) (4 * k), n - k, f)"
      "\<forall>i<k. readable4 pages (src + 4 + 4 * i) \<and> writable4 pages (dest + 4 + 4 * i)"
      "k < n \<longrightarrow> \<not> readable4 pages (src + 4 + 4 * k) \<and> f = src + 4 + 4 * k \<or>
        \<not> writable4 pages (dest + 4 + 4 * k) \<and> f = dest + 4 + 4 * k" by blast
    have "memcpy ?m (dest + 4) (src + 4) (4 * k) x = memcpy m dest src (4 * Suc k) x" for x
      using Suc.prems k(1) by (auto simp: memcpy_def store32_load32 intro!: arg_cong [of _ _ m])
    then have "memcpy ?m (dest + 4) (src + 4) (4 * k) = memcpy m dest src (4 * Suc k)" ..
    with True k show ?thesis
      by (intro exI [of _ "Suc k"]) (auto simp: less_Suc_eq_0_disj ac_simps)
  qed
qed simp

lemma readable4_iff: "readable4 pages a \<longleftrightarrow> (\<forall>i<4. readable pages (a + i))"
  by (auto simp: readable4_def numeral_eq_Suc less_Suc_eq)

lemma writable4_iff: "writable4 pages a \<longleftrightarrow> (\<forall>i<4. writable pages (a + i))"
  by (auto simp: writable4_def numeral_eq_Suc less_Suc_eq)

lemma dword_bytes: "(\<forall>i<k. \<forall>j<4. P (4 * i + j)) \<longleftrightarrow> (\<forall>i<4 * (k::nat). P i)"
proof
  assume dwords: "\<forall>i<k. \<forall>j<4. P (4 * i + j)"
  show "\<forall>i<4 * k. P i"
  proof (intro allI impI)
    fix i assume "i < 4 * k"
    then have "i div 4 < k" "i mod 4 < 4" by auto
    with dwords have "P (4 * (i div 4) + i mod 4)" by blast
    then show "P i" by simp
  qed
qed auto

definition stops_at :: "page_access \<Rightarrow> nat \<Rightarrow> nat \<Rightarrow> nat \<Rightarrow> nat \<Rightarrow> nat \<Rightarrow> bool" where
  "stops_at pages dest src n k f \<longleftrightarrow>
     k \<le> n \<and> (\<forall>i<k. readable pages (src + i) \<and> writable pages (dest + i)) \<and>
     (k < n \<longrightarrow> (\<exists>j<n. k \<le> j \<and> \<not> readable pages (src + j)) \<and> f = src + k \<or>
               (\<exists>j<n. k \<le> j \<and> \<not> writable pages (dest + j)) \<and> f = dest + k)"

lemma stops_at_all:
  "stops_at pages dest src n k f \<Longrightarrow>
   k = n \<longleftrightarrow> (\<forall>i<n. readable pages (src + i) \<and> writable pages (dest + i))"
  unfolding stops_at_def by (metis le_neq_implies_less)

lemma safe_memcpy_bytes_stops:
  assumes "dest \<le> src \<or> src + n \<le> dest"
  shows "\<exists>k f. stops_at pages dest src n k f \<and>
    safe_memcpy_bytes pages m dest src n = (memcpy m dest src k, k = n, if k = n then 0 else f)"
proof -
  from movsb_cases [OF assms, of pages m] obtain k f where k: "k \<le> n"
    "movsb pages m dest src n = (memcpy m dest src k, n - k, f)"
    "\<forall>i<k. readable pages (src + i) \<and> writable pages (dest + i)"
    "k < n \<longrightarrow> \<not> readable pages (src + k) \<and> f = src + k \<or> \<not> writable pages (dest + k) \<and> f = dest + k"
    by blast
  then have "stops_at pages dest src n k f" by (auto simp: stops_at_def)
  moreover have "safe_memcpy_bytes pages m dest src n = (memcpy m dest src k, k = n, if k = n then 0 else f)"
    using k(1,2) by (auto simp: safe_memcpy_bytes_def)
  ultimately show ?thesis by blast
qed

lemma movsl_stops:
  assumes "dest + 4 \<le> src \<or> dest = src \<or> src + 4 * n \<le> dest"
  shows "\<exists>k f. stops_at pages dest src (4 * n) (4 * k) f \<and>
    movsl pages m dest src n = (memcpy m dest src (4 * k), n - k, f)"
proof -
  from movsl_cases [OF assms, of pages m] obtain k f where k: "k \<le> n"
    "movsl pages m dest src n = (memcpy m dest src (4 * k), n - k, f)"
    "\<forall>i<k. readable4 pages (src + 4 * i) \<and> writable4 pages (dest + 4 * i)"
    "k < n \<longrightarrow> \<not> readable4 pages (src + 4 * k) \<and> f = src + 4 * k \<or>
      \<not> writable4 pages (dest + 4 * k) \<and> f = dest + 4 * k"
    by blast
  have "\<forall>i<k. \<forall>j<4. readable pages (src + (4 * i + j)) \<and> writable pages (dest + (4 * i + j))"
    using k(3) by (auto simp: readable4_iff writable4_iff ac_simps)
  then have "\<forall>i<4 * k. readable pages (src + i) \<and> writable pages (dest + i)"
    by (rule dword_bytes [THEN iffD1])
  moreover have dword: "\<exists>j<4 * n. 4 * k \<le> j \<and> \<not> P (a + j)" if "k < n" "\<not> (\<forall>i<4. P (a + 4 * k + i))" for P a
  proof -
    from that(2) obtain i where "i < 4" "\<not> P (a + 4 * k + i)" by blast
    with that(1) show ?thesis by (intro exI [of _ "4 * k + i"]) (auto simp: ac_simps)
  qed
  moreover have "k < n \<longrightarrow> (\<exists>j<4 * n. 4 * k \<le> j \<and> \<not> readable pages (src + j)) \<and> f = src + 4 * k \<or>
      (\<exists>j<4 * n. 4 * k \<le> j \<and> \<not> writable pages (dest + j)) \<and> f = dest + 4 * k"
    using k(4) dword [of "readable pages" src] dword [of "writable pages" dest]
    unfolding readable4_iff writable4_iff by blast
  ultimately have "stops_at pages dest src (4 * n) (4 * k) f"
    using k(1) by (simp add: stops_at_def)
  with k(2) show ?thesis by blast
qed

lemma stops_at_longer:
  "stops_at pages dest src n k f \<Longrightarrow> k < n \<Longrightarrow> n \<le> p \<Longrightarrow> stops_at pages dest src p k f"
  unfolding stops_at_def by (meson le_trans less_le_trans)

lemma stops_at_append:
  assumes "stops_at pages dest src n n f" and "stops_at pages (dest + n) (src + n) p k g"
  shows "stops_at pages dest src (n + p) (n + k) g"
proof -
  have "readable pages (src + i) \<and> writable pages (dest + i)" if "i < n + k" for i
  proof (cases "i < n")
    case False
    then have "i - n < k" "i = n + (i - n)" using that by auto
    with assms(2) show ?thesis unfolding stops_at_def by (metis add.assoc)
  qed (use assms(1) in \<open>simp add: stops_at_def\<close>)
  moreover have far: "\<exists>j<n + p. n + k \<le> j \<and> \<not> P (a + j)" if bad: "\<exists>j<p. k \<le> j \<and> \<not> P (a + n + j)" for P and a :: nat
  proof -
    from bad obtain j where "j < p" "k \<le> j" "\<not> P (a + n + j)" by blast
    then show ?thesis by (intro exI [of _ "n + j"]) (auto simp: ac_simps)
  qed
  moreover have "k < p \<longrightarrow> (\<exists>j<n + p. n + k \<le> j \<and> \<not> readable pages (src + j)) \<and> g = src + (n + k) \<or>
      (\<exists>j<n + p. n + k \<le> j \<and> \<not> writable pages (dest + j)) \<and> g = dest + (n + k)"
    using assms(2) far [of "readable pages" src] far [of "writable pages" dest]
    unfolding stops_at_def add.assoc [symmetric] by blast
  ultimately show ?thesis using assms(2) by (simp add: stops_at_def)
qed

lemma safe_memcpy_stops:
  assumes "dest \<le> src \<or> src + n \<le> dest"
  shows "\<exists>k f. stops_at pages dest src n k f \<and>
    safe_memcpy pages m dest src n = (memcpy m dest src k, k = n, if k = n then 0 else f)"
proof (cases "dest mod 4 = 0 \<and> src mod 4 = 0 \<and> 12 \<le> n")
  case False
  then have "safe_memcpy pages m dest src n = safe_memcpy_bytes pages m dest src n"
    unfolding safe_memcpy_def by (rule if_not_P)
  with safe_memcpy_bytes_stops [OF assms, of pages m] show ?thesis by (simp only:)
next
  case True
  let ?w = "n div 4" and ?r = "n - n div 4 * 4"
  have n: "n = 4 * ?w + ?r" by simp
  have "dest + 4 \<le> src \<or> dest = src \<or> src + 4 * ?w \<le> dest"
    using assms True by presburger
  from movsl_stops [OF this, of pages m] obtain k f where k:
    "stops_at pages dest src (4 * ?w) (4 * k) f"
    "movsl pages m dest src ?w = (memcpy m dest src (4 * k), ?w - k, f)" by blast
  show ?thesis
  proof (cases "k = ?w")
    case False
    then have "k < ?w" using k(1) by (auto simp: stops_at_def)
    moreover have "stops_at pages dest src n (4 * k) f"
      by (rule stops_at_longer [OF k(1)]) (use \<open>k < ?w\<close> n in auto)
    moreover have "safe_memcpy pages m dest src n = (memcpy m dest src (4 * k), 4 * k = n, if 4 * k = n then 0 else f)"
      using True k(2) \<open>k < ?w\<close> n by (auto simp: safe_memcpy_def Let_def)
    ultimately show ?thesis by blast
  next
    case w: True
    let ?m = "memcpy m dest src (4 * ?w)"
    have "dest + 4 * ?w \<le> src + 4 * ?w \<or> src + 4 * ?w + ?r \<le> dest + 4 * ?w" using assms n by linarith
    from safe_memcpy_bytes_stops [OF this, of pages ?m] obtain l g where l:
      "stops_at pages (dest + 4 * ?w) (src + 4 * ?w) ?r l g"
      "safe_memcpy_bytes pages ?m (dest + 4 * ?w) (src + 4 * ?w) ?r =
        (memcpy ?m (dest + 4 * ?w) (src + 4 * ?w) l, l = ?r, if l = ?r then 0 else g)" by blast
    have "stops_at pages dest src n (4 * ?w + l) g"
      using stops_at_append [OF _ l(1)] k(1) w n by metis
    moreover have "memcpy ?m (dest + 4 * ?w) (src + 4 * ?w) l x = memcpy m dest src (4 * ?w + l) x" for x
      using assms l(1) n by (auto simp: stops_at_def memcpy_def intro!: arg_cong [of _ _ m])
    then have mem: "memcpy ?m (dest + 4 * ?w) (src + 4 * ?w) l = memcpy m dest src (4 * ?w + l)" ..
    have "l = ?r \<longleftrightarrow> 4 * ?w + l = n" "?r = 0 \<Longrightarrow> 4 * ?w = n" "?r = 0 \<Longrightarrow> l = 0"
      using n l(1) by (auto simp: stops_at_def)
    with True k(2) w l(2) mem
    have "safe_memcpy pages m dest src n =
        (memcpy m dest src (4 * ?w + l), 4 * ?w + l = n, if 4 * ?w + l = n then 0 else g)"
      by (simp add: safe_memcpy_def Let_def)
    ultimately show ?thesis by blast
  qed
qed

lemma copy_to_user_result:
  assumes "dest < 2 ^ 32" and "n < 2 ^ 32"
    and "0xc0000000 \<le> src" and "src + n \<le> 2 ^ 32" and "src < 2 ^ 32"
    and "\<forall>i<n. readable pages (src + i)"
  shows "\<exists>m' ok. copy_to_user pages m dest src n = Inr (m', ok) \<and>
    (ok \<longleftrightarrow> dest + n < 0xc0000000 \<and> (\<forall>i<n. writable pages (dest + i))) \<and>
    (ok \<longrightarrow> (\<forall>i<n. m' (dest + i) = m (src + i))) \<and>
    (\<forall>x. \<not> (dest \<le> x \<and> x < dest + n \<and> x < 0xc0000000) \<longrightarrow> m' x = m x)"
proof (cases "is_user_range dest n")
  case False
  with assms(1,2) show ?thesis
    by (intro exI [of _ m] exI [of _ False]) (simp add: copy_to_user_def is_user_range_iff)
next
  case True
  with assms(1,2) have user: "dest + n < 0xc0000000" by (simp add: is_user_range_iff)
  from assms(3) user have "dest \<le> src \<or> src + n \<le> dest" by simp
  from safe_memcpy_stops [OF this, of pages m] obtain k f where k: "stops_at pages dest src n k f"
    "safe_memcpy pages m dest src n = (memcpy m dest src k, k = n, if k = n then 0 else f)" by blast
  have "k < n \<Longrightarrow> f = dest + k" using k(1) assms(6) by (auto simp: stops_at_def)
  moreover have "\<not> is_user_range src n" using assms(2,3,5) by (simp add: is_user_range_iff)
  moreover have "k \<le> n" using k(1) by (simp add: stops_at_def)
  ultimately have "copy_to_user pages m dest src n = Inr (memcpy m dest src k, k = n)"
    using True user k(2) by (auto simp: copy_to_user_def size_add_id)
  with stops_at_all [OF k(1)] assms(6) user \<open>k \<le> n\<close> show ?thesis
    by (auto simp: memcpy_apply)
qed

lemma copy_from_user_result:
  assumes "src < 2 ^ 32" and "n < 2 ^ 32"
    and "0xc0000000 \<le> dest" and "dest + n \<le> 2 ^ 32" and "dest < 2 ^ 32"
    and "\<forall>i<n. writable pages (dest + i)"
  shows "\<exists>m' ok. copy_from_user pages m dest src n = Inr (m', ok) \<and>
    (ok \<longleftrightarrow> src + n < 0xc0000000 \<and> (\<forall>i<n. readable pages (src + i))) \<and>
    (ok \<longrightarrow> (\<forall>i<n. m' (dest + i) = m (src + i))) \<and>
    (\<forall>x. \<not> (dest \<le> x \<and> x < dest + n) \<longrightarrow> m' x = m x)"
proof (cases "is_user_range src n")
  case False
  with assms(1,2) show ?thesis
    by (intro exI [of _ m] exI [of _ False]) (simp add: copy_from_user_def is_user_range_iff)
next
  case True
  with assms(1,2) have user: "src + n < 0xc0000000" by (simp add: is_user_range_iff)
  from assms(3) user have "dest \<le> src \<or> src + n \<le> dest" by simp
  from safe_memcpy_stops [OF this, of pages m] obtain k f where k: "stops_at pages dest src n k f"
    "safe_memcpy pages m dest src n = (memcpy m dest src k, k = n, if k = n then 0 else f)" by blast
  have "k < n \<Longrightarrow> f = src + k" using k(1) assms(6) by (auto simp: stops_at_def)
  moreover have "\<not> is_user_range dest n" using assms(2,3,5) by (simp add: is_user_range_iff)
  moreover have "k \<le> n" using k(1) by (simp add: stops_at_def)
  ultimately have "copy_from_user pages m dest src n = Inr (memcpy m dest src k, k = n)"
    using True user k(2) by (auto simp: copy_from_user_def size_add_id)
  with stops_at_all [OF k(1)] assms(6) user \<open>k \<le> n\<close> show ?thesis
    by (auto simp: memcpy_apply)
qed

text \<open>
  The outcome of an atomic update that took effect at the attempt \<open>j\<close>, on the memory \<open>mj\<close> that the
  other processors had left at that time.
\<close>

definition updated_atomically ::
  "(nat \<Rightarrow> mem \<Rightarrow> mem) \<Rightarrow> (32 word \<Rightarrow> 32 word) \<Rightarrow> nat \<Rightarrow> mem \<Rightarrow> nat \<Rightarrow> (mem \<times> 32 word option) option \<Rightarrow> bool"
where
  "updated_atomically env f k m var r \<longleftrightarrow>
     (\<exists>j\<ge>k. let mj = fold env [k..<Suc j] m in
       r = Some (store32 mj var (f (load32 mj var)), Some (load32 mj var)))"

lemma updated_atomically_now:
  "updated_atomically env f k m var
     (Some (store32 (env k m) var (f (load32 (env k m) var)), Some (load32 (env k m) var)))"
  unfolding updated_atomically_def by (intro exI [of _ k]) (simp add: Let_def)

lemma updated_atomically_later:
  assumes "updated_atomically env f (k + 1) (env k m) var r"
  shows "updated_atomically env f k m var r"
proof -
  from assms obtain j where j: "k + 1 \<le> j"
    "let mj = fold env [k + 1..<Suc j] (env k m) in
      r = Some (store32 mj var (f (load32 mj var)), Some (load32 mj var))"
    unfolding updated_atomically_def by blast
  then have "[k..<Suc j] = k # [k + 1..<Suc j]" by (simp add: upt_conv_Cons del: upt_Suc)
  with j show ?thesis unfolding updated_atomically_def
    by (intro exI [of _ j]) (simp add: Let_def del: upt_Suc)
qed

lemma compare_exchange_loop_atomic:
  assumes ok: "readable4 pages var" "writable4 pages var"
    and quiet: "\<And>k m. K \<le> k \<Longrightarrow> load32 (env k m) var = load32 m var"
  shows "updated_atomically env f k m var (compare_exchange_loop pages env f k m var expected)"
proof -
  have step: "compare_exchange_loop pages env f k m var expected =
      (if load32 (env k m) var = expected
       then Some (store32 (env k m) var (f (load32 (env k m) var)), Some (load32 (env k m) var))
       else compare_exchange_loop pages env f (k + 1) (env k m) var (load32 (env k m) var))"
    for k m expected
    using ok by (simp add: compare_exchange_loop.simps [of _ _ _ k]
        safe_atomic_compare_exchange_relaxed_def)
  show ?thesis
  proof (induction "K - k" arbitrary: k m expected)
    case 0
    then have "load32 (env (k + 1) (env k m)) var = load32 (env k m) var" using quiet by simp
    then show ?case
      using updated_atomically_now [of env f k m var]
        updated_atomically_later [OF updated_atomically_now [of env f "k + 1" "env k m" var]]
      by (auto simp: step [of k m] step [of "Suc k"])
  next
    case (Suc n)
    then have "n = K - (k + 1)" by simp
    from Suc.hyps(1) [OF this] show ?case
      unfolding step [of k m] by (auto intro: updated_atomically_later updated_atomically_now)
  qed
qed

section \<open>Properties\<close>

text \<open>
  C18.  A copy to user memory from a readable kernel buffer never panics and returns true exactly
  when the whole destination lies below the kernel and may be written; then the destination holds
  the bytes of the source.  In every case it changes no byte outside the destination, and so none
  of the kernel.
\<close>

theorem copy_to_user_confined:
  assumes "dest < 2 ^ 32" and "n < 2 ^ 32"
    and "0xc0000000 \<le> src" and "src + n \<le> 2 ^ 32" and "src < 2 ^ 32"
    and "\<forall>i<n. readable pages (src + i)"
  shows "\<exists>m' ok. copy_to_user pages m dest src n = Inr (m', ok) \<and>
    (ok \<longleftrightarrow> dest + n < 0xc0000000 \<and> (\<forall>i<n. writable pages (dest + i))) \<and>
    (ok \<longrightarrow> (\<forall>i<n. m' (dest + i) = m (src + i))) \<and>
    (\<forall>x. \<not> (dest \<le> x \<and> x < dest + n \<and> x < 0xc0000000) \<longrightarrow> m' x = m x)"
  using assms by (rule copy_to_user_result)

theorem copy_to_user_confined_witness:
  "\<exists>m' ok. copy_to_user \<lparr>readable = \<lambda>_. True, writable = \<lambda>x. x < 4106\<rparr> (\<lambda>_. 7) 4096 0xc0001000 16 = Inr (m', ok) \<and>
    (ok \<longleftrightarrow> 4096 + 16 < (0xc0000000 :: nat) \<and>
      (\<forall>i<16. writable \<lparr>readable = \<lambda>_. True, writable = \<lambda>x. x < 4106\<rparr> (4096 + i))) \<and>
    (ok \<longrightarrow> (\<forall>i<16. m' (4096 + i) = 7)) \<and>
    (\<forall>x. \<not> (4096 \<le> x \<and> x < 4096 + 16 \<and> x < 0xc0000000) \<longrightarrow> m' x = 7)"
  by (rule copy_to_user_confined) simp_all

text \<open>
  C19.  A copy from user memory into a writable kernel buffer never panics, whatever the user
  passes, and returns true exactly when the whole source lies below the kernel and may be read;
  then the buffer holds the bytes of the source.  It changes no byte outside the buffer.
\<close>

theorem copy_from_user_exact:
  assumes "src < 2 ^ 32" and "n < 2 ^ 32"
    and "0xc0000000 \<le> dest" and "dest + n \<le> 2 ^ 32" and "dest < 2 ^ 32"
    and "\<forall>i<n. writable pages (dest + i)"
  shows "\<exists>m' ok. copy_from_user pages m dest src n = Inr (m', ok) \<and>
    (ok \<longleftrightarrow> src + n < 0xc0000000 \<and> (\<forall>i<n. readable pages (src + i))) \<and>
    (ok \<longrightarrow> (\<forall>i<n. m' (dest + i) = m (src + i))) \<and>
    (\<forall>x. \<not> (dest \<le> x \<and> x < dest + n) \<longrightarrow> m' x = m x)"
  using assms by (rule copy_from_user_result)

theorem copy_from_user_exact_witness:
  "\<exists>m' ok. copy_from_user \<lparr>readable = \<lambda>_. True, writable = \<lambda>_. True\<rparr> (\<lambda>x. of_nat x) 0xc0001000 4096 16 =
      Inr (m', ok) \<and>
    (ok \<longleftrightarrow> 4096 + 16 < (0xc0000000 :: nat) \<and>
      (\<forall>i<16. readable \<lparr>readable = \<lambda>_. True, writable = \<lambda>_. True\<rparr> (4096 + i))) \<and>
    (ok \<longrightarrow> (\<forall>i<16. m' (0xc0001000 + i) = of_nat (4096 + i))) \<and>
    (\<forall>x. \<not> (0xc0001000 \<le> x \<and> x < 0xc0001000 + 16) \<longrightarrow> m' x = of_nat x)"
  by (rule copy_from_user_exact) simp_all

text \<open>
  C20.  The read-modify-write operations on a word of user memory return as soon as the other
  processors leave the word alone, with the value it had at one moment, and at that same moment
  replace it; a word that is not aligned or not in user memory is left alone.
\<close>

theorem user_atomics_are_atomic:
  assumes "readable4 pages var" and "writable4 pages var"
    and "\<And>k m. K \<le> k \<Longrightarrow> load32 (env k m) var = load32 m var"
  shows "if var mod 4 = 0 \<and> is_user_range var 4
    then updated_atomically env (\<lambda>w. w AND val) 0 m var (user_atomic_fetch_and_relaxed pages env m var val) \<and>
      updated_atomically env (\<lambda>w. w AND NOT val) 0 m var (user_atomic_fetch_and_not_relaxed pages env m var val) \<and>
      updated_atomically env (\<lambda>w. w OR val) 0 m var (user_atomic_fetch_or_relaxed pages env m var val) \<and>
      updated_atomically env (\<lambda>w. w XOR val) 0 m var (user_atomic_fetch_xor_relaxed pages env m var val)
    else user_atomic_fetch_and_relaxed pages env m var val = Some (m, None) \<and>
      user_atomic_fetch_and_not_relaxed pages env m var val = Some (m, None) \<and>
      user_atomic_fetch_or_relaxed pages env m var val = Some (m, None) \<and>
      user_atomic_fetch_xor_relaxed pages env m var val = Some (m, None)"
  using compare_exchange_loop_atomic [OF assms] assms(1)
  by (simp add: user_atomic_fetch_and_relaxed_def user_atomic_fetch_and_not_relaxed_def
      user_atomic_fetch_or_relaxed_def user_atomic_fetch_xor_relaxed_def user_word_def
      safe_atomic_fetch_and_relaxed_def safe_atomic_fetch_and_not_relaxed_def
      safe_atomic_fetch_or_relaxed_def safe_atomic_fetch_xor_relaxed_def fetch_and_modify_def
      safe_atomic_load_relaxed_def)

theorem user_atomics_are_atomic_witness:
  "updated_atomically (\<lambda>k m. if k = 0 then store32 m 4096 5 else m) (\<lambda>w. w OR 8) 0 (\<lambda>_. 0) 4096
     (user_atomic_fetch_or_relaxed \<lparr>readable = \<lambda>_. True, writable = \<lambda>_. True\<rparr>
       (\<lambda>k m. if k = 0 then store32 m 4096 5 else m) (\<lambda>_. 0) 4096 8)"
  using user_atomics_are_atomic [of "\<lparr>readable = \<lambda>_. True, writable = \<lambda>_. True\<rparr>" 4096 1
      "\<lambda>k m. if k = 0 then store32 m 4096 5 else m" 8 "\<lambda>_. 0"]
  by (simp add: readable4_def writable4_def is_user_range_iff)

text \<open>
  An aligned \<^verbatim>\<open>memset_user\<close> of at least twelve bytes reports success without setting the last bytes of
  a block whose length is not a multiple of four.
\<close>

lemma stosl_writable:
  "(\<forall>i<n. writable4 pages (dest + 4 * i)) \<Longrightarrow> stosl pages m dest c n = (rep_stosl m dest c n, 0, 0)"
proof (induction n arbitrary: m dest)
  case (Suc n)
  from Suc.prems have "writable4 pages dest" by auto
  moreover have "\<forall>i<n. writable4 pages (dest + 4 + 4 * i)"
    using Suc.prems by (metis Suc_less_eq add.assoc mult_Suc_right)
  ultimately show ?case using Suc.IH [of "dest + 4"] by simp
qed simp

lemma expand_c_eq: "expand_c c = explode_byte (word_of_int c)"
  by (simp add: expand_c_def explode_byte_def Let_def push_bit_or ac_simps)

theorem memset_user_leaves_tail:
  assumes "dest mod 4 = 0" and "12 \<le> n" and "is_user_range dest n"
    and "\<forall>i. writable pages (dest + i)"
  shows "memset_user pages m dest c n = (memset m dest (word_of_int c) (n - n mod 4), True)"
proof -
  have "\<forall>i<n div 4. writable4 pages (dest + 4 * i)"
    using assms(4) by (simp only: writable4_def add.assoc simp_thms)
  from stosl_writable [OF this] have "stosl pages m dest (expand_c c) (n div 4) =
      (memset m dest (word_of_int c) (n - n mod 4), 0, 0)"
    by (simp add: expand_c_eq rep_stosl_apply minus_mod_eq_mult_div)
  with assms show ?thesis by (simp add: memset_user_def safe_memset_def Let_def)
qed

end
