(* ===== verification/User_Buffer.thy ===== *)
theory User_Buffer
  imports Safe_Mem
begin

text \<open>
  \<^verbatim>\<open>Kernel/UserOrKernelBuffer.h\<close> and \<^verbatim>\<open>.cpp\<close>: a buffer is its address, 0 for a null pointer, and an
  address below the kernel is one of user memory.  The buffered transfers take their callback as an
  argument; the stack buffer that they use is at the address \<open>stack\<close>.
\<close>

section \<open>Operations\<close>

abbreviation (input) EFAULT :: int where "EFAULT \<equiv> 14"

definition for_kernel_buffer :: "nat \<Rightarrow> nat res" where
  "for_kernel_buffer kernel_buffer =
     verify (kernel_buffer = 0 \<or> \<not> is_user_address kernel_buffer) (Inr kernel_buffer)"

definition for_user_buffer :: "nat \<Rightarrow> nat \<Rightarrow> nat option" where
  "for_user_buffer user_buffer n =
     (if user_buffer \<noteq> 0 \<and> \<not> is_user_range user_buffer n then None else Some user_buffer)"

definition is_kernel_buffer :: "nat \<Rightarrow> bool" where
  "is_kernel_buffer buffer \<longleftrightarrow> \<not> is_user_address buffer"

definition buffer_offset :: "nat \<Rightarrow> nat \<Rightarrow> nat res" where
  "buffer_offset buffer offset =
     (if buffer = 0 then Inr buffer
      else let offset_buffer = size_add buffer offset in
        verify (is_kernel_buffer offset_buffer = is_kernel_buffer buffer) (Inr offset_buffer))"

definition buffer_write ::
  "page_access \<Rightarrow> mem \<Rightarrow> nat \<Rightarrow> nat \<Rightarrow> nat \<Rightarrow> nat \<Rightarrow> (mem \<times> bool) res" where
  "buffer_write pages m buffer src offset len =
     (if buffer = 0 then Inr (m, False)
      else if is_user_address buffer then copy_to_user pages m (size_add buffer offset) src len
      else Inr (k_memcpy m (size_add buffer offset) src len, True))"

definition buffer_read ::
  "page_access \<Rightarrow> mem \<Rightarrow> nat \<Rightarrow> nat \<Rightarrow> nat \<Rightarrow> nat \<Rightarrow> (mem \<times> bool) res" where
  "buffer_read pages m buffer dest offset len =
     (if buffer = 0 then Inr (m, False)
      else if is_user_address buffer then copy_from_user pages m dest (size_add buffer offset) len
      else Inr (k_memcpy m dest (size_add buffer offset) len, True))"

definition buffer_memset ::
  "page_access \<Rightarrow> mem \<Rightarrow> nat \<Rightarrow> int \<Rightarrow> nat \<Rightarrow> nat \<Rightarrow> mem \<times> bool" where
  "buffer_memset pages m buffer val offset len =
     (if buffer = 0 then (m, False)
      else if is_user_address buffer then memset_user pages m (size_add buffer offset) val len
      else (k_memset m (size_add buffer offset) val len, True))"

text \<open>A null string is \<open>None\<close>; \<open>copy\<close> is the address of the storage of the new string.\<close>

definition copy_into_string ::
  "page_access \<Rightarrow> mem \<Rightarrow> nat \<Rightarrow> nat \<Rightarrow> nat \<Rightarrow> (mem \<times> 8 word list option) res" where
  "copy_into_string pages m buffer copy len =
     (if buffer = 0 then Inr (m, None)
      else if is_user_address buffer
        then bind_res (copy_from_user pages m copy buffer len)
          (\<lambda>(m, ok). Inr (m, if ok then Some (map m [copy..<copy + len]) else None))
        else Inr (m, Some (map m [buffer..<buffer + len])))"

text \<open>
  A callback of \<^verbatim>\<open>write_buffered\<close> gets a size, and returns what it stored in the buffer it was given
  and the number it returned.  Its own state is \<open>'s\<close>.
\<close>

type_synonym 's producer = "'s \<Rightarrow> nat \<Rightarrow> ('s \<times> 8 word list \<times> int) res"

function write_buffered_loop ::
  "page_access \<Rightarrow> nat \<Rightarrow> nat \<Rightarrow> nat \<Rightarrow> nat \<Rightarrow> 's producer \<Rightarrow> mem \<Rightarrow> 's \<Rightarrow> nat \<Rightarrow> (mem \<times> 's \<times> int) res" where
  "write_buffered_loop pages buffer_bytes stack buffer len f m s nwritten =
     (if nwritten < len \<and> 0 < buffer_bytes
      then
        let to_copy = min buffer_bytes (len - nwritten) in
        bind_res (f s to_copy) (\<lambda>(s, bytes, copied).
          let m = store_bytes m stack bytes in
          if copied < 0 then Inr (m, s, copied)
          else verify (nat copied \<le> to_copy)
            (bind_res (buffer_write pages m buffer stack nwritten (nat copied)) (\<lambda>(m, ok).
              if \<not> ok then Inr (m, s, - EFAULT)
              else if nat copied < to_copy then Inr (m, s, int (nwritten + nat copied))
              else write_buffered_loop pages buffer_bytes stack buffer len f m s (nwritten + nat copied))))
      else Inr (m, s, int nwritten))"
  by pat_completeness auto
termination
  by (relation "measure (\<lambda>(pages, buffer_bytes, stack, buffer, len, f, m, s, nwritten). len - nwritten)")
    (auto simp: min_def verify_def split: if_splits)

definition write_buffered ::
  "page_access \<Rightarrow> nat \<Rightarrow> nat \<Rightarrow> nat \<Rightarrow> nat \<Rightarrow> 's producer \<Rightarrow> mem \<Rightarrow> 's \<Rightarrow> (mem \<times> 's \<times> int) res" where
  "write_buffered pages buffer_bytes stack buffer len f m s =
     (if buffer = 0 then Inr (m, s, - EFAULT)
      else if is_kernel_buffer buffer
        then bind_res (f s len) (\<lambda>(s, bytes, r). Inr (store_bytes m buffer bytes, s, r))
        else write_buffered_loop pages buffer_bytes stack buffer len f m s 0)"

type_synonym 's consumer = "'s \<Rightarrow> 8 word list \<Rightarrow> ('s \<times> int) res"

function read_buffered_loop ::
  "page_access \<Rightarrow> nat \<Rightarrow> nat \<Rightarrow> nat \<Rightarrow> nat \<Rightarrow> 's consumer \<Rightarrow> mem \<Rightarrow> 's \<Rightarrow> nat \<Rightarrow> (mem \<times> 's \<times> int) res" where
  "read_buffered_loop pages buffer_bytes stack buffer len f m s nread =
     (if nread < len \<and> 0 < buffer_bytes
      then
        let to_copy = min buffer_bytes (len - nread) in
        bind_res (buffer_read pages m buffer stack nread to_copy) (\<lambda>(m, ok).
          if \<not> ok then Inr (m, s, - EFAULT)
          else bind_res (f s (map m [stack..<stack + to_copy])) (\<lambda>(s, copied).
            if copied < 0 then Inr (m, s, copied)
            else verify (nat copied \<le> to_copy)
              (if nat copied < to_copy then Inr (m, s, int (nread + nat copied))
               else read_buffered_loop pages buffer_bytes stack buffer len f m s (nread + nat copied))))
      else Inr (m, s, int nread))"
  by pat_completeness auto
termination
  by (relation "measure (\<lambda>(pages, buffer_bytes, stack, buffer, len, f, m, s, nread). len - nread)")
    (auto simp: min_def verify_def split: if_splits)

definition read_buffered ::
  "page_access \<Rightarrow> nat \<Rightarrow> nat \<Rightarrow> nat \<Rightarrow> nat \<Rightarrow> 's consumer \<Rightarrow> mem \<Rightarrow> 's \<Rightarrow> (mem \<times> 's \<times> int) res" where
  "read_buffered pages buffer_bytes stack buffer len f m s =
     (if buffer = 0 then Inr (m, s, - EFAULT)
      else if is_kernel_buffer buffer
        then bind_res (f s (map m [buffer..<buffer + len])) (\<lambda>(s, r). Inr (m, s, r))
        else read_buffered_loop pages buffer_bytes stack buffer len f m s 0)"

declare write_buffered_loop.simps [simp del] read_buffered_loop.simps [simp del]

section \<open>Facts\<close>

text \<open>
  The transfers between a caller's buffer and accessible kernel memory apart from it: the outcome
  and the frame.
\<close>

definition kernel_block :: "page_access \<Rightarrow> nat \<Rightarrow> nat \<Rightarrow> bool" where
  "kernel_block pages a n \<longleftrightarrow> 0xc0000000 \<le> a \<and> a + n < 2 ^ 32 \<and>
     (\<forall>i<n. readable pages (a + i) \<and> writable pages (a + i))"

lemma buffer_read_result:
  assumes "kernel_block pages dest n" and "data \<noteq> 0" and "data < 2 ^ 32" and "n < 2 ^ 32"
    and "apart data n dest n"
  shows "\<exists>m' ok. buffer_read pages m data dest 0 n = Inr (m', ok) \<and>
    (ok \<longrightarrow> (\<forall>i<n. m' (dest + i) = m (data + i))) \<and> (0xc0000000 \<le> data \<longrightarrow> ok) \<and>
    (\<forall>x. \<not> (dest \<le> x \<and> x < dest + n) \<longrightarrow> m' x = m x)"
proof (cases "is_user_address data")
  case True
  have "\<exists>m' ok. copy_from_user pages m dest data n = Inr (m', ok) \<and>
    (ok \<longleftrightarrow> data + n < 0xc0000000 \<and> (\<forall>i<n. readable pages (data + i))) \<and>
    (ok \<longrightarrow> (\<forall>i<n. m' (dest + i) = m (data + i))) \<and>
    (\<forall>x. \<not> (dest \<le> x \<and> x < dest + n) \<longrightarrow> m' x = m x)"
    by (rule copy_from_user_result) (use assms in \<open>auto simp: kernel_block_def\<close>)
  then obtain m' ok where "copy_from_user pages m dest data n = Inr (m', ok)"
    "ok \<longrightarrow> (\<forall>i<n. m' (dest + i) = m (data + i))"
    "\<forall>x. \<not> (dest \<le> x \<and> x < dest + n) \<longrightarrow> m' x = m x" by blast
  with True assms(2,3) show ?thesis
    by (intro exI [of _ m'] exI [of _ ok]) (simp add: buffer_read_def size_add_id is_user_address_def)
next
  case False
  have "k_memcpy m dest data n = memcpy m dest data n"
    using assms(5) by (intro k_memcpy_apply) (auto simp: apart_def)
  with False assms(2,3) show ?thesis
    by (intro exI [of _ "memcpy m dest data n"] exI [of _ True])
      (simp add: buffer_read_def size_add_id memcpy_apply)
qed

lemma buffer_write_result:
  assumes "kernel_block pages src n" and "data \<noteq> 0" and "data < 2 ^ 32" and "n < 2 ^ 32"
    and "apart data n src n"
  shows "\<exists>m' ok. buffer_write pages m data src 0 n = Inr (m', ok) \<and>
    (ok \<longrightarrow> (\<forall>i<n. m' (data + i) = m (src + i))) \<and> (0xc0000000 \<le> data \<longrightarrow> ok) \<and>
    (\<forall>x. \<not> (data \<le> x \<and> x < data + n) \<longrightarrow> m' x = m x)"
proof (cases "is_user_address data")
  case True
  have "\<exists>m' ok. copy_to_user pages m data src n = Inr (m', ok) \<and>
    (ok \<longleftrightarrow> data + n < 0xc0000000 \<and> (\<forall>i<n. writable pages (data + i))) \<and>
    (ok \<longrightarrow> (\<forall>i<n. m' (data + i) = m (src + i))) \<and>
    (\<forall>x. \<not> (data \<le> x \<and> x < data + n \<and> x < 0xc0000000) \<longrightarrow> m' x = m x)"
    by (rule copy_to_user_result) (use assms in \<open>auto simp: kernel_block_def\<close>)
  then obtain m' ok where "copy_to_user pages m data src n = Inr (m', ok)"
    "ok \<longrightarrow> (\<forall>i<n. m' (data + i) = m (src + i))"
    "\<forall>x. \<not> (data \<le> x \<and> x < data + n \<and> x < 0xc0000000) \<longrightarrow> m' x = m x" by blast
  with True assms(2,3) show ?thesis
    by (intro exI [of _ m'] exI [of _ ok]) (auto simp: buffer_write_def size_add_id is_user_address_def)
next
  case False
  have "k_memcpy m data src n = memcpy m data src n"
    using assms(5) by (intro k_memcpy_apply) (auto simp: apart_def)
  with False assms(2,3) show ?thesis
    by (intro exI [of _ "memcpy m data src n"] exI [of _ True])
      (simp add: buffer_write_def size_add_id memcpy_apply)
qed

end
