(* ===== verification/Double_Buffer.thy ===== *)
theory Double_Buffer
  imports User_Buffer
begin

text \<open>
  \<^verbatim>\<open>Kernel/DoubleBuffer.cpp\<close>, the byte queue behind FIFOs and sockets: two halves of one kernel
  buffer, one being filled while the other is drained.  The halves are byte memory; the pointers
  \<^verbatim>\<open>m_read_buffer\<close> and \<^verbatim>\<open>m_write_buffer\<close> say which half is which.  Each operation runs under
  \<^verbatim>\<open>m_lock\<close>, so it is one step.
\<close>

section \<open>Operations\<close>

record inner_buffer =
  buf_data :: nat
  buf_size :: nat

datatype half = Buffer1 | Buffer2

record double_buffer =
  m_write_buffer :: half
  m_read_buffer :: half
  m_buffer1 :: inner_buffer
  m_buffer2 :: inner_buffer
  m_storage_null :: bool
  m_unblock_callback :: bool
  m_capacity :: nat
  m_read_buffer_index :: nat
  m_space_for_writing :: nat
  m_empty :: bool

fun half_of :: "double_buffer \<Rightarrow> half \<Rightarrow> inner_buffer" where
  "half_of b Buffer1 = m_buffer1 b"
| "half_of b Buffer2 = m_buffer2 b"

fun set_half_size :: "half \<Rightarrow> nat \<Rightarrow> double_buffer \<Rightarrow> double_buffer" where
  "set_half_size Buffer1 n b = b\<lparr>m_buffer1 := (m_buffer1 b)\<lparr>buf_size := n\<rparr>\<rparr>"
| "set_half_size Buffer2 n b = b\<lparr>m_buffer2 := (m_buffer2 b)\<lparr>buf_size := n\<rparr>\<rparr>"

abbreviation write_half :: "double_buffer \<Rightarrow> inner_buffer" where
  "write_half b \<equiv> half_of b (m_write_buffer b)"

abbreviation read_half :: "double_buffer \<Rightarrow> inner_buffer" where
  "read_half b \<equiv> half_of b (m_read_buffer b)"

definition compute_lockfree_metadata :: "double_buffer \<Rightarrow> double_buffer" where
  "compute_lockfree_metadata b =
     b\<lparr>m_empty := (buf_size (read_half b) \<le> m_read_buffer_index b \<and> buf_size (write_half b) = 0),
       m_space_for_writing := size_sub (m_capacity b) (buf_size (write_half b))\<rparr>"

text \<open>\<open>storage\<close> is the address of the kernel buffer that the constructor allocates.\<close>

definition double_buffer_construct :: "nat \<Rightarrow> nat \<Rightarrow> double_buffer" where
  "double_buffer_construct storage capacity =
     \<lparr>m_write_buffer = Buffer1, m_read_buffer = Buffer2,
      m_buffer1 = \<lparr>buf_data = storage, buf_size = 0\<rparr>,
      m_buffer2 = \<lparr>buf_data = storage + capacity, buf_size = 0\<rparr>,
      m_storage_null = False, m_unblock_callback = False, m_capacity = capacity,
      m_read_buffer_index = 0, m_space_for_writing = capacity, m_empty = True\<rparr>"

definition set_unblock_callback :: "double_buffer \<Rightarrow> double_buffer res" where
  "set_unblock_callback b = verify (\<not> m_unblock_callback b) (Inr (b\<lparr>m_unblock_callback := True\<rparr>))"

definition flip :: "double_buffer \<Rightarrow> double_buffer res" where
  "flip b =
     (if m_storage_null b then Inr b
      else verify (m_read_buffer_index b = buf_size (read_half b))
        (let b = b\<lparr>m_read_buffer := m_write_buffer b, m_write_buffer := m_read_buffer b\<rparr>;
             b = set_half_size (m_write_buffer b) 0 b;
             b = b\<lparr>m_read_buffer_index := 0\<rparr>
         in Inr (compute_lockfree_metadata b)))"

text \<open>
  The results of \<^verbatim>\<open>write\<close> and \<^verbatim>\<open>read\<close> are the memory, the buffer, the number returned and whether the
  callback was called.
\<close>

definition double_buffer_write ::
  "page_access \<Rightarrow> mem \<Rightarrow> double_buffer \<Rightarrow> nat \<Rightarrow> nat \<Rightarrow> (mem \<times> double_buffer \<times> int \<times> bool) res" where
  "double_buffer_write pages m b data n =
     (if n = 0 \<or> m_storage_null b then Inr (m, b, 0, False)
      else verify (0 < n)
        (let bytes_to_write = min n (m_space_for_writing b);
             write_ptr = buf_data (write_half b) + buf_size (write_half b);
             b = set_half_size (m_write_buffer b) (buf_size (write_half b) + bytes_to_write) b;
             b = compute_lockfree_metadata b
         in bind_res (buffer_read pages m data write_ptr 0 bytes_to_write) (\<lambda>(m, ok).
           if \<not> ok then Inr (m, b, - EFAULT, False)
           else Inr (m, b, int bytes_to_write, m_unblock_callback b \<and> \<not> m_empty b))))"

definition double_buffer_read ::
  "page_access \<Rightarrow> mem \<Rightarrow> double_buffer \<Rightarrow> nat \<Rightarrow> nat \<Rightarrow> (mem \<times> double_buffer \<times> int \<times> bool) res" where
  "double_buffer_read pages m b data n =
     (if n = 0 \<or> m_storage_null b then Inr (m, b, 0, False)
      else verify (0 < n)
        (bind_res
          (if buf_size (read_half b) \<le> m_read_buffer_index b \<and> buf_size (write_half b) \<noteq> 0
           then flip b else Inr b)
          (\<lambda>b.
            if buf_size (read_half b) \<le> m_read_buffer_index b then Inr (m, b, 0, False)
            else
              let nread = min (buf_size (read_half b) - m_read_buffer_index b) n in
              bind_res (buffer_write pages m data (buf_data (read_half b) + m_read_buffer_index b) 0 nread)
                (\<lambda>(m, ok).
                  if \<not> ok then Inr (m, b, - EFAULT, False)
                  else
                    let b = b\<lparr>m_read_buffer_index := m_read_buffer_index b + nread\<rparr>;
                        b = compute_lockfree_metadata b
                    in Inr (m, b, int nread, m_unblock_callback b \<and> 0 < m_space_for_writing b)))))"

section \<open>A lossless channel\<close>

text \<open>
  What the clients of the buffer rely on: every step keeps the invariant and moves bytes without
  losing, inventing or reordering any.  \<open>step s ins outs s'\<close> is a step that takes the bytes \<open>ins\<close> in
  and gives the bytes \<open>outs\<close> out.
\<close>

inductive channel_run ::
  "('s \<Rightarrow> 8 word list \<Rightarrow> 8 word list \<Rightarrow> 's \<Rightarrow> bool) \<Rightarrow> 's \<Rightarrow> 8 word list \<Rightarrow> 8 word list \<Rightarrow> 's \<Rightarrow> bool"
  for step where
  run_none: "channel_run step s [] [] s"
| run_step: "channel_run step s ins outs s' \<Longrightarrow> step s' i ou s'' \<Longrightarrow>
     channel_run step s (ins @ i) (outs @ ou) s''"

locale lossless_channel =
  fixes invar :: "'s \<Rightarrow> bool"
    and contents :: "'s \<Rightarrow> 8 word list"
    and step :: "'s \<Rightarrow> 8 word list \<Rightarrow> 8 word list \<Rightarrow> 's \<Rightarrow> bool"
  assumes step_invar: "step s ins outs s' \<Longrightarrow> invar s \<Longrightarrow> invar s'"
    and step_lossless: "step s ins outs s' \<Longrightarrow> invar s \<Longrightarrow> contents s @ ins = outs @ contents s'"
begin

lemma run_lossless:
  "channel_run step s ins outs s' \<Longrightarrow> invar s \<Longrightarrow> invar s' \<and> contents s @ ins = outs @ contents s'"
proof (induction rule: channel_run.induct)
  case (run_step s ins outs s' i ou s'')
  then have "contents s @ ins @ i = outs @ contents s' @ i" by simp
  with run_step step_invar step_lossless [of s' i ou s''] show ?case by auto
qed simp

lemma run_in_order:
  assumes "channel_run step s ins outs s'" and "invar s" and "contents s = []"
  shows "prefix outs ins" and "contents s' = drop (length outs) ins"
  using run_lossless [OF assms(1,2)] assms(3) by auto

end

section \<open>The buffer is one\<close>

definition db_contents :: "mem \<Rightarrow> double_buffer \<Rightarrow> 8 word list" where
  "db_contents m b =
     map m [buf_data (read_half b) + m_read_buffer_index b..<buf_data (read_half b) + buf_size (read_half b)] @
     map m [buf_data (write_half b)..<buf_data (write_half b) + buf_size (write_half b)]"

definition db_ok :: "page_access \<Rightarrow> double_buffer \<Rightarrow> bool" where
  "db_ok pages b \<longleftrightarrow>
     \<not> m_storage_null b \<and> m_read_buffer b \<noteq> m_write_buffer b \<and>
     buf_data (m_buffer2 b) = buf_data (m_buffer1 b) + m_capacity b \<and>
     kernel_block pages (buf_data (m_buffer1 b)) (2 * m_capacity b) \<and>
     buf_size (read_half b) \<le> m_capacity b \<and> buf_size (write_half b) \<le> m_capacity b \<and>
     m_read_buffer_index b \<le> buf_size (read_half b) \<and>
     m_space_for_writing b = m_capacity b - buf_size (write_half b) \<and>
     m_empty b = (m_read_buffer_index b = buf_size (read_half b) \<and> buf_size (write_half b) = 0)"

lemma half_of_set_half_size [simp]:
  "half_of (set_half_size h n b) h' = (if h = h' then (half_of b h)\<lparr>buf_size := n\<rparr> else half_of b h')"
  by (cases h; cases h') simp_all

lemma half_of_updates [simp]:
  "half_of (b\<lparr>m_read_buffer := r\<rparr>) h = half_of b h"
  "half_of (b\<lparr>m_write_buffer := w\<rparr>) h = half_of b h"
  "half_of (b\<lparr>m_read_buffer_index := i\<rparr>) h = half_of b h"
  "half_of (b\<lparr>m_empty := e\<rparr>) h = half_of b h"
  "half_of (b\<lparr>m_space_for_writing := n\<rparr>) h = half_of b h"
  by (cases h; simp)+

lemma set_half_size_fields [simp]:
  "m_read_buffer (set_half_size h n b) = m_read_buffer b"
  "m_write_buffer (set_half_size h n b) = m_write_buffer b"
  "m_read_buffer_index (set_half_size h n b) = m_read_buffer_index b"
  "m_capacity (set_half_size h n b) = m_capacity b"
  "m_storage_null (set_half_size h n b) = m_storage_null b"
  "m_unblock_callback (set_half_size h n b) = m_unblock_callback b"
  "buf_data (m_buffer1 (set_half_size h n b)) = buf_data (m_buffer1 b)"
  "buf_data (m_buffer2 (set_half_size h n b)) = buf_data (m_buffer2 b)"
  by (cases h; simp)+

lemma kernel_block_sub:
  "kernel_block pages a n \<Longrightarrow> a \<le> c \<Longrightarrow> c + k \<le> a + n \<Longrightarrow> kernel_block pages c k"
  unfolding kernel_block_def
  by (auto simp: le_iff_add add.assoc)

text \<open>The two halves do not overlap, and lie in the storage.\<close>

lemma db_ok_halves:
  assumes "db_ok pages b"
  shows "buf_data (m_buffer1 b) \<le> buf_data (half_of b h)"
    and "buf_data (half_of b h) + m_capacity b \<le> buf_data (m_buffer1 b) + 2 * m_capacity b"
    and "apart (buf_data (read_half b)) (m_capacity b) (buf_data (write_half b)) (m_capacity b)"
  using assms
  by (cases h; cases "m_read_buffer b"; cases "m_write_buffer b"; simp add: db_ok_def apart_def)+

definition caller_buffer :: "double_buffer \<Rightarrow> nat \<Rightarrow> nat \<Rightarrow> bool" where
  "caller_buffer b data n \<longleftrightarrow> data \<noteq> 0 \<and> data < 2 ^ 32 \<and> n < 2 ^ 32 \<and>
     apart data n (buf_data (m_buffer1 b)) (2 * m_capacity b)"

lemma caller_buffer_apart:
  "caller_buffer b data n \<Longrightarrow> buf_data (m_buffer1 b) \<le> a \<Longrightarrow>
   a + k \<le> buf_data (m_buffer1 b) + 2 * m_capacity b \<Longrightarrow> k \<le> n \<Longrightarrow> apart data k a k"
  by (auto simp: caller_buffer_def apart_def)

lemma map_upt_frame: "(\<And>x. a \<le> x \<Longrightarrow> x < c \<Longrightarrow> m' x = m x) \<Longrightarrow> map m' [a..<c] = map m [a..<c]"
  by simp

lemma map_upt_shift: "(\<And>i. i < n \<Longrightarrow> m' (a + i) = m (c + i)) \<Longrightarrow> map m' [a..<a + n] = map m [c..<c + n]"
  by (simp add: list_eq_iff_nth_eq)

lemma write_result:
  assumes ok: "db_ok pages b" and "caller_buffer b data n" and "0 < n"
  defines "k \<equiv> min n (m_space_for_writing b)"
  shows "\<exists>m' b' ok. double_buffer_write pages m b data n =
      Inr (m', b', if ok then int k else - EFAULT, ok \<and> m_unblock_callback b \<and> \<not> m_empty b') \<and>
    db_ok pages b' \<and> (ok \<longrightarrow> db_contents m' b' = db_contents m b @ map m [data..<data + k]) \<and>
    (0xc0000000 \<le> data \<longrightarrow> ok) \<and> m_capacity b' = m_capacity b"
proof -
  let ?w = "write_half b" and ?r = "read_half b"
  let ?p = "buf_data ?w + buf_size ?w"
  define b' where "b' = compute_lockfree_metadata (set_half_size (m_write_buffer b) (buf_size ?w + k) b)"
  note inv = ok [unfolded db_ok_def]
  have k: "k \<le> n" "buf_size ?w + k \<le> m_capacity b" using inv by (auto simp: k_def)
  note halves = db_ok_halves [OF ok]
  have "kernel_block pages ?p k"
    using inv k halves(1,2) [of "m_write_buffer b"] by (auto intro: kernel_block_sub)
  moreover have "apart data k ?p k"
    using assms(2) k halves(1,2) [of "m_write_buffer b"] by (auto intro: caller_buffer_apart)
  ultimately obtain m' ok' where m': "buffer_read pages m data ?p 0 k = Inr (m', ok')"
    "ok' \<longrightarrow> (\<forall>i<k. m' (?p + i) = m (data + i))" "0xc0000000 \<le> data \<longrightarrow> ok'"
    "\<forall>x. \<not> (?p \<le> x \<and> x < ?p + k) \<longrightarrow> m' x = m x"
    using buffer_read_result [of pages ?p k data m] assms(2) k by (auto simp: caller_buffer_def)
  have "double_buffer_write pages m b data n =
      Inr (m', b', if ok' then int k else - EFAULT, ok' \<and> m_unblock_callback b \<and> \<not> m_empty b')"
    using inv assms(3) m'(1)
    by (simp add: double_buffer_write_def Let_def b'_def k_def compute_lockfree_metadata_def)
  moreover have "db_ok pages b'"
    using inv k by (auto simp: db_ok_def b'_def compute_lockfree_metadata_def size_sub_id kernel_block_def)
  moreover have "db_contents m' b' = db_contents m b @ map m [data..<data + k]" if ok'
  proof -
    have "map m' [?p..<?p + k] = map m [data..<data + k]"
      using m'(2) that by (intro map_upt_shift) simp
    moreover have "map m' [buf_data ?w..<?p] = map m [buf_data ?w..<?p]"
      using m'(4) by (intro map_upt_frame) auto
    moreover have "map m' [buf_data ?r + m_read_buffer_index b..<buf_data ?r + buf_size ?r] =
        map m [buf_data ?r + m_read_buffer_index b..<buf_data ?r + buf_size ?r]"
      using m'(4) halves(3) inv k by (intro map_upt_frame) (auto simp: apart_def)
    moreover have "[buf_data ?w..<buf_data ?w + (buf_size ?w + k)] = [buf_data ?w..<?p] @ [?p..<?p + k]"
      using upt_add_eq_append [of "buf_data ?w" ?p k] by (simp add: add.assoc)
    moreover have "m_write_buffer b \<noteq> m_read_buffer b" using inv by metis
    ultimately show ?thesis
      by (simp add: db_contents_def b'_def compute_lockfree_metadata_def)
  qed
  moreover have "m_capacity b' = m_capacity b" by (simp add: b'_def compute_lockfree_metadata_def)
  ultimately show ?thesis using m'(3) by blast
qed

lemma flip_result:
  assumes "db_ok pages b" and "buf_size (read_half b) \<le> m_read_buffer_index b"
  shows "\<exists>b'. flip b = Inr b' \<and> db_ok pages b' \<and> db_contents m b' = db_contents m b \<and>
    buf_size (read_half b') = buf_size (write_half b) \<and> m_read_buffer_index b' = 0 \<and>
    m_capacity b' = m_capacity b \<and> buf_data (m_buffer1 b') = buf_data (m_buffer1 b) \<and>
    m_unblock_callback b' = m_unblock_callback b"
proof -
  note inv = assms(1) [unfolded db_ok_def]
  have "m_write_buffer b \<noteq> m_read_buffer b" "m_read_buffer_index b = buf_size (read_half b)"
    using inv assms(2) by (metis, simp)
  with inv show ?thesis
    by (auto simp: flip_def Let_def db_ok_def db_contents_def compute_lockfree_metadata_def size_sub_id
        kernel_block_def)
qed

lemma advance_ok:
  assumes "db_ok pages b" and "m_read_buffer_index b + k \<le> buf_size (read_half b)"
  shows "db_ok pages (compute_lockfree_metadata (b\<lparr>m_read_buffer_index := m_read_buffer_index b + k\<rparr>))"
proof -
  have "size_sub (m_capacity b) (buf_size (write_half b)) = m_capacity b - buf_size (write_half b)"
    using assms(1) by (intro size_sub_id) (auto simp: db_ok_def kernel_block_def)
  moreover have "buf_size (read_half b) \<le> m_read_buffer_index b + k \<longleftrightarrow> m_read_buffer_index b + k = buf_size (read_half b)"
    using assms(2) by auto
  ultimately show ?thesis using assms unfolding db_ok_def compute_lockfree_metadata_def by simp
qed

lemma read_nonempty_result:
  assumes ok: "db_ok pages b" and "caller_buffer b data n"
    and "m_read_buffer_index b < buf_size (read_half b)"
  defines "k \<equiv> min (buf_size (read_half b) - m_read_buffer_index b) n"
  shows "\<exists>m' ok. buffer_write pages m data (buf_data (read_half b) + m_read_buffer_index b) 0 k = Inr (m', ok) \<and>
    (0xc0000000 \<le> data \<longrightarrow> ok) \<and> db_contents m' b = db_contents m b \<and>
    (let b' = compute_lockfree_metadata (b\<lparr>m_read_buffer_index := m_read_buffer_index b + k\<rparr>) in
       db_ok pages b' \<and> (ok \<longrightarrow> db_contents m b = map m' [data..<data + k] @ db_contents m' b'))"
proof -
  let ?w = "write_half b" and ?r = "read_half b"
  let ?p = "buf_data ?r + m_read_buffer_index b"
  note inv = ok [unfolded db_ok_def]
  note halves = db_ok_halves [OF ok]
  have k: "k \<le> n" "m_read_buffer_index b + k \<le> buf_size ?r" using assms(3) by (auto simp: k_def)
  have "kernel_block pages ?p k"
    using inv k halves(1,2) [of "m_read_buffer b"] by (auto intro: kernel_block_sub)
  moreover have "apart data k ?p k"
    using assms(2) k inv halves(1,2) [of "m_read_buffer b"] by (auto intro: caller_buffer_apart)
  ultimately obtain m' ok' where m': "buffer_write pages m data ?p 0 k = Inr (m', ok')"
    "ok' \<longrightarrow> (\<forall>i<k. m' (data + i) = m (?p + i))" "0xc0000000 \<le> data \<longrightarrow> ok'"
    "\<forall>x. \<not> (data \<le> x \<and> x < data + k) \<longrightarrow> m' x = m x"
    using buffer_write_result [of pages ?p k data m] assms(2) k by (auto simp: caller_buffer_def)
  have storage: "m' x = m x"
    if "buf_data (m_buffer1 b) \<le> x" "x < buf_data (m_buffer1 b) + 2 * m_capacity b" for x
    using m'(4) that assms(2) k(1) by (auto simp: caller_buffer_def apart_def)
  have same: "map m' [a..<c] = map m [a..<c]"
    if "buf_data (half_of b h) \<le> a" "c \<le> buf_data (half_of b h) + m_capacity b" for a c h
    using that halves(1,2) [of h] by (intro map_upt_frame storage) auto
  have rest: "map m' [?p + j..<buf_data ?r + buf_size ?r] = map m [?p + j..<buf_data ?r + buf_size ?r]" for j
    by (rule same [of "m_read_buffer b"]) (use inv in auto)
  have filled: "map m' [buf_data ?w..<buf_data ?w + buf_size ?w] = map m [buf_data ?w..<buf_data ?w + buf_size ?w]"
    by (rule same [of "m_write_buffer b"]) (use inv in auto)
  have "db_contents m' b = db_contents m b"
    unfolding db_contents_def rest [of 0, unfolded add_0_right] filled by (rule refl)
  moreover have "db_ok pages (compute_lockfree_metadata (b\<lparr>m_read_buffer_index := m_read_buffer_index b + k\<rparr>))"
    by (rule advance_ok [OF ok k(2)])
  moreover have "db_contents m b = map m' [data..<data + k] @
      db_contents m' (compute_lockfree_metadata (b\<lparr>m_read_buffer_index := m_read_buffer_index b + k\<rparr>))" if ok'
  proof -
    have "map m' [data..<data + k] = map m [?p..<?p + k]"
      using m'(2) that by (intro map_upt_shift) simp
    moreover have "[?p..<buf_data ?r + buf_size ?r] = [?p..<?p + k] @ [?p + k..<buf_data ?r + buf_size ?r]"
      using k upt_add_eq_append [of ?p "?p + k" "buf_size ?r - (m_read_buffer_index b + k)"] by simp
    moreover have "db_contents m' (compute_lockfree_metadata (b\<lparr>m_read_buffer_index := m_read_buffer_index b + k\<rparr>)) =
        map m [?p + k..<buf_data ?r + buf_size ?r] @ map m [buf_data ?w..<buf_data ?w + buf_size ?w]"
      unfolding rest [symmetric] filled [symmetric]
      by (simp add: db_contents_def compute_lockfree_metadata_def add.assoc del: map_eq_conv)
    ultimately show ?thesis by (simp add: db_contents_def del: map_eq_conv)
  qed
  ultimately show ?thesis using m'(1,3) unfolding Let_def by blast
qed

lemma read_result:
  assumes ok: "db_ok pages b" and "caller_buffer b data n" and "0 < n"
  shows "\<exists>m' b' r cb. double_buffer_read pages m b data n = Inr (m', b', r, cb) \<and> db_ok pages b' \<and>
    m_capacity b' = m_capacity b \<and>
    (if r < 0 then r = - EFAULT \<and> data < 0xc0000000 \<and> db_contents m' b' = db_contents m b
     else nat r \<le> n \<and> db_contents m b = map m' [data..<data + nat r] @ db_contents m' b' \<and>
       (r = 0 \<longrightarrow> db_contents m b = []))"
proof -
  note inv = ok [unfolded db_ok_def]
  let ?flips = "buf_size (read_half b) \<le> m_read_buffer_index b \<and> buf_size (write_half b) \<noteq> 0"
  obtain c where c: "(if ?flips then flip b else Inr b) = Inr c" "db_ok pages c"
    "db_contents m c = db_contents m b" "m_capacity c = m_capacity b"
    "buf_data (m_buffer1 c) = buf_data (m_buffer1 b)"
    "buf_size (read_half c) \<le> m_read_buffer_index c \<longrightarrow> db_contents m b = []"
  proof (cases ?flips)
    case True
    with flip_result [OF ok, of m] obtain c where "flip b = Inr c" "db_ok pages c"
      "db_contents m c = db_contents m b" "m_capacity c = m_capacity b"
      "buf_data (m_buffer1 c) = buf_data (m_buffer1 b)"
      "buf_size (read_half c) = buf_size (write_half b)" "m_read_buffer_index c = 0" by blast
    with True show ?thesis by (intro that [of c]) auto
  next
    case False
    with ok show ?thesis by (intro that [of b]) (auto simp: db_contents_def)
  qed
  have call: "double_buffer_read pages m b data n =
      (if buf_size (read_half c) \<le> m_read_buffer_index c then Inr (m, c, 0, False)
       else let nread = min (buf_size (read_half c) - m_read_buffer_index c) n in
         bind_res (buffer_write pages m data (buf_data (read_half c) + m_read_buffer_index c) 0 nread)
           (\<lambda>(m, ok). if \<not> ok then Inr (m, c, - EFAULT, False)
             else let b = c\<lparr>m_read_buffer_index := m_read_buffer_index c + nread\<rparr>;
                      b = compute_lockfree_metadata b
               in Inr (m, b, int nread, m_unblock_callback b \<and> 0 < m_space_for_writing b)))"
    using inv assms(3) c(1) by (simp add: double_buffer_read_def)
  show ?thesis
  proof (cases "buf_size (read_half c) \<le> m_read_buffer_index c")
    case True
    with call c show ?thesis by auto
  next
    case False
    have "caller_buffer c data n" using assms(2) c(4,5) by (simp add: caller_buffer_def)
    from read_nonempty_result [OF c(2) this, of m] False obtain m' ok' where m':
      "buffer_write pages m data (buf_data (read_half c) + m_read_buffer_index c) 0
         (min (buf_size (read_half c) - m_read_buffer_index c) n) = Inr (m', ok')"
      "0xc0000000 \<le> data \<longrightarrow> ok'" "db_contents m' c = db_contents m c"
      "let b' = compute_lockfree_metadata (c\<lparr>m_read_buffer_index :=
          m_read_buffer_index c + min (buf_size (read_half c) - m_read_buffer_index c) n\<rparr>)
       in db_ok pages b' \<and> (ok' \<longrightarrow> db_contents m c =
         map m' [data..<data + min (buf_size (read_half c) - m_read_buffer_index c) n] @ db_contents m' b')"
      by auto
    with call False c show ?thesis using assms(3)
      by (auto simp: Let_def compute_lockfree_metadata_def)
  qed
qed

text \<open>
  The steps of the buffer: writes and reads that return, and whatever else happens to memory outside
  the storage.  A write that faults is not a step of the channel.
\<close>

inductive db_step ::
  "page_access \<Rightarrow> mem \<times> double_buffer \<Rightarrow> 8 word list \<Rightarrow> 8 word list \<Rightarrow> mem \<times> double_buffer \<Rightarrow> bool"
  for pages where
  step_write: "double_buffer_write pages m b data n = Inr (m', b', r, cb) \<Longrightarrow> 0 \<le> r \<Longrightarrow>
     caller_buffer b data n \<Longrightarrow> db_step pages (m, b) (map m [data..<data + nat r]) [] (m', b')"
| step_read: "double_buffer_read pages m b data n = Inr (m', b', r, cb) \<Longrightarrow> 0 \<le> r \<Longrightarrow>
     caller_buffer b data n \<Longrightarrow> db_step pages (m, b) [] (map m' [data..<data + nat r]) (m', b')"
| step_read_fault: "double_buffer_read pages m b data n = Inr (m', b', r, cb) \<Longrightarrow> r < 0 \<Longrightarrow>
     caller_buffer b data n \<Longrightarrow> db_step pages (m, b) [] [] (m', b')"
| step_other: "(\<And>i. i < 2 * m_capacity b \<Longrightarrow> m' (buf_data (m_buffer1 b) + i) = m (buf_data (m_buffer1 b) + i)) \<Longrightarrow>
     db_step pages (m, b) [] [] (m', b)"

inductive_cases db_stepE: "db_step pages (m, b) ins outs s'"

lemma db_write_step:
  assumes "double_buffer_write pages m b data n = Inr (m', b', r, cb)" "0 \<le> r"
    "caller_buffer b data n" "db_ok pages b"
  shows "db_ok pages b' \<and> db_contents m' b' = db_contents m b @ map m [data..<data + nat r]"
proof (cases "n = 0")
  case True
  with assms show ?thesis by (simp add: double_buffer_write_def)
next
  case False
  with write_result [OF assms(4,3), of m] assms(1,2) show ?thesis by (auto split: if_splits)
qed

lemma db_read_step:
  assumes "double_buffer_read pages m b data n = Inr (m', b', r, cb)"
    "caller_buffer b data n" "db_ok pages b"
  shows "db_ok pages b' \<and> (if r < 0 then db_contents m' b' = db_contents m b
    else db_contents m b = map m' [data..<data + nat r] @ db_contents m' b')"
proof (cases "n = 0")
  case True
  with assms show ?thesis by (simp add: double_buffer_read_def)
next
  case False
  with read_result [OF assms(3,2), of m] assms(1) show ?thesis by (auto split: if_splits)
qed

lemma db_other_step:
  assumes "db_ok pages b"
    and "\<And>i. i < 2 * m_capacity b \<Longrightarrow> m' (buf_data (m_buffer1 b) + i) = m (buf_data (m_buffer1 b) + i)"
  shows "db_contents m' b = db_contents m b"
proof -
  note inv = assms(1) [unfolded db_ok_def]
  have frame: "m' x = m x"
    if "buf_data (half_of b h) \<le> x" "x < buf_data (half_of b h) + m_capacity b" for x h
    using that db_ok_halves(1,2) [OF assms(1), of h] assms(2) [of "x - buf_data (m_buffer1 b)"] by simp
  have "map m' [buf_data (read_half b) + m_read_buffer_index b..<buf_data (read_half b) + buf_size (read_half b)] =
      map m [buf_data (read_half b) + m_read_buffer_index b..<buf_data (read_half b) + buf_size (read_half b)]"
    by (rule map_upt_frame, rule frame [of "m_read_buffer b"]) (use inv in auto)
  moreover have "map m' [buf_data (write_half b)..<buf_data (write_half b) + buf_size (write_half b)] =
      map m [buf_data (write_half b)..<buf_data (write_half b) + buf_size (write_half b)]"
    by (rule map_upt_frame, rule frame [of "m_write_buffer b"]) (use inv in auto)
  ultimately show ?thesis unfolding db_contents_def by (simp only:)
qed

interpretation db: lossless_channel "\<lambda>(m, b). db_ok pages b" "\<lambda>(m, b). db_contents m b" "db_step pages"
  for pages
proof
  fix s ins outs s'
  assume step: "db_step pages s ins outs s'" and inv: "case s of (m, b) \<Rightarrow> db_ok pages b"
  obtain m b where s: "s = (m, b)" by (cases s)
  from inv s have ok: "db_ok pages b" by simp
  show "case s' of (m, b) \<Rightarrow> db_ok pages b"
    using step [unfolded s] by (elim db_stepE) (use ok db_write_step db_read_step in auto)
  show "(case s of (m, b) \<Rightarrow> db_contents m b) @ ins = outs @ (case s' of (m, b) \<Rightarrow> db_contents m b)"
    using step [unfolded s] unfolding s
    by (elim db_stepE) (use ok db_write_step db_read_step db_other_step in \<open>fastforce+\<close>)
qed

section \<open>Properties\<close>

lemma construct_ok:
  "kernel_block pages storage (2 * capacity) \<Longrightarrow> db_ok pages (double_buffer_construct storage capacity)"
  by (simp add: db_ok_def double_buffer_construct_def)

lemma construct_empty: "db_contents m (double_buffer_construct storage capacity) = []"
  by (simp add: db_contents_def double_buffer_construct_def)


abbreviation (input) all_pages :: page_access where
  "all_pages \<equiv> \<lparr>readable = \<lambda>_. True, writable = \<lambda>_. True\<rparr>"


text \<open>
  C22.  Progress: a read of at least one byte returns; it faults only for a user buffer, leaving the
  contents as they are, and it returns no byte only when the buffer is empty.  A write from a kernel
  buffer returns the number of bytes for which there was room.
\<close>

theorem double_buffer_progress:
  assumes "db_ok pages b" and "caller_buffer b data n" and "0 < n"
  shows "(\<exists>m' b' r cb. double_buffer_read pages m b data n = Inr (m', b', r, cb) \<and> db_ok pages b' \<and>
      (if r < 0 then r = - EFAULT \<and> is_user_address data \<and> db_contents m' b' = db_contents m b
       else r \<le> int n \<and> (r = 0 \<longrightarrow> db_contents m b = []))) \<and>
    (\<exists>m' b' r cb. double_buffer_write pages m b data n = Inr (m', b', r, cb) \<and> db_ok pages b' \<and>
      (\<not> is_user_address data \<longrightarrow> r = int (min n (m_space_for_writing b))))"
proof
  show "\<exists>m' b' r cb. double_buffer_read pages m b data n = Inr (m', b', r, cb) \<and> db_ok pages b' \<and>
      (if r < 0 then r = - EFAULT \<and> is_user_address data \<and> db_contents m' b' = db_contents m b
       else r \<le> int n \<and> (r = 0 \<longrightarrow> db_contents m b = []))"
    using read_result [OF assms, of m] by (fastforce simp: is_user_address_def split: if_splits)
  show "\<exists>m' b' r cb. double_buffer_write pages m b data n = Inr (m', b', r, cb) \<and> db_ok pages b' \<and>
      (\<not> is_user_address data \<longrightarrow> r = int (min n (m_space_for_writing b)))"
    using write_result [OF assms, of m] by (auto simp: is_user_address_def)
qed

theorem double_buffer_progress_witness:
  "\<exists>m' b' r cb. double_buffer_write all_pages (\<lambda>_. 7) (double_buffer_construct 0xc1000000 8) 0xc2000000 20 =
      Inr (m', b', r, cb) \<and> db_ok all_pages b' \<and>
     (\<not> is_user_address 0xc2000000 \<longrightarrow>
        r = int (min 20 (m_space_for_writing (double_buffer_construct 0xc1000000 8))))"
proof (rule double_buffer_progress [THEN conjunct2])
  show "db_ok all_pages (double_buffer_construct 0xc1000000 8)"
    by (rule construct_ok) (simp add: kernel_block_def)
qed (simp_all add: caller_buffer_def apart_def double_buffer_construct_def)

text \<open>
  A write that faults has already grown the buffer: it returns \<^verbatim>\<open>-EFAULT\<close>, and the reader then gets as
  many bytes of stale storage as the writer offered.
\<close>

theorem faulting_write_grows_the_buffer:
  assumes "db_ok pages b" and "0 < n"
    and "double_buffer_write pages m b data n = Inr (m', b', - EFAULT, cb)"
  shows "length (db_contents m' b') = length (db_contents m b) + min n (m_space_for_writing b)"
proof -
  let ?k = "min n (m_space_for_writing b)"
  let ?b' = "compute_lockfree_metadata (set_half_size (m_write_buffer b) (buf_size (write_half b) + ?k) b)"
  have "\<not> m_storage_null b" using assms(1) by (simp add: db_ok_def)
  with assms(2,3) obtain x where "(case x of (m1, ok) \<Rightarrow> if \<not> ok then Inr (m1, ?b', - EFAULT, False)
      else Inr (m1, ?b', int ?k, m_unblock_callback ?b' \<and> \<not> m_empty ?b')) = (Inr (m', b', - EFAULT, cb) :: _ res)"
    by (auto simp: double_buffer_write_def Let_def bind_res_Inr_iff)
  then have "b' = ?b'" by (simp split: prod.splits if_splits)
  moreover have "m_read_buffer b \<noteq> m_write_buffer b" using assms(1) by (simp add: db_ok_def)
  ultimately show ?thesis by (simp add: db_contents_def compute_lockfree_metadata_def)
qed

end
