(* ===== verification/Circular_Queue.thy ===== *)
theory Circular_Queue
  imports Memory "HOL-Library.Monad_Syntax"
begin

text \<open>
  \<^verbatim>\<open>AK/CircularQueue.h\<close> and \<^verbatim>\<open>AK/CircularDeque.h\<close>: a ring of \<^verbatim>\<open>Capacity\<close> slots, the length of the storage,
  of which \<^verbatim>\<open>m_size\<close> from \<^verbatim>\<open>m_head\<close> on are in use.  A full queue drops its oldest element on
  \<^verbatim>\<open>enqueue\<close> and its newest on \<^verbatim>\<open>enqueue_begin\<close>.
\<close>

section \<open>Operations\<close>

record 'a circular_queue =
  cq_elements :: "'a list"
  cq_size :: nat
  cq_head :: nat

definition cq_capacity :: "'a circular_queue \<Rightarrow> nat" where
  "cq_capacity q = length (cq_elements q)"

definition cq_construct :: "'a list \<Rightarrow> 'a circular_queue" where
  "cq_construct storage = \<lparr>cq_elements = storage, cq_size = 0, cq_head = 0\<rparr>"

definition cq_clear :: "'a circular_queue \<Rightarrow> 'a circular_queue" where
  "cq_clear q = q\<lparr>cq_head := 0, cq_size := 0\<rparr>"

definition cq_is_empty :: "'a circular_queue \<Rightarrow> bool" where
  "cq_is_empty q \<longleftrightarrow> cq_size q = 0"

definition cq_enqueue :: "'a circular_queue \<Rightarrow> 'a \<Rightarrow> 'a circular_queue" where
  "cq_enqueue q val =
     (let q' = q\<lparr>cq_elements := (cq_elements q)[(cq_head q + cq_size q) mod cq_capacity q := val]\<rparr> in
      if cq_size q = cq_capacity q
      then q'\<lparr>cq_head := (cq_head q + 1) mod cq_capacity q\<rparr>
      else q'\<lparr>cq_size := cq_size q + 1\<rparr>)"

definition cq_dequeue :: "'a circular_queue \<Rightarrow> ('a \<times> 'a circular_queue) res" where
  "cq_dequeue q =
     verify (\<not> cq_is_empty q)
       (Inr (cq_elements q ! cq_head q,
             q\<lparr>cq_head := (cq_head q + 1) mod cq_capacity q, cq_size := cq_size q - 1\<rparr>))"

definition cq_at :: "'a circular_queue \<Rightarrow> nat \<Rightarrow> 'a" where
  "cq_at q index = cq_elements q ! (size_add (cq_head q) index mod cq_capacity q)"

definition cq_first :: "'a circular_queue \<Rightarrow> 'a" where
  "cq_first q = cq_at q 0"

definition cq_last :: "'a circular_queue \<Rightarrow> 'a" where
  "cq_last q = cq_at q (size_sub (cq_size q) 1)"

definition cq_enqueue_begin :: "'a circular_queue \<Rightarrow> 'a \<Rightarrow> 'a circular_queue" where
  "cq_enqueue_begin q val =
     (let new_head = size_add (size_sub (cq_head q) 1) (cq_capacity q) mod cq_capacity q;
          q' = (if cq_size q = cq_capacity q then q else q\<lparr>cq_size := cq_size q + 1\<rparr>)
      in q'\<lparr>cq_elements := (cq_elements q)[new_head := val], cq_head := new_head\<rparr>)"

definition cq_dequeue_end :: "'a circular_queue \<Rightarrow> ('a \<times> 'a circular_queue) res" where
  "cq_dequeue_end q =
     verify (\<not> cq_is_empty q)
       (Inr (cq_elements q ! ((cq_head q + cq_size q - 1) mod cq_capacity q),
             q\<lparr>cq_size := cq_size q - 1\<rparr>))"

text \<open>
  The iterator from \<^verbatim>\<open>begin()\<close> to \<^verbatim>\<open>end()\<close>: it compares the slot index with \<^verbatim>\<open>m_size\<close>, and jumps there
  when it has come round to the head.
\<close>

definition cq_next :: "'a circular_queue \<Rightarrow> nat \<Rightarrow> nat" where
  "cq_next q index =
     (let index = (index + 1) mod cq_capacity q in if index = cq_head q then cq_size q else index)"

partial_function (option) cq_iterate_from :: "'a circular_queue \<Rightarrow> nat \<Rightarrow> 'a list option" where
  "cq_iterate_from q index =
     (if index = cq_size q then Some []
      else do { xs \<leftarrow> cq_iterate_from q (cq_next q index); Some (cq_elements q ! index # xs) })"

definition cq_iterate :: "'a circular_queue \<Rightarrow> 'a list option" where
  "cq_iterate q = cq_iterate_from q (cq_head q)"

section \<open>The contract of a bounded deque\<close>

text \<open>
  \<open>contents\<close> is the abstract list, oldest element first.  Removals are specified on the non-empty
  case only, which is the case their \<^verbatim>\<open>VERIFY\<close> admits.
\<close>

locale bounded_deque =
  fixes invar :: "'q \<Rightarrow> bool"
    and contents :: "'q \<Rightarrow> 'a list"
    and capacity :: "'q \<Rightarrow> nat"
    and clear :: "'q \<Rightarrow> 'q"
    and is_empty :: "'q \<Rightarrow> bool"
    and enqueue :: "'q \<Rightarrow> 'a \<Rightarrow> 'q"
    and dequeue :: "'q \<Rightarrow> ('a \<times> 'q) res"
    and newest :: "'q \<Rightarrow> 'a"
    and enqueue_begin :: "'q \<Rightarrow> 'a \<Rightarrow> 'q"
    and dequeue_end :: "'q \<Rightarrow> ('a \<times> 'q) res"
  assumes bounded: "invar q \<Longrightarrow> length (contents q) \<le> capacity q"
    and clear: "invar q \<Longrightarrow> invar (clear q) \<and> contents (clear q) = [] \<and> capacity (clear q) = capacity q"
    and is_empty: "invar q \<Longrightarrow> is_empty q \<longleftrightarrow> contents q = []"
    and enqueue: "invar q \<Longrightarrow> invar (enqueue q x) \<and> capacity (enqueue q x) = capacity q \<and>
      contents (enqueue q x) =
        (if length (contents q) = capacity q then tl (contents q) else contents q) @ [x]"
    and dequeue: "invar q \<Longrightarrow> contents q = x # xs \<Longrightarrow>
      \<exists>q'. dequeue q = Inr (x, q') \<and> invar q' \<and> contents q' = xs \<and> capacity q' = capacity q"
    and newest: "invar q \<Longrightarrow> contents q \<noteq> [] \<Longrightarrow> newest q = last (contents q)"
    and enqueue_begin: "invar q \<Longrightarrow> invar (enqueue_begin q x) \<and>
      capacity (enqueue_begin q x) = capacity q \<and>
      contents (enqueue_begin q x) =
        x # (if length (contents q) = capacity q then butlast (contents q) else contents q)"
    and dequeue_end: "invar q \<Longrightarrow> contents q \<noteq> [] \<Longrightarrow>
      \<exists>q'. dequeue_end q = Inr (last (contents q), q') \<and> invar q' \<and>
        contents q' = butlast (contents q) \<and> capacity q' = capacity q"
begin

lemma dequeue_empty_or:
  assumes "invar q" and "dequeue q = Inr (x, q')" and "contents q \<noteq> []"
  shows "contents q = x # contents q'" and "invar q'"
  using dequeue [OF assms(1)] assms(2,3) by (cases "contents q"; force)+

text \<open>Of all that was ever put in at the end, the deque keeps the latest.\<close>

lemma enqueue_all:
  assumes "invar q" and "0 < capacity q"
  shows "invar (fold (\<lambda>x q. enqueue q x) xs q) \<and>
    capacity (fold (\<lambda>x q. enqueue q x) xs q) = capacity q \<and>
    contents (fold (\<lambda>x q. enqueue q x) xs q) =
      drop (length (contents q) + length xs - capacity q) (contents q @ xs)"
  using assms
proof (induction xs arbitrary: q)
  case Nil
  then show ?case using bounded by simp
next
  case (Cons x xs)
  from enqueue [OF Cons.prems(1), of x] have q: "invar (enqueue q x)" "capacity (enqueue q x) = capacity q"
    "contents (enqueue q x) = (if length (contents q) = capacity q then tl (contents q) else contents q) @ [x]"
    by auto
  have "drop (length (contents (enqueue q x)) + length xs - capacity q) (contents (enqueue q x) @ xs) =
      drop (length (contents q) + length (x # xs) - capacity q) (contents q @ x # xs)"
  proof (cases "length (contents q) = capacity q")
    case True
    with Cons.prems(2) show ?thesis by (cases "contents q") (simp_all add: q)
  next
    case False
    then show ?thesis by (simp add: q)
  qed
  with Cons.IH [OF q(1)] Cons.prems(2) show ?case by (simp add: q(2))
qed

text \<open>Putting an element in and taking it out at the same end restores a deque that was not full.\<close>

lemma enqueue_dequeue_end:
  assumes "invar q" and "length (contents q) < capacity q"
  shows "\<exists>q'. dequeue_end (enqueue q x) = Inr (x, q') \<and> contents q' = contents q"
  using dequeue_end [of "enqueue q x"] enqueue [OF assms(1), of x] assms(2) by auto

lemma enqueue_begin_dequeue:
  assumes "invar q" and "length (contents q) < capacity q"
  shows "\<exists>q'. dequeue (enqueue_begin q x) = Inr (x, q') \<and> contents q' = contents q"
  using dequeue [of "enqueue_begin q x"] enqueue_begin [OF assms(1), of x] assms(2) by auto

end

section \<open>The ring is one\<close>

definition cq_ok :: "'a circular_queue \<Rightarrow> bool" where
  "cq_ok q \<longleftrightarrow> 0 < cq_capacity q \<and> cq_capacity q < 2 ^ 31 \<and>
     cq_head q < cq_capacity q \<and> cq_size q \<le> cq_capacity q"

definition cq_list :: "'a circular_queue \<Rightarrow> 'a list" where
  "cq_list q = map (\<lambda>i. cq_elements q ! ((cq_head q + i) mod cq_capacity q)) [0..<cq_size q]"

lemma cq_capacity_updates [simp]:
  "cq_capacity (q\<lparr>cq_head := h\<rparr>) = cq_capacity q" "cq_capacity (q\<lparr>cq_size := n\<rparr>) = cq_capacity q"
  by (simp_all add: cq_capacity_def)

lemma cq_list_length [simp]: "length (cq_list q) = cq_size q"
  by (simp add: cq_list_def)

lemma cq_list_nth: "i < cq_size q \<Longrightarrow> cq_list q ! i = cq_elements q ! ((cq_head q + i) mod cq_capacity q)"
  by (simp add: cq_list_def)

lemma cq_list_nil [simp]: "cq_list q = [] \<longleftrightarrow> cq_size q = 0"
  by (simp add: cq_list_def)

text \<open>The slot at an offset from the head.\<close>

lemma slot: "h < c \<Longrightarrow> i \<le> c \<Longrightarrow> (h + i) mod c = (if h + i < c then h + i else h + i - (c::nat))"
  by (simp add: mod_if)

lemma slot_inj: "h < c \<Longrightarrow> i < c \<Longrightarrow> j < c \<Longrightarrow> (h + i) mod c = (h + j) mod c \<longleftrightarrow> i = (j::nat)"
  by (auto simp: slot split: if_splits)

lemma cq_list_eqI:
  "length xs = cq_size q \<Longrightarrow>
   (\<And>i. i < cq_size q \<Longrightarrow> cq_elements q ! ((cq_head q + i) mod cq_capacity q) = xs ! i) \<Longrightarrow>
   cq_list q = xs"
  by (rule nth_equalityI) (simp_all add: cq_list_nth)

lemma cq_enqueue_list:
  assumes "cq_ok q"
  shows "cq_ok (cq_enqueue q x) \<and> cq_capacity (cq_enqueue q x) = cq_capacity q \<and>
    cq_list (cq_enqueue q x) = (if cq_size q = cq_capacity q then tl (cq_list q) else cq_list q) @ [x]"
proof -
  let ?q = "cq_enqueue q x" and ?c = "cq_capacity q" and ?h = "cq_head q"
  have cap: "cq_capacity ?q = ?c" by (simp add: cq_enqueue_def cq_capacity_def Let_def)
  have c: "0 < ?c" "?h < ?c" "cq_size q \<le> ?c" "\<And>i. (?h + i) mod ?c < ?c" "?c = length (cq_elements q)"
    using assms by (auto simp: cq_ok_def cq_capacity_def)
  have ok: "cq_ok ?q" using assms cap by (auto simp: cq_ok_def cq_enqueue_def Let_def)
  have "cq_list ?q = (if cq_size q = ?c then tl (cq_list q) else cq_list q) @ [x]"
  proof (cases "cq_size q = ?c")
    case True
    then have q: "cq_elements ?q = (cq_elements q)[?h := x]" "cq_head ?q = (?h + 1) mod ?c" "cq_size ?q = ?c"
      using c(2) by (simp_all add: cq_enqueue_def Let_def)
    have "cq_elements ?q ! ((cq_head ?q + i) mod ?c) = (tl (cq_list q) @ [x]) ! i" if "i < ?c" for i
    proof -
      have slot: "(cq_head ?q + i) mod ?c = (?h + Suc i) mod ?c" by (simp add: q mod_add_left_eq)
      show ?thesis
      proof (cases "Suc i = ?c")
        case last: True
        then have "(?h + Suc i) mod ?c = ?h" using c(2) by simp
        with True last c(2,5) show ?thesis unfolding slot by (auto simp: q nth_append)
      next
        case False
        with that have i: "Suc i < ?c" "i < ?c - 1" by simp_all
        then have "(?h + Suc i) mod ?c \<noteq> ?h" using slot_inj [of ?h ?c "Suc i" 0] c(1,2) by simp
        with i show ?thesis using True unfolding slot by (simp add: q nth_append nth_tl cq_list_nth)
      qed
    qed
    then show ?thesis using True c(1) cap q(3) by (auto intro!: cq_list_eqI)
  next
    case False
    with c(3) have size: "cq_size q < ?c" by simp
    have "cq_elements ?q ! ((cq_head ?q + i) mod ?c) = (cq_list q @ [x]) ! i" if "i < Suc (cq_size q)" for i
      using False that size slot_inj [of ?h ?c i "cq_size q"] c
      by (auto simp: cq_enqueue_def Let_def nth_append cq_list_nth less_Suc_eq)
    then show ?thesis using False cap by (auto intro!: cq_list_eqI simp: cq_enqueue_def Let_def)
  qed
  with cap ok show ?thesis by blast
qed

lemma cq_dequeue_list:
  assumes "cq_ok q" and "cq_list q = x # xs"
  shows "\<exists>q'. cq_dequeue q = Inr (x, q') \<and> cq_ok q' \<and> cq_list q' = xs \<and> cq_capacity q' = cq_capacity q"
proof -
  let ?q = "q\<lparr>cq_head := (cq_head q + 1) mod cq_capacity q, cq_size := cq_size q - 1\<rparr>"
  have size: "cq_size q = Suc (length xs)" using arg_cong [OF assms(2), of length] by simp
  have cap: "cq_capacity ?q = cq_capacity q" by (simp add: cq_capacity_def)
  have "cq_list q ! 0 = x" using assms(2) by simp
  then have "cq_elements q ! cq_head q = x" using assms(1) size by (simp add: cq_list_nth cq_ok_def)
  then have "cq_dequeue q = Inr (x, ?q)" using size by (simp add: cq_dequeue_def cq_is_empty_def)
  moreover have "cq_ok ?q" using assms(1) cap by (auto simp: cq_ok_def)
  moreover have "cq_list ?q = tl (cq_list q)"
  proof (rule nth_equalityI)
    fix i assume "i < length (cq_list ?q)"
    with size assms(1) show "cq_list ?q ! i = tl (cq_list q) ! i"
      by (auto simp: cq_list_nth nth_tl mod_add_left_eq)
  qed (simp add: size)
  ultimately show ?thesis using assms(2) cap by auto
qed

lemma cq_at_list:
  assumes "cq_ok q" and "i < cq_size q"
  shows "cq_at q i = cq_list q ! i"
proof -
  have "size_add (cq_head q) i = cq_head q + i" using assms by (intro size_add_id) (auto simp: cq_ok_def)
  then show ?thesis using assms by (simp add: cq_list_nth cq_at_def)
qed

lemma cq_last_list:
  assumes "cq_ok q" and "cq_list q \<noteq> []"
  shows "cq_last q = last (cq_list q)"
proof -
  have "size_sub (cq_size q) 1 = cq_size q - 1" using assms by (intro size_sub_id) (auto simp: cq_ok_def)
  then show ?thesis using assms by (simp add: cq_last_def cq_at_list last_conv_nth)
qed

lemma cq_enqueue_begin_list:
  assumes "cq_ok q"
  shows "cq_ok (cq_enqueue_begin q x) \<and> cq_capacity (cq_enqueue_begin q x) = cq_capacity q \<and>
    cq_list (cq_enqueue_begin q x) =
      x # (if cq_size q = cq_capacity q then butlast (cq_list q) else cq_list q)"
proof -
  let ?q = "cq_enqueue_begin q x" and ?c = "cq_capacity q" and ?h = "cq_head q"
  have c: "0 < ?c" "?h < ?c" "cq_size q \<le> ?c" "?c < 2 ^ 31" "?c = length (cq_elements q)"
    using assms by (auto simp: cq_ok_def cq_capacity_def)
  have head: "size_add (size_sub ?h 1) ?c mod ?c = (?h + (?c - 1)) mod ?c"
  proof (cases "?h")
    case 0
    have "size_sub 0 1 = 2 ^ 32 - 1" by (simp add: size_sub_def)
    with 0 c show ?thesis by (simp add: size_add_def mod_if)
  next
    case (Suc h)
    with c show ?thesis by (simp add: size_sub_id size_add_id)
  qed
  let ?n = "(?h + (?c - 1)) mod ?c"
  have q: "cq_elements ?q = (cq_elements q)[?n := x]" "cq_head ?q = ?n"
    "cq_size ?q = (if cq_size q = ?c then ?c else Suc (cq_size q))"
    using head by (simp_all add: cq_enqueue_begin_def Let_def)
  have cap: "cq_capacity ?q = ?c" by (simp add: cq_capacity_def q)
  have ok: "cq_ok ?q" using assms cap by (auto simp: cq_ok_def q)
  have "cq_list ?q = x # (if cq_size q = ?c then butlast (cq_list q) else cq_list q)"
  proof (rule cq_list_eqI)
    show "length (x # (if cq_size q = ?c then butlast (cq_list q) else cq_list q)) = cq_size ?q"
      using c(1) by (simp add: q)
    fix i assume i: "i < cq_size ?q"
    show "cq_elements ?q ! ((cq_head ?q + i) mod cq_capacity ?q) =
        (x # (if cq_size q = ?c then butlast (cq_list q) else cq_list q)) ! i"
    proof (cases i)
      case 0
      with c show ?thesis by (simp add: q cap)
    next
      case (Suc j)
      have "?n + Suc j = ?n + 1 + j" by simp
      have "(?n + Suc j) mod ?c = (?h + (?c - 1) + Suc j) mod ?c" by (rule mod_add_left_eq)
      also have "?h + (?c - 1) + Suc j = ?h + j + ?c" using c(1) by simp
      finally have slot: "(?n + Suc j) mod ?c = (?h + j) mod ?c" by simp
      have j: "j < ?c - 1" "j < cq_size q" using i Suc c(3) by (auto simp: q split: if_splits)
      then have "(?h + j) mod ?c \<noteq> ?n" using slot_inj [of ?h ?c j "?c - 1"] c(2) by simp
      with Suc slot j i show ?thesis by (simp add: q cap cq_list_nth nth_butlast)
    qed
  qed
  with cap ok show ?thesis by blast
qed

lemma cq_dequeue_end_list:
  assumes "cq_ok q" and "cq_list q \<noteq> []"
  shows "\<exists>q'. cq_dequeue_end q = Inr (last (cq_list q), q') \<and> cq_ok q' \<and>
    cq_list q' = butlast (cq_list q) \<and> cq_capacity q' = cq_capacity q"
proof -
  let ?q = "q\<lparr>cq_size := cq_size q - 1\<rparr>"
  have cap: "cq_capacity ?q = cq_capacity q" by (simp add: cq_capacity_def)
  have "cq_dequeue_end q = Inr (last (cq_list q), ?q)"
    using assms by (simp add: cq_dequeue_end_def cq_is_empty_def last_conv_nth cq_list_nth)
  moreover have "cq_ok ?q" using assms(1) cap by (auto simp: cq_ok_def)
  moreover have "cq_list ?q = butlast (cq_list q)"
    using cap by (intro cq_list_eqI) (simp_all add: nth_butlast cq_list_nth)
  ultimately show ?thesis using cap by blast
qed

interpretation cq: bounded_deque cq_ok cq_list cq_capacity cq_clear cq_is_empty cq_enqueue cq_dequeue
  cq_last cq_enqueue_begin cq_dequeue_end
proof
  fix q :: "'a circular_queue" and x xs
  show "cq_ok q \<Longrightarrow> length (cq_list q) \<le> cq_capacity q" by (simp add: cq_ok_def)
  show "cq_ok q \<Longrightarrow> cq_ok (cq_clear q) \<and> cq_list (cq_clear q) = [] \<and> cq_capacity (cq_clear q) = cq_capacity q"
    by (simp add: cq_ok_def cq_clear_def cq_capacity_def)
  show "cq_ok q \<Longrightarrow> cq_is_empty q \<longleftrightarrow> cq_list q = []" by (simp add: cq_is_empty_def)
  show "cq_ok q \<Longrightarrow> cq_ok (cq_enqueue q x) \<and> cq_capacity (cq_enqueue q x) = cq_capacity q \<and>
      cq_list (cq_enqueue q x) =
        (if length (cq_list q) = cq_capacity q then tl (cq_list q) else cq_list q) @ [x]"
    using cq_enqueue_list [of q x] by simp
  show "cq_ok q \<Longrightarrow> cq_ok (cq_enqueue_begin q x) \<and> cq_capacity (cq_enqueue_begin q x) = cq_capacity q \<and>
      cq_list (cq_enqueue_begin q x) =
        x # (if length (cq_list q) = cq_capacity q then butlast (cq_list q) else cq_list q)"
    using cq_enqueue_begin_list [of q x] by simp
qed (fact cq_dequeue_list cq_last_list cq_dequeue_end_list)+

section \<open>Properties\<close>

text \<open>The operations as data, on the ring and on a list of at most \<open>c\<close> elements.\<close>

datatype 'a deque_op = Enqueue 'a | Enqueue_begin 'a | Dequeue | Dequeue_end | Clear

fun ring_op :: "'a deque_op \<Rightarrow> 'a circular_queue \<Rightarrow> ('a list \<times> 'a circular_queue) res" where
  "ring_op (Enqueue x) q = Inr ([], cq_enqueue q x)"
| "ring_op (Enqueue_begin x) q = Inr ([], cq_enqueue_begin q x)"
| "ring_op Dequeue q = bind_res (cq_dequeue q) (\<lambda>(x, q). Inr ([x], q))"
| "ring_op Dequeue_end q = bind_res (cq_dequeue_end q) (\<lambda>(x, q). Inr ([x], q))"
| "ring_op Clear q = Inr ([], cq_clear q)"

fun list_op :: "nat \<Rightarrow> 'a deque_op \<Rightarrow> 'a list \<Rightarrow> ('a list \<times> 'a list) res" where
  "list_op c (Enqueue x) xs = Inr ([], (if length xs = c then tl xs else xs) @ [x])"
| "list_op c (Enqueue_begin x) xs = Inr ([], x # (if length xs = c then butlast xs else xs))"
| "list_op c Dequeue xs = (if xs = [] then Inl Verify_failed else Inr ([hd xs], tl xs))"
| "list_op c Dequeue_end xs = (if xs = [] then Inl Verify_failed else Inr ([last xs], butlast xs))"
| "list_op c Clear xs = Inr ([], [])"

fun ring_run :: "'a deque_op list \<Rightarrow> 'a circular_queue \<Rightarrow> ('a list \<times> 'a circular_queue) res" where
  "ring_run [] q = Inr ([], q)"
| "ring_run (p # ps) q = bind_res (ring_op p q) (\<lambda>(out, q).
     bind_res (ring_run ps q) (\<lambda>(outs, q). Inr (out @ outs, q)))"

fun list_run :: "nat \<Rightarrow> 'a deque_op list \<Rightarrow> 'a list \<Rightarrow> ('a list \<times> 'a list) res" where
  "list_run c [] xs = Inr ([], xs)"
| "list_run c (p # ps) xs = bind_res (list_op c p xs) (\<lambda>(out, xs).
     bind_res (list_run c ps xs) (\<lambda>(outs, xs). Inr (out @ outs, xs)))"

definition ring_refines :: "nat \<Rightarrow> ('b \<times> 'a circular_queue) res \<Rightarrow> ('b \<times> 'a list) res \<Rightarrow> bool" where
  "ring_refines c r s \<longleftrightarrow>
     (case s of Inl e \<Rightarrow> r = Inl e
      | Inr (out, xs) \<Rightarrow> \<exists>q. r = Inr (out, q) \<and> cq_ok q \<and> cq_capacity q = c \<and> cq_list q = xs)"

lemma ring_op_refines:
  assumes "cq_ok q"
  shows "ring_refines (cq_capacity q) (ring_op p q) (list_op (cq_capacity q) p (cq_list q))"
proof (cases p)
  case Dequeue
  show ?thesis
  proof (cases "cq_list q")
    case Nil
    then show ?thesis using Dequeue by (simp add: ring_refines_def cq_dequeue_def cq_is_empty_def)
  next
    case (Cons x xs)
    from cq.dequeue [OF assms Cons] Cons Dequeue show ?thesis by (auto simp: ring_refines_def)
  qed
next
  case Dequeue_end
  show ?thesis
  proof (cases "cq_list q = []")
    case True
    then show ?thesis using Dequeue_end by (simp add: ring_refines_def cq_dequeue_end_def cq_is_empty_def)
  next
    case False
    from cq.dequeue_end [OF assms False] False Dequeue_end show ?thesis
      by (auto simp: ring_refines_def simp del: cq_list_nil)
  qed
qed (use cq.enqueue [OF assms] cq.enqueue_begin [OF assms] cq.clear [OF assms] in
    \<open>auto simp: ring_refines_def\<close>)

text \<open>
  C39.  Any sequence of operations on the ring, from any well-formed ring, does what it does on a
  bounded list: it returns the same elements, panics exactly when an element is removed from an
  empty list, and leaves a well-formed ring with the contents of the list.
\<close>

theorem circular_deque_refines:
  assumes "cq_ok q"
  shows "ring_refines (cq_capacity q) (ring_run ps q) (list_run (cq_capacity q) ps (cq_list q))"
  using assms
proof (induction ps arbitrary: q)
  case Nil
  then show ?case by (simp add: ring_refines_def)
next
  case (Cons p ps)
  let ?c = "cq_capacity q"
  have op: "ring_refines ?c (ring_op p q) (list_op ?c p (cq_list q))" by (rule ring_op_refines [OF Cons.prems])
  show ?case
  proof (cases "list_op ?c p (cq_list q)")
    case (Inl e)
    with op show ?thesis by (simp add: ring_refines_def)
  next
    case (Inr r)
    then obtain out xs where r: "list_op ?c p (cq_list q) = Inr (out, xs)" by (cases r) auto
    with op obtain q' where q': "ring_op p q = Inr (out, q')" "cq_ok q'" "cq_capacity q' = ?c" "cq_list q' = xs"
      by (auto simp: ring_refines_def)
    from Cons.IH [OF q'(2)] have "ring_refines ?c (ring_run ps q') (list_run ?c ps xs)"
      by (simp add: q')
    with r q'(1) show ?thesis
      by (auto simp: ring_refines_def bind_res_def split: sum.splits prod.splits)
  qed
qed

theorem circular_deque_refines_witness:
  "ring_refines (cq_capacity (cq_construct [0 :: nat, 0]))
     (ring_run [Enqueue 1, Enqueue 2, Enqueue 3, Dequeue_end] (cq_construct [0 :: nat, 0]))
     (list_run (cq_capacity (cq_construct [0 :: nat, 0]))
       [Enqueue 1, Enqueue 2, Enqueue 3, Dequeue_end] (cq_list (cq_construct [0, 0])))"
  by (rule circular_deque_refines) (simp add: cq_ok_def cq_construct_def cq_capacity_def)

text \<open>
  The iterator visits the contents when the head is the first slot; elsewhere it can stop early,
  since it takes a slot index for a count.
\<close>

theorem iterate_from_first_slot:
  assumes "cq_ok q" and "cq_head q = 0"
  shows "cq_iterate q = Some (cq_list q)"
proof -
  have "i \<le> cq_size q \<Longrightarrow> cq_iterate_from q i = Some (drop i (cq_list q))" for i
  proof (induction "cq_size q - i" arbitrary: i)
    case 0
    then show ?case by (simp add: cq_iterate_from.simps)
  next
    case (Suc n)
    then have i: "i < cq_size q" "i < cq_capacity q" using assms(1) by (auto simp: cq_ok_def)
    have "cq_next q i = Suc i"
    proof (cases "Suc i = cq_capacity q")
      case True
      then have "cq_size q = Suc i" using i(1) assms(1) by (auto simp: cq_ok_def)
      with True assms(2) show ?thesis by (simp add: cq_next_def)
    next
      case False
      with i(2) assms(2) show ?thesis by (simp add: cq_next_def)
    qed
    with Suc i assms(2) show ?case
      by (simp add: cq_iterate_from.simps [of q i] cq_list_nth Cons_nth_drop_Suc [symmetric, of i])
  qed
  from this [of 0] show ?thesis using assms(2) by (simp add: cq_iterate_def)
qed

theorem iterate_stops_early:
  "cq_iterate \<lparr>cq_elements = [a, b, c, d], cq_size = 2, cq_head = 1\<rparr> = Some [b] \<and>
   cq_list \<lparr>cq_elements = [a, b, c, d], cq_size = 2, cq_head = 1\<rparr> = [b, c]"
proof -
  let ?q = "\<lparr>cq_elements = [a, b, c, d], cq_size = 2, cq_head = 1\<rparr>"
  have "cq_iterate_from ?q 2 = Some []" by (subst cq_iterate_from.simps) simp
  moreover have "cq_next ?q 1 = 2" by (simp add: cq_next_def cq_capacity_def)
  ultimately have "cq_iterate_from ?q 1 = Some [b]" by (subst cq_iterate_from.simps) simp
  then show ?thesis by (simp add: cq_iterate_def cq_list_def cq_capacity_def numeral_2_eq_2)
qed

end
