(* ===== verification/TTY.thy ===== *)
theory TTY
  imports Circular_Queue User_Buffer
begin

text \<open>
  \<^verbatim>\<open>Kernel/TTY/TTY.cpp\<close>: the line discipline of a terminal.  What the terminal does to the outside,
  echoing through the device, sending signals and waking waiters, is a trace of events in its
  state; the process table that \<^verbatim>\<open>ioctl\<close> consults is an argument.
\<close>

section \<open>Operations\<close>

abbreviation (input) ISIG :: "32 word" where "ISIG \<equiv> 1"
abbreviation (input) ICANON :: "32 word" where "ICANON \<equiv> 2"
abbreviation (input) ECHO :: "32 word" where "ECHO \<equiv> 8"
abbreviation (input) NOFLSH :: "32 word" where "NOFLSH \<equiv> 128"
abbreviation (input) TOSTOP :: "32 word" where "TOSTOP \<equiv> 256"
abbreviation (input) INLCR :: "32 word" where "INLCR \<equiv> 64"
abbreviation (input) ICRNL :: "32 word" where "ICRNL \<equiv> 256"
abbreviation (input) OPOST :: "32 word" where "OPOST \<equiv> 1"
abbreviation (input) ONLCR :: "32 word" where "ONLCR \<equiv> 4"

abbreviation (input) VINTR :: nat where "VINTR \<equiv> 0"
abbreviation (input) VQUIT :: nat where "VQUIT \<equiv> 1"
abbreviation (input) VERASE :: nat where "VERASE \<equiv> 2"
abbreviation (input) VKILL :: nat where "VKILL \<equiv> 3"
abbreviation (input) VEOF :: nat where "VEOF \<equiv> 4"
abbreviation (input) VSUSP :: nat where "VSUSP \<equiv> 10"
abbreviation (input) VEOL :: nat where "VEOL \<equiv> 11"
abbreviation (input) VWERASE :: nat where "VWERASE \<equiv> 14"
abbreviation (input) VINFO :: nat where "VINFO \<equiv> 17"

abbreviation (input) SIGHUP :: nat where "SIGHUP \<equiv> 1"
abbreviation (input) SIGINT :: nat where "SIGINT \<equiv> 2"
abbreviation (input) SIGQUIT :: nat where "SIGQUIT \<equiv> 3"
abbreviation (input) SIGCHLD :: nat where "SIGCHLD \<equiv> 17"
abbreviation (input) SIGTSTP :: nat where "SIGTSTP \<equiv> 20"
abbreviation (input) SIGTTIN :: nat where "SIGTTIN \<equiv> 21"
abbreviation (input) SIGTTOU :: nat where "SIGTTOU \<equiv> 22"
abbreviation (input) SIGWINCH :: nat where "SIGWINCH \<equiv> 28"
abbreviation (input) SIGINFO :: nat where "SIGINFO \<equiv> 30"

abbreviation (input) newline :: "8 word" where "newline \<equiv> 10"
abbreviation (input) carriage_return :: "8 word" where "carriage_return \<equiv> 13"
abbreviation (input) space :: "8 word" where "space \<equiv> 32"

record termios =
  c_iflag :: "32 word"
  c_oflag :: "32 word"
  c_cflag :: "32 word"
  c_lflag :: "32 word"
  c_cc :: "8 word list"
  c_ispeed :: "32 word"
  c_ospeed :: "32 word"

text \<open>
  A signal goes to every process of the group, to the parent recorded with the group, or to the
  current process.
\<close>

datatype tty_event =
    Echo "8 word"
  | Tty_write "8 word list"
  | Evaluate_block_conditions
  | Signal_group int nat
  | Signal_parent int nat
  | Signal_current nat
  | Set_current_tty bool

record tty =
  m_available_lines :: int
  m_input_buffer :: "8 word circular_queue"
  m_original_process_parent :: "int option"
  m_pg :: "int option"
  m_termios :: termios
  m_rows :: nat
  m_columns :: nat
  m_trace :: "tty_event list"

definition event :: "tty_event \<Rightarrow> tty \<Rightarrow> tty" where
  "event e t = t\<lparr>m_trace := m_trace t @ [e]\<rparr>"

abbreviation cc :: "tty \<Rightarrow> nat \<Rightarrow> 8 word" where
  "cc t i \<equiv> c_cc (m_termios t) ! i"

abbreviation flag :: "32 word \<Rightarrow> 32 word \<Rightarrow> bool" where
  "flag flags f \<equiv> flags AND f \<noteq> 0"

definition pgid :: "tty \<Rightarrow> int" where
  "pgid t = (case m_pg t of None \<Rightarrow> 0 | Some g \<Rightarrow> g)"

definition should_generate_signals :: "tty \<Rightarrow> bool" where
  "should_generate_signals t \<longleftrightarrow> flag (c_lflag (m_termios t)) ISIG"

definition should_flush_on_signal :: "tty \<Rightarrow> bool" where
  "should_flush_on_signal t \<longleftrightarrow> \<not> flag (c_lflag (m_termios t)) NOFLSH"

definition in_canonical_mode :: "tty \<Rightarrow> bool" where
  "in_canonical_mode t \<longleftrightarrow> flag (c_lflag (m_termios t)) ICANON"

definition default_cc :: "8 word list" where
  "default_cc = [3, 28, 8, 21, 4, 0, 1, 0, 17, 19, 26, 0, 18, 15, 23, 22, 0, 20] @ replicate 14 0"

definition default_termios :: termios where
  "default_termios = \<lparr>c_iflag = 0, c_oflag = 0, c_cflag = 0, c_lflag = 0 OR (ISIG OR ECHO OR ICANON),
     c_cc = default_cc, c_ispeed = 0, c_ospeed = 0\<rparr>"

definition set_default_termios :: "tty \<Rightarrow> tty" where
  "set_default_termios t = t\<lparr>m_termios := default_termios\<rparr>"

definition tty_construct :: "8 word list \<Rightarrow> tty" where
  "tty_construct storage =
     \<lparr>m_available_lines = 0, m_input_buffer = cq_construct storage, m_original_process_parent = None,
      m_pg = None, m_termios = default_termios, m_rows = 0, m_columns = 0, m_trace = []\<rparr>"

definition can_read :: "tty \<Rightarrow> bool" where
  "can_read t \<longleftrightarrow>
     (if in_canonical_mode t then 0 < m_available_lines t else \<not> cq_is_empty (m_input_buffer t))"

definition is_eol :: "tty \<Rightarrow> 8 word \<Rightarrow> bool" where
  "is_eol t ch \<longleftrightarrow> ch = cc t VEOL"

definition is_eof :: "tty \<Rightarrow> 8 word \<Rightarrow> bool" where
  "is_eof t ch \<longleftrightarrow> ch = cc t VEOF"

definition is_kill :: "tty \<Rightarrow> 8 word \<Rightarrow> bool" where
  "is_kill t ch \<longleftrightarrow> ch = cc t VKILL"

definition is_erase :: "tty \<Rightarrow> 8 word \<Rightarrow> bool" where
  "is_erase t ch \<longleftrightarrow> ch = cc t VERASE"

definition is_werase :: "tty \<Rightarrow> 8 word \<Rightarrow> bool" where
  "is_werase t ch \<longleftrightarrow> ch = cc t VWERASE"

subsection \<open>Input\<close>

definition can_do_backspace :: "tty \<Rightarrow> bool" where
  "can_do_backspace t \<longleftrightarrow>
     \<not> cq_is_empty (m_input_buffer t) \<and> \<not> is_eol t (cq_last (m_input_buffer t)) \<and>
     cq_last (m_input_buffer t) \<noteq> 0"

definition drop_last :: "tty \<Rightarrow> tty res" where
  "drop_last t = bind_res (cq_dequeue_end (m_input_buffer t)) (\<lambda>(_, q). Inr (t\<lparr>m_input_buffer := q\<rparr>))"

definition do_backspace :: "tty \<Rightarrow> tty res" where
  "do_backspace t =
     (if can_do_backspace t
      then bind_res (drop_last t) (\<lambda>t.
        Inr (event Evaluate_block_conditions (event (Echo 8) (event (Echo space) (event (Echo 8) t)))))
      else Inr t)"

definition erase_character :: "tty \<Rightarrow> tty" where
  "erase_character t =
     event (Echo (cc t VERASE)) (event (Echo space) (event (Echo (cc t VERASE)) t))"

lemma drop_last_size: "drop_last t = Inr t' \<Longrightarrow> cq_size (m_input_buffer t') < cq_size (m_input_buffer t)"
  by (auto simp: drop_last_def bind_res_Inr_iff cq_dequeue_end_def cq_is_empty_def)

lemma erase_character_buffer [simp]: "m_input_buffer (erase_character t) = m_input_buffer t"
  by (simp add: erase_character_def event_def)

function erase_word_loop :: "tty \<Rightarrow> bool \<Rightarrow> bool \<Rightarrow> (tty \<times> bool) res" where
  "erase_word_loop t first_char did_dequeue =
     (if can_do_backspace t
      then
        let ch = cq_last (m_input_buffer t) in
        if ch = space \<and> first_char then Inr (t, did_dequeue)
        else bind_res (drop_last t) (\<lambda>t. erase_word_loop (erase_character t) (first_char \<or> ch \<noteq> space) True)
      else Inr (t, did_dequeue))"
  by pat_completeness auto
termination
  by (relation "measure (\<lambda>(t, _, _). cq_size (m_input_buffer t))") (auto dest: drop_last_size)

definition erase_word :: "tty \<Rightarrow> tty res" where
  "erase_word t =
     bind_res (erase_word_loop t False False) (\<lambda>(t, did_dequeue).
       Inr (if did_dequeue then event Evaluate_block_conditions t else t))"

function kill_line_loop :: "tty \<Rightarrow> bool \<Rightarrow> (tty \<times> bool) res" where
  "kill_line_loop t did_dequeue =
     (if can_do_backspace t
      then bind_res (drop_last t) (\<lambda>t. kill_line_loop (erase_character t) True)
      else Inr (t, did_dequeue))"
  by pat_completeness auto
termination
  by (relation "measure (\<lambda>(t, _). cq_size (m_input_buffer t))") (auto dest: drop_last_size)

definition kill_line :: "tty \<Rightarrow> tty res" where
  "kill_line t =
     bind_res (kill_line_loop t False) (\<lambda>(t, did_dequeue).
       Inr (if did_dequeue then event Evaluate_block_conditions t else t))"

declare erase_word_loop.simps [simp del] kill_line_loop.simps [simp del]

definition flush_input :: "tty \<Rightarrow> tty" where
  "flush_input t =
     event Evaluate_block_conditions
       (t\<lparr>m_available_lines := 0, m_input_buffer := cq_clear (m_input_buffer t)\<rparr>)"

definition generate_signal :: "nat \<Rightarrow> tty \<Rightarrow> tty" where
  "generate_signal sig t =
     (if pgid t = 0 then t
      else let t = (if should_flush_on_signal t then flush_input t else t)
        in event (Signal_group (pgid t) sig) t)"

definition hang_up :: "tty \<Rightarrow> tty" where
  "hang_up t = generate_signal SIGHUP t"

definition suspend :: "tty \<Rightarrow> tty" where
  "suspend t =
     (let t = generate_signal SIGTSTP t in
      case m_original_process_parent t of
        None \<Rightarrow> t | Some parent \<Rightarrow> event (Signal_parent parent SIGCHLD) t)"

text \<open>The part of \<^verbatim>\<open>emit\<close> that its scope guard covers.\<close>

definition emit_input :: "8 word \<Rightarrow> tty \<Rightarrow> tty res" where
  "emit_input ch t =
     (let put = (\<lambda>t. event (Echo ch) (t\<lparr>m_input_buffer := cq_enqueue (m_input_buffer t) ch\<rparr>)) in
      if in_canonical_mode t
      then
        if is_eof t ch
        then Inr (t\<lparr>m_available_lines := m_available_lines t + 1,
                   m_input_buffer := cq_enqueue (m_input_buffer t) 0\<rparr>)
        else if is_kill t ch then kill_line t
        else if is_erase t ch then do_backspace t
        else if is_werase t ch then erase_word t
        else if ch = newline \<or> is_eol t ch
        then Inr (put (t\<lparr>m_available_lines := m_available_lines t + 1\<rparr>))
        else Inr (put t)
      else Inr (put t))"

definition emit :: "8 word \<Rightarrow> bool \<Rightarrow> tty \<Rightarrow> tty res" where
  "emit ch do_evaluate_block_conditions t =
     (if should_generate_signals t \<and> ch = cc t VINFO then Inr (generate_signal SIGINFO t)
      else if should_generate_signals t \<and> ch = cc t VINTR then Inr (generate_signal SIGINT t)
      else if should_generate_signals t \<and> ch = cc t VQUIT then Inr (generate_signal SIGQUIT t)
      else if should_generate_signals t \<and> ch = cc t VSUSP then Inr (suspend t)
      else bind_res (emit_input ch t) (\<lambda>t.
        Inr (if do_evaluate_block_conditions then event Evaluate_block_conditions t else t)))"

subsection \<open>Reading and writing\<close>

datatype 'a kresult = Error int | Success 'a

abbreviation (input) EPERM :: int where "EPERM \<equiv> 1"
abbreviation (input) EINTR :: int where "EINTR \<equiv> 4"
abbreviation (input) EIO :: int where "EIO \<equiv> 5"
abbreviation (input) EINVAL :: int where "EINVAL \<equiv> 22"

text \<open>
  The callbacks of \<^verbatim>\<open>read\<close>.  In canonical mode the state is the terminal with
  \<^verbatim>\<open>need_evaluate_block_conditions\<close>; the result has the bytes stored, as many as \<^verbatim>\<open>i\<close> counts.
\<close>

fun canonical_loop :: "nat \<Rightarrow> tty \<Rightarrow> bool \<Rightarrow> ((tty \<times> bool) \<times> 8 word list) res" where
  "canonical_loop 0 t need = Inr ((t, need), [])"
| "canonical_loop (Suc n) t need =
     bind_res (cq_dequeue (m_input_buffer t)) (\<lambda>(ch, q).
       let t = t\<lparr>m_input_buffer := q\<rparr> in
       if ch = 0 then Inr ((t\<lparr>m_available_lines := m_available_lines t - 1\<rparr>, True), [])
       else if ch = newline \<or> is_eol t ch
       then Inr ((t\<lparr>m_available_lines := m_available_lines t - 1\<rparr>, need), [ch])
       else bind_res (canonical_loop n t need) (\<lambda>(s, bytes). Inr (s, ch # bytes)))"

definition canonical_read :: "(tty \<times> bool) producer" where
  "canonical_read = (\<lambda>(t, need) data_size.
     bind_res (canonical_loop data_size t need) (\<lambda>(s, bytes). Inr (s, bytes, int (length bytes))))"

fun raw_loop :: "nat \<Rightarrow> tty \<Rightarrow> (tty \<times> 8 word list) res" where
  "raw_loop 0 t = Inr (t, [])"
| "raw_loop (Suc n) t =
     bind_res (cq_dequeue (m_input_buffer t)) (\<lambda>(ch, q).
       let ch = (if ch = carriage_return \<and> flag (c_iflag (m_termios t)) ICRNL then newline
                 else if ch = newline \<and> flag (c_iflag (m_termios t)) INLCR then carriage_return else ch)
       in bind_res (raw_loop n (t\<lparr>m_input_buffer := q\<rparr>)) (\<lambda>(t, bytes). Inr (t, ch # bytes)))"

definition raw_read :: "(tty \<times> bool) producer" where
  "raw_read = (\<lambda>(t, need) data_size.
     bind_res (raw_loop data_size t) (\<lambda>(t, bytes). Inr ((t, need), bytes, int data_size)))"

definition tty_read ::
  "page_access \<Rightarrow> int \<Rightarrow> nat \<Rightarrow> mem \<Rightarrow> nat \<Rightarrow> nat \<Rightarrow> tty \<Rightarrow> (mem \<times> tty \<times> nat kresult) res" where
  "tty_read pages current_pgid stack m buffer n t =
     (if current_pgid \<noteq> pgid t then Inr (m, event (Signal_current SIGTTIN) t, Error EINTR)
      else
        let n = (if cq_size (m_input_buffer t) < n then cq_size (m_input_buffer t) else n) in
        bind_res
          (write_buffered pages 512 stack buffer n
            (if in_canonical_mode t then canonical_read else raw_read) m (t, False))
          (\<lambda>(m, (t, need_evaluate_block_conditions), nwritten).
            if nwritten < 0 then Inr (m, t, Error (- nwritten))
            else Inr (m,
              if 0 < nwritten \<or> need_evaluate_block_conditions then event Evaluate_block_conditions t else t,
              Success (nat nwritten))))"

fun output_bytes :: "32 word \<Rightarrow> 8 word list \<Rightarrow> 8 word list" where
  "output_bytes oflag [] = []"
| "output_bytes oflag (ch # data) =
     (if ch = newline \<and> flag oflag (OPOST OR ONLCR) then [carriage_return, ch] else [ch]) @
     output_bytes oflag data"

definition write_chunk :: "tty consumer" where
  "write_chunk t data =
     Inr (event (Tty_write (output_bytes (c_oflag (m_termios t)) data)) t, int (length data))"

text \<open>The number returned by \<^verbatim>\<open>read_buffered\<close> is converted to a size, also a negative one.\<close>

definition tty_write ::
  "page_access \<Rightarrow> int \<Rightarrow> nat \<Rightarrow> mem \<Rightarrow> nat \<Rightarrow> nat \<Rightarrow> tty \<Rightarrow> (mem \<times> tty \<times> nat kresult) res" where
  "tty_write pages current_pgid stack m buffer n t =
     (if flag (c_lflag (m_termios t)) TOSTOP \<and> current_pgid \<noteq> pgid t
      then Inr (m, event (Signal_current SIGTTOU) t, Error EINTR)
      else bind_res (read_buffered pages 256 stack buffer n write_chunk m t)
        (\<lambda>(m, t, nread). Inr (m, t, Success (nat (wrap u32_t nread)))))"

subsection \<open>Control\<close>

text \<open>
  The layout of \<^verbatim>\<open>struct termios\<close> and \<^verbatim>\<open>struct winsize\<close> in memory, and what \<^verbatim>\<open>ioctl\<close> asks of the process
  table.
\<close>

definition load_termios :: "mem \<Rightarrow> nat \<Rightarrow> termios" where
  "load_termios m a =
     \<lparr>c_iflag = load32 m a, c_oflag = load32 m (a + 4), c_cflag = load32 m (a + 8),
      c_lflag = load32 m (a + 12), c_cc = map m [a + 16..<a + 48],
      c_ispeed = load32 m (a + 48), c_ospeed = load32 m (a + 52)\<rparr>"

definition store_termios :: "mem \<Rightarrow> nat \<Rightarrow> termios \<Rightarrow> mem" where
  "store_termios m a v =
     (let m = store32 (store32 (store32 (store32 m a (c_iflag v)) (a + 4) (c_oflag v))
                (a + 8) (c_cflag v)) (a + 12) (c_lflag v);
          m = store_bytes m (a + 16) (c_cc v)
      in store32 (store32 m (a + 48) (c_ispeed v)) (a + 52) (c_ospeed v))"

definition load16 :: "mem \<Rightarrow> nat \<Rightarrow> nat" where
  "load16 m a = unat (m a) + 256 * unat (m (a + 1))"

definition store16 :: "mem \<Rightarrow> nat \<Rightarrow> nat \<Rightarrow> mem" where
  "store16 m a v = m(a := of_nat v, a + 1 := of_nat (v div 256))"

record process_table =
  group_exists :: "int \<Rightarrow> bool"
  sid_of :: "int \<Rightarrow> int option"
  pgid_of :: "int \<Rightarrow> int"
  ppid_of :: "int \<Rightarrow> int"
  get_sid_from_pgid :: "int \<Rightarrow> int"
  current_sid :: int

datatype ioctl_request =
    TIOCGPGRP | TIOCSPGRP | TCGETS | TCSETS | TCSETSW | TCSETSF | TCFLSH | TIOCGWINSZ
  | TIOCSCTTY | TIOCSTI | TIOCNOTTY | TIOCSWINSZ | Other_request

definition set_process_group :: "process_table \<Rightarrow> int \<Rightarrow> tty \<Rightarrow> tty \<times> int" where
  "set_process_group procs pg t =
     (if pg \<le> 0 then (t, - EINVAL)
      else if \<not> group_exists procs pg then (t, - EINVAL)
      else
        let process = sid_of procs pg;
            new_sid = (case process of Some sid \<Rightarrow> sid | None \<Rightarrow> get_sid_from_pgid procs pg) in
        if new_sid = 0 \<or> new_sid \<noteq> current_sid procs then (t, - EPERM)
        else if process \<noteq> None \<and> pg \<noteq> pgid_of procs pg then (t, - EPERM)
        else
          let t = t\<lparr>m_pg := Some pg\<rparr> in
          if process \<noteq> None \<and> sid_of procs (ppid_of procs pg) \<noteq> None
          then (t\<lparr>m_original_process_parent := Some (ppid_of procs pg)\<rparr>, 0)
          else (t\<lparr>m_original_process_parent := None\<rparr>, 0))"

definition set_termios :: "termios \<Rightarrow> tty \<Rightarrow> tty" where
  "set_termios v t = t\<lparr>m_termios := v\<rparr>"

text \<open>
  \<open>object\<close> is the address of \<^verbatim>\<open>m_termios\<close>, and \<open>stack\<close> that of a local structure.  The process that has
  not pledged \<^verbatim>\<open>tty\<close> crashes, and the rest of the body is not reached.
\<close>

datatype ioctl_outcome = Returned int | Crashed

definition tty_ioctl ::
  "page_access \<Rightarrow> process_table \<Rightarrow> bool \<Rightarrow> nat \<Rightarrow> nat \<Rightarrow> ioctl_request \<Rightarrow> nat \<Rightarrow> mem \<Rightarrow> tty
   \<Rightarrow> (mem \<times> tty \<times> ioctl_outcome) res" where
  "tty_ioctl pages procs promised object stack request arg m t =
     (if \<not> promised then Inr (m, t, Crashed)
      else case request of
        TIOCGPGRP \<Rightarrow> Inr (m, t, Returned (pgid t))
      | TIOCSPGRP \<Rightarrow> let (t, r) = set_process_group procs (wrap i32_t (int arg)) t in Inr (m, t, Returned r)
      | TCGETS \<Rightarrow>
          bind_res (copy_to_user pages (store_termios m object (m_termios t)) arg object 56) (\<lambda>(m, ok).
            Inr (m, t, Returned (if ok then 0 else - EFAULT)))
      | TCFLSH \<Rightarrow>
          if arg = 0 \<or> arg = 2 then Inr (m, flush_input t, Returned 0)
          else if arg \<noteq> 1 then Inr (m, t, Returned (- EINVAL))
          else Inr (m, t, Returned 0)
      | TIOCGWINSZ \<Rightarrow>
          let m = store16 (store16 (store16 (store16 m stack (m_rows t)) (stack + 2) (m_columns t))
                    (stack + 4) 0) (stack + 6) 0 in
          bind_res (copy_to_user pages m arg stack 8) (\<lambda>(m, ok).
            Inr (m, t, Returned (if ok then 0 else - EFAULT)))
      | TIOCSWINSZ \<Rightarrow>
          bind_res (copy_from_user pages m stack arg 8) (\<lambda>(m, ok).
            if \<not> ok then Inr (m, t, Returned (- EFAULT))
            else
              let ws_row = load16 m stack; ws_col = load16 m (stack + 2) in
              if ws_col = m_columns t \<and> ws_row = m_rows t then Inr (m, t, Returned 0)
              else Inr (m, generate_signal SIGWINCH (t\<lparr>m_rows := ws_row, m_columns := ws_col\<rparr>), Returned 0))
      | TIOCSCTTY \<Rightarrow> Inr (m, event (Set_current_tty True) t, Returned 0)
      | TIOCSTI \<Rightarrow> Inr (m, t, Returned (- EIO))
      | TIOCNOTTY \<Rightarrow> Inr (m, event (Set_current_tty False) t, Returned 0)
      | Other_request \<Rightarrow> Inr (m, t, Returned (- EINVAL))
      | _ \<Rightarrow>
          bind_res (copy_from_user pages m stack arg 56) (\<lambda>(m, ok).
            if \<not> ok then Inr (m, t, Returned (- EFAULT))
            else
              let t = set_termios (load_termios m stack) t in
              Inr (m, if request = TCSETSF then flush_input t else t, Returned 0)))"

definition set_size :: "nat \<Rightarrow> nat \<Rightarrow> tty \<Rightarrow> tty" where
  "set_size columns rows t = t\<lparr>m_rows := rows, m_columns := columns\<rparr>"

section \<open>Line editing\<close>

abbreviation typed :: "tty \<Rightarrow> 8 word list" where
  "typed t \<equiv> cq_list (m_input_buffer t)"

definition tty_ok :: "tty \<Rightarrow> bool" where
  "tty_ok t \<longleftrightarrow> cq_ok (m_input_buffer t)"

definition editable :: "tty \<Rightarrow> 8 word \<Rightarrow> bool" where
  "editable t ch \<longleftrightarrow> ch \<noteq> cc t VEOL \<and> ch \<noteq> 0"

text \<open>The terminals that differ in the input buffer and the trace only.\<close>

definition same_settings :: "tty \<Rightarrow> tty \<Rightarrow> bool" where
  "same_settings t t' \<longleftrightarrow>
     t' = t\<lparr>m_input_buffer := m_input_buffer t', m_trace := m_trace t'\<rparr> \<and>
     cq_capacity (m_input_buffer t') = cq_capacity (m_input_buffer t)"

lemma same_settings_refl [simp]: "same_settings t t"
  by (simp add: same_settings_def)

lemma same_settings_trans: "same_settings t t' \<Longrightarrow> same_settings t' t'' \<Longrightarrow> same_settings t t''"
  unfolding same_settings_def by (metis (no_types, lifting) tty.surjective tty.update_convs(2,8))

lemma same_settings_fields:
  assumes "same_settings t t'"
  shows "m_termios t' = m_termios t" and "m_available_lines t' = m_available_lines t"
    and "m_pg t' = m_pg t" and "m_original_process_parent t' = m_original_process_parent t"
    and "cq_capacity (m_input_buffer t') = cq_capacity (m_input_buffer t)"
  using assms by (cases t; cases t'; simp add: same_settings_def)+

lemma event_fields [simp]:
  "m_input_buffer (event e t) = m_input_buffer t" "m_termios (event e t) = m_termios t"
  "m_available_lines (event e t) = m_available_lines t" "m_pg (event e t) = m_pg t"
  "m_original_process_parent (event e t) = m_original_process_parent t"
  by (simp_all add: event_def)

lemma same_settings_event: "same_settings t t' \<Longrightarrow> same_settings t (event e t')"
  by (cases t; cases t'; simp add: same_settings_def event_def)

lemma editable_same: "same_settings t t' \<Longrightarrow> editable t' = editable t"
  by (simp add: editable_def fun_eq_iff same_settings_fields)

lemma can_do_backspace_iff:
  "tty_ok t \<Longrightarrow> can_do_backspace t \<longleftrightarrow> typed t \<noteq> [] \<and> editable t (last (typed t))"
  by (auto simp: can_do_backspace_def tty_ok_def cq.is_empty cq.newest editable_def is_eol_def
      simp del: cq_list_nil)

lemma drop_last_typed:
  assumes "tty_ok t" and "typed t \<noteq> []"
  shows "\<exists>t'. drop_last t = Inr t' \<and> tty_ok t' \<and> same_settings t t' \<and> typed t' = butlast (typed t)"
  using cq.dequeue_end [of "m_input_buffer t"] assms
  by (auto simp: drop_last_def tty_ok_def same_settings_def simp del: cq_list_nil)

lemma erase_character_same: "same_settings t t' \<Longrightarrow> same_settings t (erase_character t')"
  by (simp add: erase_character_def same_settings_event)

lemma kill_line_loop_typed:
  "tty_ok t \<Longrightarrow> \<exists>t' d'. kill_line_loop t d = Inr (t', d') \<and> tty_ok t' \<and> same_settings t t' \<and>
     typed t' = rev (dropWhile (editable t) (rev (typed t)))"
proof (induction "length (typed t)" arbitrary: t d rule: less_induct)
  case less
  show ?case
  proof (cases "can_do_backspace t")
    case False
    then have "rev (dropWhile (editable t) (rev (typed t))) = typed t"
      using can_do_backspace_iff [OF less.prems]
      by (cases "typed t" rule: rev_cases) (auto simp del: cq_list_nil)
    with False less.prems show ?thesis by (simp add: kill_line_loop.simps [of t])
  next
    case True
    then have last: "typed t \<noteq> []" "editable t (last (typed t))"
      using can_do_backspace_iff [OF less.prems] by auto
    from drop_last_typed [OF less.prems last(1)] obtain u where u: "drop_last t = Inr u" "tty_ok u"
      "same_settings t u" "typed u = butlast (typed t)" by blast
    let ?u = "erase_character u"
    have "length (typed ?u) < length (typed t)" using u(4) last(1) by (simp del: cq_list_length cq_list_nil)
    moreover have "tty_ok ?u" using u(2) by (simp add: tty_ok_def)
    ultimately obtain t' d' where t': "kill_line_loop ?u True = Inr (t', d')" "tty_ok t'"
      "same_settings ?u t'" "typed t' = rev (dropWhile (editable ?u) (rev (typed ?u)))"
      using less.hyps by blast
    have same: "same_settings t ?u" using u(3) by (rule erase_character_same)
    then have "same_settings t t'" using t'(3) by (rule same_settings_trans)
    moreover have "typed t' = rev (dropWhile (editable t) (rev (typed t)))"
      using t'(4) u(4) last editable_same [OF same]
      by (cases "typed t" rule: rev_cases) (auto simp del: cq_list_nil)
    ultimately show ?thesis using True u(1) t'(1,2) by (simp add: kill_line_loop.simps [of t])
  qed
qed

text \<open>
  What remains when the word before the cursor is erased, on the reversed input: the spaces that
  follow the word go first, unless a character of it has gone already.
\<close>

definition before_word :: "tty \<Rightarrow> bool \<Rightarrow> 8 word list \<Rightarrow> 8 word list" where
  "before_word t first_char r =
     dropWhile (\<lambda>c. editable t c \<and> c \<noteq> space)
       (if first_char then r else dropWhile (\<lambda>c. editable t c \<and> c = space) r)"

lemma erase_word_loop_typed:
  "tty_ok t \<Longrightarrow> \<exists>t' d'. erase_word_loop t fc d = Inr (t', d') \<and> tty_ok t' \<and> same_settings t t' \<and>
     typed t' = rev (before_word t fc (rev (typed t)))"
proof (induction "length (typed t)" arbitrary: t fc d rule: less_induct)
  case less
  let ?ch = "cq_last (m_input_buffer t)"
  show ?case
  proof (cases "can_do_backspace t \<and> \<not> (?ch = space \<and> fc)")
    case False
    have "rev (before_word t fc (rev (typed t))) = typed t"
      using False can_do_backspace_iff [OF less.prems] cq.newest [of "m_input_buffer t"] less.prems
      by (cases "typed t" rule: rev_cases)
        (auto simp: before_word_def tty_ok_def simp del: cq_list_nil)
    with False less.prems show ?thesis by (auto simp: erase_word_loop.simps [of t] Let_def)
  next
    case True
    then have last: "typed t \<noteq> []" "editable t (last (typed t))" "?ch = last (typed t)"
      using can_do_backspace_iff [OF less.prems] cq.newest [of "m_input_buffer t"] less.prems
      by (auto simp: tty_ok_def simp del: cq_list_nil)
    from drop_last_typed [OF less.prems last(1)] obtain u where u: "drop_last t = Inr u" "tty_ok u"
      "same_settings t u" "typed u = butlast (typed t)" by blast
    let ?u = "erase_character u" and ?fc = "fc \<or> ?ch \<noteq> space"
    have "length (typed ?u) < length (typed t)" using u(4) last(1) by (simp del: cq_list_length cq_list_nil)
    moreover have "tty_ok ?u" using u(2) by (simp add: tty_ok_def)
    ultimately obtain t' d' where t': "erase_word_loop ?u ?fc True = Inr (t', d')" "tty_ok t'"
      "same_settings ?u t'" "typed t' = rev (before_word ?u ?fc (rev (typed ?u)))"
      using less.hyps by blast
    have same: "same_settings t ?u" using u(3) by (rule erase_character_same)
    then have "same_settings t t'" using t'(3) by (rule same_settings_trans)
    moreover have "typed t' = rev (before_word t fc (rev (typed t)))"
      using t'(4) u(4) last True editable_same [OF same]
      by (cases "typed t" rule: rev_cases) (auto simp: before_word_def simp del: cq_list_nil)
    ultimately show ?thesis using True u(1) t'(1,2)
      by (auto simp: erase_word_loop.simps [of t] Let_def)
  qed
qed

lemma kill_line_typed:
  assumes "tty_ok t"
  shows "\<exists>t'. kill_line t = Inr t' \<and> tty_ok t' \<and> same_settings t t' \<and>
    typed t' = rev (dropWhile (editable t) (rev (typed t)))"
  using kill_line_loop_typed [OF assms, of False]
  by (force simp: kill_line_def tty_ok_def intro: same_settings_event)

lemma erase_word_typed:
  assumes "tty_ok t"
  shows "\<exists>t'. erase_word t = Inr t' \<and> tty_ok t' \<and> same_settings t t' \<and>
    typed t' = rev (before_word t False (rev (typed t)))"
  using erase_word_loop_typed [OF assms, of False False]
  by (force simp: erase_word_def tty_ok_def intro: same_settings_event)

lemma do_backspace_typed:
  assumes "tty_ok t"
  shows "\<exists>t'. do_backspace t = Inr t' \<and> tty_ok t' \<and> same_settings t t' \<and>
    typed t' = (if typed t \<noteq> [] \<and> editable t (last (typed t)) then butlast (typed t) else typed t)"
proof (cases "can_do_backspace t")
  case False
  with assms can_do_backspace_iff [OF assms] show ?thesis by (auto simp: do_backspace_def)
next
  case True
  with can_do_backspace_iff [OF assms] drop_last_typed [OF assms] obtain u where
    "drop_last t = Inr u" "tty_ok u" "same_settings t u" "typed u = butlast (typed t)"
    "typed t \<noteq> [] \<and> editable t (last (typed t))" by blast
  with True show ?thesis by (simp add: do_backspace_def tty_ok_def same_settings_event del: cq_list_nil)
qed

section \<open>Lines\<close>

definition ends_line :: "tty \<Rightarrow> 8 word \<Rightarrow> bool" where
  "ends_line t ch \<longleftrightarrow> ch = 0 \<or> ch = newline \<or> is_eol t ch"

definition lines_in :: "tty \<Rightarrow> 8 word list \<Rightarrow> int" where
  "lines_in t xs = int (length (filter (ends_line t) xs))"

text \<open>The number of available lines is the number of line ends in the buffer.\<close>

definition lines_ok :: "tty \<Rightarrow> bool" where
  "lines_ok t \<longleftrightarrow> m_available_lines t = lines_in t (typed t)"

lemma ends_line_same: "same_settings t t' \<Longrightarrow> ends_line t' = ends_line t"
  by (simp add: ends_line_def fun_eq_iff same_settings_fields is_eol_def)

text \<open>What a canonical read of at most \<open>n\<close> bytes delivers, and what it leaves.\<close>

fun first_line :: "tty \<Rightarrow> nat \<Rightarrow> 8 word list \<Rightarrow> 8 word list \<times> 8 word list" where
  "first_line t 0 xs = ([], xs)"
| "first_line t (Suc n) [] = ([], [])"
| "first_line t (Suc n) (c # cs) =
     (if ends_line t c then (if c = 0 then [] else [c], cs)
      else (c # fst (first_line t n cs), snd (first_line t n cs)))"

lemma first_line_split:
  "\<forall>c\<in>set line. \<not> ends_line t c \<Longrightarrow> ends_line t ch \<Longrightarrow> length line < n \<Longrightarrow>
   first_line t n (line @ ch # rest) = (line @ (if ch = 0 then [] else [ch]), rest)"
proof (induction line arbitrary: n)
  case Nil
  then show ?case by (cases n) auto
next
  case (Cons c line)
  then show ?case by (cases n) auto
qed

lemma first_line_none:
  "\<forall>c\<in>set (take n xs). \<not> ends_line t c \<Longrightarrow> first_line t n xs = (take n xs, drop n xs)"
  by (induction t n xs rule: first_line.induct) auto

lemma first_line_length: "length (fst (first_line t n xs)) \<le> n"
  by (induction t n xs rule: first_line.induct) auto

lemma canonical_loop_line:
  "tty_ok t \<Longrightarrow> n \<le> length (typed t) \<Longrightarrow>
   \<exists>t' need'. canonical_loop n t need = Inr ((t', need'), fst (first_line t n (typed t))) \<and>
     tty_ok t' \<and> m_termios t' = m_termios t \<and> m_pg t' = m_pg t \<and>
     typed t' = snd (first_line t n (typed t)) \<and>
     m_available_lines t' = m_available_lines t - (lines_in t (typed t) - lines_in t (typed t'))"
proof (induction n arbitrary: t need)
  case 0
  then show ?case by simp
next
  case (Suc n)
  then obtain ch rest where typed: "typed t = ch # rest" by (cases "typed t") auto
  with cq.dequeue [of "m_input_buffer t" ch rest] Suc.prems obtain q where
    q: "cq_dequeue (m_input_buffer t) = Inr (ch, q)" "cq_ok q" "cq_list q = rest"
    by (auto simp: tty_ok_def)
  let ?t = "t\<lparr>m_input_buffer := q\<rparr>"
  have eol: "ends_line ?t = ends_line t" "is_eol ?t = is_eol t"
    by (auto simp: ends_line_def is_eol_def fun_eq_iff)
  have lines: "lines_in ?t = lines_in t" by (simp add: lines_in_def eol fun_eq_iff)
  have line: "first_line ?t k xs = first_line t k xs" for k xs
    by (induction t k xs rule: first_line.induct) (auto simp: ends_line_def is_eol_def)
  show ?case
  proof (cases "ends_line t ch")
    case True
    then show ?thesis using q typed by (auto simp: tty_ok_def eol ends_line_def lines_in_def Let_def)
  next
    case False
    have "tty_ok ?t" "n \<le> length (typed ?t)" using q Suc.prems typed by (simp_all add: tty_ok_def)
    from Suc.IH [OF this, of need] obtain t' need' where
      "canonical_loop n ?t need = Inr ((t', need'), fst (first_line t n rest))"
      "tty_ok t'" "m_termios t' = m_termios t" "m_pg t' = m_pg t" "typed t' = snd (first_line t n rest)"
      "m_available_lines t' = m_available_lines t - (lines_in t rest - lines_in t (typed t'))"
      by (auto simp: q(3) lines line)
    with False q(1) typed show ?thesis
      by (intro exI [of _ t'] exI [of _ need']) (simp add: eol ends_line_def lines_in_def Let_def)
  qed
qed

text \<open>The effect of an input character on the typed bytes, in canonical mode and otherwise.\<close>

definition appended :: "tty \<Rightarrow> 8 word \<Rightarrow> 8 word list" where
  "appended t ch =
     (if length (typed t) = cq_capacity (m_input_buffer t) then tl (typed t) else typed t) @ [ch]"

definition edited :: "tty \<Rightarrow> 8 word \<Rightarrow> 8 word list" where
  "edited t ch =
     (if \<not> in_canonical_mode t then appended t ch
      else if is_eof t ch then appended t 0
      else if is_kill t ch then rev (dropWhile (editable t) (rev (typed t)))
      else if is_erase t ch
        then if typed t \<noteq> [] \<and> editable t (last (typed t)) then butlast (typed t) else typed t
      else if is_werase t ch then rev (before_word t False (rev (typed t)))
      else appended t ch)"

definition commits :: "tty \<Rightarrow> 8 word \<Rightarrow> bool" where
  "commits t ch \<longleftrightarrow> in_canonical_mode t \<and>
     (is_eof t ch \<or> \<not> is_kill t ch \<and> \<not> is_erase t ch \<and> \<not> is_werase t ch \<and> (ch = newline \<or> is_eol t ch))"

lemma enqueue_typed:
  "tty_ok t \<Longrightarrow> cq_ok (cq_enqueue (m_input_buffer t) ch) \<and>
   cq_capacity (cq_enqueue (m_input_buffer t) ch) = cq_capacity (m_input_buffer t) \<and>
   cq_list (cq_enqueue (m_input_buffer t) ch) = appended t ch"
  using cq.enqueue [of "m_input_buffer t" ch] by (auto simp: tty_ok_def appended_def)

lemma emit_input_typed:
  assumes "tty_ok t"
  shows "\<exists>t'. emit_input ch t = Inr t' \<and> tty_ok t' \<and> typed t' = edited t ch \<and> m_termios t' = m_termios t \<and>
    m_available_lines t' = m_available_lines t + (if commits t ch then 1 else 0) \<and>
    cq_capacity (m_input_buffer t') = cq_capacity (m_input_buffer t)"
proof (cases "in_canonical_mode t \<and> \<not> is_eof t ch \<and> (is_kill t ch \<or> is_erase t ch \<or> is_werase t ch)")
  case True
  then consider "is_kill t ch" | "\<not> is_kill t ch" "is_erase t ch" | "\<not> is_kill t ch" "\<not> is_erase t ch" "is_werase t ch"
    by blast
  then show ?thesis
  proof cases
    case 1
    with True kill_line_typed [OF assms] show ?thesis
      by (auto simp: emit_input_def edited_def commits_def same_settings_fields)
  next
    case 2
    with True do_backspace_typed [OF assms] show ?thesis
      by (auto simp: emit_input_def edited_def commits_def same_settings_fields simp del: cq_list_nil)
  next
    case 3
    with True erase_word_typed [OF assms] show ?thesis
      by (auto simp: emit_input_def edited_def commits_def same_settings_fields)
  qed
next
  case False
  with enqueue_typed [OF assms] show ?thesis
    by (auto simp: emit_input_def edited_def commits_def tty_ok_def Let_def)
qed

definition raises_signal :: "tty \<Rightarrow> 8 word \<Rightarrow> bool" where
  "raises_signal t ch \<longleftrightarrow> should_generate_signals t \<and> ch \<in> {cc t VINFO, cc t VINTR, cc t VQUIT, cc t VSUSP}"

lemma generate_signal_fields:
  assumes "tty_ok t"
  shows "tty_ok (generate_signal sig t)"
    and "typed (generate_signal sig t) = (if pgid t \<noteq> 0 \<and> should_flush_on_signal t then [] else typed t)"
    and "m_available_lines (generate_signal sig t) =
      (if pgid t \<noteq> 0 \<and> should_flush_on_signal t then 0 else m_available_lines t)"
    and "m_termios (generate_signal sig t) = m_termios t"
  using cq.clear [of "m_input_buffer t"] assms
  by (auto simp: generate_signal_def flush_input_def tty_ok_def Let_def simp del: cq_list_nil)

lemma emit_signal:
  assumes "tty_ok t" and "raises_signal t ch"
  shows "\<exists>t'. emit ch b t = Inr t' \<and> tty_ok t' \<and> m_termios t' = m_termios t \<and>
    typed t' = (if pgid t \<noteq> 0 \<and> should_flush_on_signal t then [] else typed t) \<and>
    m_available_lines t' = (if pgid t \<noteq> 0 \<and> should_flush_on_signal t then 0 else m_available_lines t)"
  using assms(2) generate_signal_fields [OF assms(1)]
  by (auto simp: emit_def raises_signal_def suspend_def Let_def tty_ok_def split: option.splits)

lemma emit_plain:
  assumes "tty_ok t" and "\<not> raises_signal t ch"
  shows "\<exists>t'. emit ch b t = Inr t' \<and> tty_ok t' \<and> typed t' = edited t ch \<and> m_termios t' = m_termios t \<and>
    m_available_lines t' = m_available_lines t + (if commits t ch then 1 else 0) \<and>
    cq_capacity (m_input_buffer t') = cq_capacity (m_input_buffer t)"
  using emit_input_typed [OF assms(1), of ch] assms(2)
  by (auto simp: emit_def raises_signal_def tty_ok_def)

lemma lines_in_dropWhile:
  assumes "\<And>c. c \<in> set xs \<Longrightarrow> P c \<Longrightarrow> \<not> ends_line t c"
  shows "lines_in t (dropWhile P xs) = lines_in t xs"
proof -
  have "filter (ends_line t) (takeWhile P xs) = []"
    using assms by (auto simp: filter_empty_conv dest: set_takeWhileD)
  then have "filter (ends_line t) (takeWhile P xs @ dropWhile P xs) = filter (ends_line t) (dropWhile P xs)"
    by (simp only: filter_append append_Nil)
  then show ?thesis by (simp add: lines_in_def)
qed

lemma lines_in_rev [simp]: "lines_in t (rev xs) = lines_in t xs"
  by (simp add: lines_in_def rev_filter [symmetric])

lemma edited_lines:
  assumes "length (typed t) < cq_capacity (m_input_buffer t)" and "in_canonical_mode t"
    and "ch \<noteq> 0 \<or> is_eol t 0"
    and protected: "is_kill t ch \<or> is_erase t ch \<or> is_werase t ch \<Longrightarrow>
      is_eol t newline \<or> newline \<notin> set (typed t)"
  shows "lines_in t (edited t ch) = lines_in t (typed t) + (if commits t ch then 1 else 0)"
proof (cases "is_eof t ch \<or> \<not> (is_kill t ch \<or> is_erase t ch \<or> is_werase t ch)")
  case True
  with assms(1-3) show ?thesis
    by (auto simp: edited_def commits_def appended_def lines_in_def ends_line_def)
next
  case False
  then have "is_eol t newline \<or> newline \<notin> set (typed t)" using protected by blast
  then have plain: "\<not> ends_line t c" if "c \<in> set (typed t)" "editable t c" for c
    using that by (auto simp: ends_line_def editable_def is_eol_def)
  have "lines_in t (rev (dropWhile (editable t) (rev (typed t)))) = lines_in t (typed t)"
    using lines_in_dropWhile [of "rev (typed t)" "editable t" t] plain by simp
  moreover have "lines_in t (rev (before_word t False (rev (typed t)))) = lines_in t (typed t)"
  proof -
    let ?spaces = "\<lambda>c. editable t c \<and> c = space" and ?word = "\<lambda>c. editable t c \<and> c \<noteq> space"
    have "lines_in t (dropWhile ?word (dropWhile ?spaces (rev (typed t)))) =
        lines_in t (dropWhile ?spaces (rev (typed t)))"
      by (rule lines_in_dropWhile) (use plain in \<open>auto dest: set_dropWhileD\<close>)
    also have "\<dots> = lines_in t (rev (typed t))"
      by (rule lines_in_dropWhile) (use plain in auto)
    finally show ?thesis by (simp add: before_word_def)
  qed
  moreover have "lines_in t (butlast (typed t)) = lines_in t (typed t)"
    if "typed t \<noteq> []" "editable t (last (typed t))"
    using that plain [of "last (typed t)"]
    by (cases "typed t" rule: rev_cases) (auto simp: lines_in_def simp del: cq_list_nil)
  ultimately show ?thesis using False assms(2)
    by (auto simp: edited_def commits_def simp del: cq_list_nil)
qed

lemma lines_ok_termios: "m_termios t' = m_termios t \<Longrightarrow> lines_in t' = lines_in t"
  by (simp add: lines_in_def ends_line_def [abs_def] is_eol_def fun_eq_iff)

section \<open>Properties\<close>



text \<open>
  C24.  In canonical mode a received character keeps the number of available lines equal to the
  number of line ends in the buffer, as long as the buffer is not full, a null byte counts as an end
  of line, and an editing character finds no newline that the end-of-line character does not protect.
\<close>

theorem emit_counts_lines:
  assumes "tty_ok t" and "lines_ok t" and "in_canonical_mode t"
    and "length (typed t) < cq_capacity (m_input_buffer t)" and "ch \<noteq> 0 \<or> is_eol t 0"
    and "is_kill t ch \<or> is_erase t ch \<or> is_werase t ch \<Longrightarrow> is_eol t newline \<or> newline \<notin> set (typed t)"
  shows "\<exists>t'. emit ch b t = Inr t' \<and> tty_ok t' \<and> lines_ok t'"
proof (cases "raises_signal t ch")
  case True
  from emit_signal [OF assms(1) this, of b] obtain t' where t': "emit ch b t = Inr t'" "tty_ok t'"
    "m_termios t' = m_termios t"
    "typed t' = (if pgid t \<noteq> 0 \<and> should_flush_on_signal t then [] else typed t)"
    "m_available_lines t' = (if pgid t \<noteq> 0 \<and> should_flush_on_signal t then 0 else m_available_lines t)"
    by blast
  have "lines_ok t'"
    using assms(2) t'(4,5) lines_ok_termios [OF t'(3)]
    by (cases "pgid t \<noteq> 0 \<and> should_flush_on_signal t") (auto simp: lines_ok_def lines_in_def simp del: cq_list_nil)
  with t' show ?thesis by blast
next
  case False
  from emit_plain [OF assms(1) this, of b] obtain t' where t': "emit ch b t = Inr t'" "tty_ok t'"
    "typed t' = edited t ch" "m_termios t' = m_termios t"
    "m_available_lines t' = m_available_lines t + (if commits t ch then 1 else 0)" by blast
  have "lines_ok t'"
    using edited_lines [OF assms(4,3,5,6)] assms(2) t'(3,5) lines_ok_termios [OF t'(4)]
    by (simp add: lines_ok_def)
  with t' show ?thesis by blast
qed

theorem emit_counts_lines_witness:
  "\<exists>t'. emit newline True (tty_construct [0, 0]) = Inr t' \<and> tty_ok t' \<and> lines_ok t'"
  by (rule emit_counts_lines)
    (simp_all add: tty_ok_def cq_ok_def tty_construct_def cq_construct_def cq_capacity_def lines_ok_def
      lines_in_def cq_list_def in_canonical_mode_def default_termios_def)

text \<open>One chunk is enough for a small user buffer, and a kernel buffer is filled directly.\<close>

definition transfer_ok :: "page_access \<Rightarrow> nat \<Rightarrow> nat \<Rightarrow> nat \<Rightarrow> bool" where
  "transfer_ok pages stack buffer n \<longleftrightarrow> buffer \<noteq> 0 \<and> buffer < 2 ^ 32 \<and>
     (is_kernel_buffer buffer \<or> n \<le> 512 \<and> kernel_block pages stack 512 \<and> apart buffer 512 stack 512)"

lemma store_bytes_nth: "i < length xs \<Longrightarrow> store_bytes m a xs (a + i) = xs ! i"
proof (induction xs arbitrary: m a i)
  case (Cons x xs)
  from Cons.IH [where a = "a + 1" and i = "i - 1"] Cons.prems show ?case
    by (cases i) (simp_all add: store_bytes_other)
qed simp

lemma map_store_bytes: "map (store_bytes m a xs) [a..<a + length xs] = xs"
  by (rule nth_equalityI) (simp_all add: store_bytes_nth)

lemma write_buffered_result:
  assumes "transfer_ok pages stack buffer n"
    and f: "f s n = Inr (s', bytes, int (length bytes))" and "length bytes \<le> n"
    and f0: "n = 0 \<Longrightarrow> s' = s \<and> bytes = []"
  shows "\<exists>m' r. write_buffered pages 512 stack buffer n f m s = Inr (m', s', r) \<and>
    (r = int (length bytes) \<and> map m' [buffer..<buffer + length bytes] = bytes \<or>
     r = - EFAULT \<and> \<not> is_kernel_buffer buffer)"
proof (cases "is_kernel_buffer buffer")
  case True
  with assms(1) f map_store_bytes [of m buffer bytes] show ?thesis
    by (auto simp: write_buffered_def transfer_ok_def)
next
  case user: False
  with assms(1) have u: "buffer \<noteq> 0" "buffer < 2 ^ 32" "n \<le> 512" "kernel_block pages stack 512"
    "apart buffer 512 stack 512" by (auto simp: transfer_ok_def)
  show ?thesis
  proof (cases "n = 0")
    case True
    with user u(1) f0 assms(3) show ?thesis
      by (simp add: write_buffered_def write_buffered_loop.simps)
  next
    case False
    let ?m = "store_bytes m stack bytes" and ?k = "length bytes"
    have "kernel_block pages stack ?k" using u(3,4) assms(3) by (auto simp: kernel_block_def)
    moreover have "apart buffer ?k stack ?k" using u(3,5) assms(3) by (auto simp: apart_def)
    ultimately obtain m' ok where m': "buffer_write pages ?m buffer stack 0 ?k = Inr (m', ok)"
      "ok \<longrightarrow> (\<forall>i<?k. m' (buffer + i) = ?m (stack + i))"
      using buffer_write_result [of pages stack ?k buffer ?m] u assms(3) by auto
    have "write_buffered pages 512 stack buffer n f m s = write_buffered_loop pages 512 stack buffer n f m s 0"
      using user u(1) by (simp add: write_buffered_def)
    also have "\<dots> = Inr (m', s', if ok then int ?k else - EFAULT)"
      using False f m'(1) assms(3) u(3)
      by (simp add: write_buffered_loop.simps [of _ _ _ _ _ _ _ _ 0] write_buffered_loop.simps [of _ _ _ _ _ _ _ _ n] Let_def)
    finally have "write_buffered pages 512 stack buffer n f m s = Inr (m', s', if ok then int ?k else - EFAULT)" .
    moreover have "map m' [buffer..<buffer + ?k] = bytes" if ok
      using m'(2) that by (intro nth_equalityI) (simp_all add: store_bytes_nth)
    ultimately show ?thesis using user by (cases ok) auto
  qed
qed


definition sample_tty :: tty where
  "sample_tty = (tty_construct [])
     \<lparr>m_available_lines := 1,
      m_input_buffer := \<lparr>cq_elements = [98, 0, 97, 10], cq_size = 3, cq_head = 2\<rparr>\<rparr>"


lemma default_terminal:
  assumes "m_termios t = default_termios"
  shows "raises_signal t ch \<longleftrightarrow> ch = 20 \<or> ch = 3 \<or> ch = 28 \<or> ch = 26"
    and "in_canonical_mode t" and "is_eof t ch \<longleftrightarrow> ch = 4" and "is_kill t ch \<longleftrightarrow> ch = 21"
    and "is_erase t ch \<longleftrightarrow> ch = 8" and "is_werase t ch \<longleftrightarrow> ch = 23" and "is_eol t ch \<longleftrightarrow> ch = 0"
    and "editable t ch \<longleftrightarrow> ch \<noteq> 0"
  using assms
  by (auto simp: raises_signal_def should_generate_signals_def in_canonical_mode_def is_eof_def is_kill_def
      is_erase_def is_werase_def is_eol_def editable_def default_termios_def default_cc_def)

text \<open>
  The guard against erasing a committed line looks for the end-of-line character, which is the null
  byte by default, and not for a newline: erasing one leaves a line available that is not there.
\<close>

theorem erased_newline_stays_available:
  "\<exists>t1 t2 t3. emit 97 b (tty_construct (replicate 1024 0)) = Inr t1 \<and> emit newline b t1 = Inr t2 \<and>
     emit 8 b t2 = Inr t3 \<and> typed t3 = [97] \<and> m_available_lines t3 = 1 \<and> can_read t3"
proof -
  let ?t = "tty_construct (replicate 1024 0)"
  have t: "tty_ok ?t" "m_termios ?t = default_termios" "typed ?t = []" "m_available_lines ?t = 0"
    by (simp_all add: tty_construct_def tty_ok_def cq_ok_def cq_construct_def cq_capacity_def)
  have cap: "cq_capacity (m_input_buffer ?t) = 1024"
    by (simp add: tty_construct_def cq_construct_def cq_capacity_def)
  have "\<not> raises_signal ?t 97" by (simp add: default_terminal [OF t(2)])
  from emit_plain [OF t(1) this, of b] obtain t1 where t1: "emit 97 b ?t = Inr t1" "tty_ok t1"
    "typed t1 = [97]" "m_termios t1 = default_termios" "m_available_lines t1 = 0"
    "cq_capacity (m_input_buffer t1) = 1024"
    using t cap by (auto simp: edited_def commits_def appended_def default_terminal [OF t(2)])
  have size: "cq_size (m_input_buffer t1) = 1" using arg_cong [OF t1(3), of length] by simp
  have "\<not> raises_signal t1 newline" by (simp add: default_terminal [OF t1(4)])
  from emit_plain [OF t1(2) this, of b] obtain t2 where t2: "emit newline b t1 = Inr t2" "tty_ok t2"
    "typed t2 = [97, newline]" "m_termios t2 = default_termios" "m_available_lines t2 = 1"
    using t1 size by (auto simp: edited_def commits_def appended_def default_terminal [OF t1(4)])
  have "\<not> raises_signal t2 8" by (simp add: default_terminal [OF t2(4)])
  from emit_plain [OF t2(2) this, of b] obtain t3 where t3: "emit 8 b t2 = Inr t3" "typed t3 = [97]"
    "m_termios t3 = default_termios" "m_available_lines t3 = 1"
    using t2 by (auto simp: edited_def commits_def default_terminal [OF t2(4)] simp del: cq_list_nil)
  have "can_read t3" using t3(3,4) by (simp add: can_read_def default_terminal)
  with t1(1) t2(1) t3 show ?thesis by blast
qed

text \<open>
  The negative error number of a faulting write is converted to a size, and reported as a success.
\<close>

theorem faulting_write_reports_success:
  assumes "\<not> (flag (c_lflag (m_termios t)) TOSTOP \<and> current_pgid \<noteq> pgid t)"
  shows "tty_write pages current_pgid stack m 0 n t = Inr (m, t, Success 4294967282)"
  using assms by (simp add: tty_write_def read_buffered_def wrap_def u32_t_def)

end
