(* ===== verification/Wait_Queue.thy ===== *)
theory Wait_Queue
  imports Kernel_Prelude
begin

text \<open>
  \<^verbatim>\<open>Kernel/WaitQueue.cpp\<close> on the block condition of \<^verbatim>\<open>Kernel/Thread.h\<close>: the threads that wait, and the
  two flags that decide whether one more has to.  Threads are natural numbers.  Each operation runs
  under the spin lock of the queue.
\<close>

section \<open>Operations\<close>

record blocker =
  blocked_thread :: nat
  m_did_unblock :: bool

record wait_queue =
  m_wake_requested :: bool
  m_should_block :: bool
  m_blockers :: "blocker list"

definition wait_queue_construct :: wait_queue where
  "wait_queue_construct = \<lparr>m_wake_requested = False, m_should_block = True, m_blockers = []\<rparr>"

definition should_block :: "bool \<Rightarrow> wait_queue \<Rightarrow> wait_queue" where
  "should_block block q = q\<lparr>m_should_block := block\<rparr>"

definition should_add_blocker :: "wait_queue \<Rightarrow> wait_queue \<times> bool" where
  "should_add_blocker q =
     (if m_wake_requested q \<or> \<not> m_should_block q then (q\<lparr>m_wake_requested := False\<rparr>, False) else (q, True))"

definition add_blocker :: "nat \<Rightarrow> wait_queue \<Rightarrow> wait_queue \<times> bool" where
  "add_blocker t q =
     (let (q, add) = should_add_blocker q in
      if \<not> add then (q, False)
      else (q\<lparr>m_blockers := m_blockers q @ [\<lparr>blocked_thread = t, m_did_unblock = False\<rparr>]\<rparr>, True))"

fun remove_first_matching :: "('a \<Rightarrow> bool) \<Rightarrow> 'a list \<Rightarrow> 'a list" where
  "remove_first_matching P [] = []"
| "remove_first_matching P (x # xs) = (if P x then xs else x # remove_first_matching P xs)"

definition remove_blocker :: "nat \<Rightarrow> wait_queue \<Rightarrow> wait_queue" where
  "remove_blocker t q = q\<lparr>m_blockers := remove_first_matching (\<lambda>b. blocked_thread b = t) (m_blockers q)\<rparr>"

text \<open>
  \<^verbatim>\<open>do_unblock\<close> with its callback, which returns whether the blocker was unblocked, whether to stop,
  and the callback's state.  The result has the remaining blockers, the unblocked ones and the state.
\<close>

fun do_unblock ::
  "('s \<Rightarrow> blocker \<Rightarrow> (bool \<times> bool \<times> 's) res) \<Rightarrow> 's \<Rightarrow> blocker list \<Rightarrow> (blocker list \<times> blocker list \<times> 's) res" where
  "do_unblock unblock_one s [] = Inr ([], [], s)"
| "do_unblock unblock_one s (b # bs) =
     bind_res (unblock_one s b) (\<lambda>(removed, stop, s).
       bind_res (if stop then Inr (bs, [], s) else do_unblock unblock_one s bs) (\<lambda>(kept, woken, s).
         Inr (if removed then (kept, b # woken, s) else (b # kept, woken, s))))"

text \<open>The threads woken are the second component of each result.\<close>

definition wake_with ::
  "('s \<Rightarrow> blocker \<Rightarrow> (bool \<times> bool \<times> 's) res) \<Rightarrow> 's \<Rightarrow> wait_queue \<Rightarrow> (wait_queue \<times> nat list) res" where
  "wake_with unblock_one s q =
     bind_res (do_unblock unblock_one s (m_blockers q)) (\<lambda>(kept, woken, _).
       Inr (q\<lparr>m_blockers := kept, m_wake_requested := (woken = [])\<rparr>, map blocked_thread woken))"

definition wake_one :: "wait_queue \<Rightarrow> (wait_queue \<times> nat list) res" where
  "wake_one = wake_with (\<lambda>_ b. Inr (if m_did_unblock b then (False, False, ()) else (True, True, ()))) ()"

definition wake_n :: "nat \<Rightarrow> wait_queue \<Rightarrow> (wait_queue \<times> nat list) res" where
  "wake_n wake_count q =
     (if wake_count = 0 then Inr (q, [])
      else wake_with (\<lambda>did_wake b. verify (did_wake < wake_count)
        (Inr (if m_did_unblock b then (False, False, did_wake)
              else (True, wake_count \<le> did_wake + 1, did_wake + 1)))) 0 q)"

definition wake_all :: "wait_queue \<Rightarrow> (wait_queue \<times> nat list) res" where
  "wake_all = wake_with (\<lambda>_ b. Inr (if m_did_unblock b then (False, False, ()) else (True, False, ()))) ()"

section \<open>Facts\<close>

text \<open>An unblocked blocker leaves the queue at once, so those in it are all still blocked.\<close>

definition all_blocked :: "wait_queue \<Rightarrow> bool" where
  "all_blocked q \<longleftrightarrow> (\<forall>b\<in>set (m_blockers q). \<not> m_did_unblock b)"

abbreviation waiting :: "wait_queue \<Rightarrow> nat list" where
  "waiting q \<equiv> map blocked_thread (m_blockers q)"

lemma wake_one_first:
  assumes "all_blocked q"
  shows "\<exists>q'. wake_one q = Inr (q', take 1 (waiting q)) \<and> waiting q' = drop 1 (waiting q) \<and>
    m_wake_requested q' = (waiting q = []) \<and> m_should_block q' = m_should_block q \<and> all_blocked q'"
  using assms
  by (cases "m_blockers q") (auto simp: wake_one_def wake_with_def all_blocked_def)

lemma wake_n_blocked:
  assumes "\<forall>b\<in>set bs. \<not> m_did_unblock b" and "k < n"
  shows "do_unblock (\<lambda>did_wake b. verify (did_wake < n)
      (Inr (if m_did_unblock b then (False, False, did_wake)
            else (True, n \<le> did_wake + 1, did_wake + 1)))) k bs =
    Inr (drop (n - k) bs, take (n - k) bs, min n (k + length bs))"
  using assms
proof (induction bs arbitrary: k)
  case (Cons b bs)
  show ?case
  proof (cases "n \<le> k + 1")
    case True
    with Cons.prems have "n - k = 1" by simp
    with True Cons.prems show ?thesis by simp
  next
    case False
    then have "n - k = Suc (n - (k + 1))" by simp
    with False Cons show ?thesis by simp
  qed
qed simp

lemma wake_n_first:
  assumes "all_blocked q"
  shows "\<exists>q'. wake_n n q = Inr (q', take n (waiting q)) \<and> waiting q' = drop n (waiting q) \<and> all_blocked q'"
proof (cases "n = 0")
  case False
  with wake_n_blocked [of "m_blockers q" 0 n] assms show ?thesis
    by (auto simp: wake_n_def wake_with_def all_blocked_def take_map drop_map dest: in_set_dropD)
qed (use assms in \<open>simp add: wake_n_def\<close>)

lemma wake_all_blocked:
  "\<forall>b\<in>set bs. \<not> m_did_unblock b \<Longrightarrow>
   do_unblock (\<lambda>_ b. Inr (if m_did_unblock b then (False, False, ()) else (True, False, ()))) u bs = Inr ([], bs, u)"
  by (induction bs arbitrary: u) auto

lemma wake_all_waiting:
  assumes "all_blocked q"
  shows "\<exists>q'. wake_all q = Inr (q', waiting q) \<and> waiting q' = [] \<and> all_blocked q'"
  using wake_all_blocked [of "m_blockers q" "()"] assms
  by (simp add: wake_all_def wake_with_def all_blocked_def)

end
