(* ===== verification/KLock.thy ===== *)
theory KLock
  imports Wait_Queue Memory "HOL-Library.AList"
begin

text \<open>
  \<^verbatim>\<open>Kernel/Lock.cpp\<close>: the recursive lock with shared and exclusive modes.  The body of each operation
  runs between the exchange that sets \<^verbatim>\<open>m_lock\<close> and the store that clears it, and is one function on
  the state; the loops around the bodies, the waiting and the waking are the steps of a transition
  system in which the threads interleave.
\<close>

section \<open>Operations\<close>

datatype lock_mode = Unlocked | Shared | Exclusive

record lock =
  m_mode :: lock_mode
  m_times_locked :: nat
  m_holder :: "nat option"
  m_shared_holders :: "(nat \<times> nat) list"
  m_queue :: wait_queue

definition lock_construct :: lock where
  "lock_construct =
     \<lparr>m_mode = Unlocked, m_times_locked = 0, m_holder = None, m_shared_holders = [],
      m_queue = wait_queue_construct\<rparr>"

definition set_should_block :: "bool \<Rightarrow> lock \<Rightarrow> lock" where
  "set_should_block block l = l\<lparr>m_queue := should_block block (m_queue l)\<rparr>"

definition lock_enter :: "bool \<Rightarrow> lock_mode \<Rightarrow> unit res" where
  "lock_enter in_irq mode = verify (\<not> in_irq) (verify (mode \<noteq> Unlocked) (Inr ()))"

text \<open>One round of \<^verbatim>\<open>lock\<close>: the new state, and whether the lock was acquired.\<close>

definition lock_unlocked :: "nat \<Rightarrow> lock_mode \<Rightarrow> lock \<Rightarrow> (lock \<times> bool) res" where
  "lock_unlocked t mode l =
     (let l = l\<lparr>m_mode := mode\<rparr> in
      verify (m_holder l = None) (verify (m_shared_holders l = [])
        (bind_res
          (if mode = Exclusive then Inr (l\<lparr>m_holder := Some t\<rparr>)
           else verify (mode = Shared)
             (Inr (l\<lparr>m_shared_holders := AList.update t 1 (m_shared_holders l)\<rparr>)))
          (\<lambda>l. verify (m_times_locked l = 0)
            (Inr (set_should_block True (l\<lparr>m_times_locked := size_add (m_times_locked l) 1\<rparr>), True))))))"

definition lock_exclusive :: "nat \<Rightarrow> lock_mode \<Rightarrow> lock \<Rightarrow> (lock \<times> bool) res" where
  "lock_exclusive t mode l =
     verify (m_holder l \<noteq> None)
       (if m_holder l \<noteq> Some t then Inr (l, False)
        else verify (m_shared_holders l = []) (verify (mode = Exclusive \<or> mode = Shared)
          (verify (0 < m_times_locked l)
            (Inr (l\<lparr>m_times_locked := size_add (m_times_locked l) 1\<rparr>, True)))))"

definition lock_shared :: "nat \<Rightarrow> lock_mode \<Rightarrow> lock \<Rightarrow> (lock \<times> bool) res" where
  "lock_shared t mode l =
     verify (m_holder l = None)
       (if mode \<noteq> Shared then Inr (l, False)
        else verify (0 < m_times_locked l)
          (let l = l\<lparr>m_times_locked := size_add (m_times_locked l) 1\<rparr> in
           verify (m_shared_holders l \<noteq> [])
             (Inr (l\<lparr>m_shared_holders := AList.update t
                 (case map_of (m_shared_holders l) t of Some v \<Rightarrow> size_add v 1 | None \<Rightarrow> 1)
                 (m_shared_holders l)\<rparr>, True))))"

definition lock_body :: "nat \<Rightarrow> lock_mode \<Rightarrow> lock \<Rightarrow> (lock \<times> bool) res" where
  "lock_body t mode l =
     (case m_mode l of
        Unlocked \<Rightarrow> lock_unlocked t mode l
      | Exclusive \<Rightarrow> lock_exclusive t mode l
      | Shared \<Rightarrow> lock_shared t mode l)"

text \<open>\<^verbatim>\<open>unlock\<close>: the new state, and whether it was the last.\<close>

definition release_shared :: "nat \<Rightarrow> lock \<Rightarrow> lock res" where
  "release_shared t l =
     (case map_of (m_shared_holders l) t of
        None \<Rightarrow> Inl Verify_failed
      | Some v \<Rightarrow>
          if 1 < v then Inr (l\<lparr>m_shared_holders := AList.update t (v - 1) (m_shared_holders l)\<rparr>)
          else verify (0 < v) (Inr (l\<lparr>m_shared_holders := AList.delete t (m_shared_holders l)\<rparr>)))"

definition unlock_body :: "nat \<Rightarrow> lock \<Rightarrow> (lock \<times> bool) res" where
  "unlock_body t l =
     (let current_mode = m_mode l in
      verify (current_mode \<noteq> Unlocked) (verify (0 < m_times_locked l)
        (let l = l\<lparr>m_times_locked := m_times_locked l - 1\<rparr> in
         bind_res
           (case current_mode of
              Exclusive \<Rightarrow> verify (m_holder l = Some t) (verify (m_shared_holders l = [])
                (Inr (if m_times_locked l = 0 then l\<lparr>m_holder := None\<rparr> else l)))
            | Shared \<Rightarrow> verify (m_holder l = None) (release_shared t l)
            | Unlocked \<Rightarrow> Inl Not_reached)
           (\<lambda>l.
             if m_times_locked l = 0
             then verify (if current_mode = Exclusive then m_holder l = None else m_shared_holders l = [])
               (Inr (set_should_block False (l\<lparr>m_mode := Unlocked\<rparr>), True))
             else Inr (l, False)))))"

text \<open>
  \<^verbatim>\<open>force_unlock_if_locked\<close>: the new state, the mode returned, the count to restore, and whether the
  call goes on to \<^verbatim>\<open>wake_one\<close>.
\<close>

definition force_unlock_body :: "nat \<Rightarrow> lock \<Rightarrow> (lock \<times> lock_mode \<times> nat \<times> bool) res" where
  "force_unlock_body t l =
     (case m_mode l of
        Exclusive \<Rightarrow>
          if m_holder l \<noteq> Some t then Inr (l, Unlocked, 0, False)
          else
            let l = l\<lparr>m_holder := None\<rparr> in
            verify (0 < m_times_locked l)
              (Inr (set_should_block False (l\<lparr>m_times_locked := 0, m_mode := Unlocked\<rparr>),
                    Exclusive, m_times_locked l, True))
      | Shared \<Rightarrow>
          verify (m_holder l = None)
            (case map_of (m_shared_holders l) t of
               None \<Rightarrow> Inr (l, Unlocked, 0, False)
             | Some v \<Rightarrow>
                 verify (0 < v)
                   (let l = l\<lparr>m_shared_holders := AList.delete t (m_shared_holders l)\<rparr> in
                    verify (v \<le> m_times_locked l)
                      (let l = l\<lparr>m_times_locked := m_times_locked l - v\<rparr> in
                       Inr (if m_times_locked l = 0 then set_should_block False (l\<lparr>m_mode := Unlocked\<rparr>) else l,
                            Shared, v, True))))
      | Unlocked \<Rightarrow> Inr (l, Unlocked, 0, True))"

text \<open>One round of \<^verbatim>\<open>restore_lock\<close>: the new state, and whether the lock was restored.\<close>

definition restore_enter :: "bool \<Rightarrow> lock_mode \<Rightarrow> nat \<Rightarrow> unit res" where
  "restore_enter in_irq mode lock_count =
     verify (mode \<noteq> Unlocked) (verify (0 < lock_count) (verify (\<not> in_irq) (Inr ())))"

definition restore_body :: "nat \<Rightarrow> lock_mode \<Rightarrow> nat \<Rightarrow> lock \<Rightarrow> (lock \<times> bool) res" where
  "restore_body t mode lock_count l =
     (case mode of
        Exclusive \<Rightarrow>
          if m_mode l \<noteq> Unlocked then Inr (l, False)
          else
            let l = l\<lparr>m_mode := Exclusive\<rparr> in
            verify (m_times_locked l = 0)
              (let l = l\<lparr>m_times_locked := lock_count\<rparr> in
               verify (m_holder l = None) (verify (m_shared_holders l = [])
                 (Inr (set_should_block True (l\<lparr>m_holder := Some t\<rparr>), True))))
      | Shared \<Rightarrow>
          let expected_mode = m_mode l in
          if expected_mode \<noteq> Unlocked \<and> expected_mode \<noteq> Shared then Inr (l, False)
          else
            let l = l\<lparr>m_mode := Shared\<rparr> in
            verify (expected_mode = Shared \<or> m_times_locked l = 0)
              (let l = l\<lparr>m_times_locked := size_add (m_times_locked l) lock_count\<rparr> in
               verify (m_holder l = None)
                 (verify ((expected_mode = Unlocked) = (m_shared_holders l = []))
                   (verify (map_of (m_shared_holders l) t = None)
                     (Inr (set_should_block True
                        (l\<lparr>m_shared_holders := AList.update t lock_count (m_shared_holders l)\<rparr>), True)))))
      | Unlocked \<Rightarrow> Inl Not_reached)"

definition clear_waiters :: "lock \<Rightarrow> (lock \<times> nat list) res" where
  "clear_waiters l =
     verify (m_mode l \<noteq> Shared)
       (bind_res (wake_all (m_queue l)) (\<lambda>(q, woken). Inr (l\<lparr>m_queue := q\<rparr>, woken)))"

definition is_locked :: "lock \<Rightarrow> bool" where
  "is_locked l \<longleftrightarrow> m_mode l \<noteq> Unlocked"

section \<open>Threads\<close>

text \<open>
  Where a thread is in an operation of the lock: before the exchange, between the exchange and the
  store, about to wait with \<^verbatim>\<open>wait_forever\<close>, blocked there, or about to call \<^verbatim>\<open>wake_one\<close>.
\<close>

datatype pc =
    Idle
  | Locking lock_mode | In_lock lock_mode | To_wait lock_mode | Blocked lock_mode
  | Unlocking | In_unlock
  | Forcing | In_force
  | Restoring lock_mode nat | In_restore lock_mode nat
  | To_wake

record system =
  the_lock :: lock
  m_lock :: bool
  pcs :: "nat \<Rightarrow> pc"

text \<open>How often a thread holds the lock.\<close>

definition holds :: "lock \<Rightarrow> nat \<Rightarrow> nat" where
  "holds l t =
     (if m_holder l = Some t then m_times_locked l
      else case map_of (m_shared_holders l) t of Some v \<Rightarrow> v | None \<Rightarrow> 0)"

definition goto :: "nat \<Rightarrow> pc \<Rightarrow> system \<Rightarrow> system" where
  "goto t p s = s\<lparr>pcs := (pcs s)(t := p)\<rparr>"

definition leave :: "nat \<Rightarrow> pc \<Rightarrow> lock \<Rightarrow> system \<Rightarrow> system" where
  "leave t p l s = s\<lparr>the_lock := l, m_lock := False, pcs := (pcs s)(t := p)\<rparr>"

definition enter :: "nat \<Rightarrow> pc \<Rightarrow> system \<Rightarrow> system" where
  "enter t p s = s\<lparr>m_lock := True, pcs := (pcs s)(t := p)\<rparr>"

text \<open>
  The steps.  A thread calls \<^verbatim>\<open>unlock\<close> only when it holds the lock and \<^verbatim>\<open>restore_lock\<close> only when it
  does not, and no counter reaches \<open>2 ^ 32\<close>; a blocked thread may also be interrupted.
\<close>

inductive lock_step :: "system \<Rightarrow> system \<Rightarrow> bool" where
  call_lock: "pcs s t = Idle \<Longrightarrow> lock_enter False mode = Inr () \<Longrightarrow> lock_step s (goto t (Locking mode) s)"
| call_unlock: "pcs s t = Idle \<Longrightarrow> 0 < holds (the_lock s) t \<Longrightarrow> lock_step s (goto t Unlocking s)"
| call_force: "pcs s t = Idle \<Longrightarrow> lock_step s (goto t Forcing s)"
| call_restore: "pcs s t = Idle \<Longrightarrow> holds (the_lock s) t = 0 \<Longrightarrow> restore_enter False mode n = Inr () \<Longrightarrow>
    lock_step s (goto t (Restoring mode n) s)"
| exchange_lock: "pcs s t = Locking mode \<Longrightarrow> \<not> m_lock s \<Longrightarrow> lock_step s (enter t (In_lock mode) s)"
| exchange_unlock: "pcs s t = Unlocking \<Longrightarrow> \<not> m_lock s \<Longrightarrow> lock_step s (enter t In_unlock s)"
| exchange_force: "pcs s t = Forcing \<Longrightarrow> \<not> m_lock s \<Longrightarrow> lock_step s (enter t In_force s)"
| exchange_restore: "pcs s t = Restoring mode n \<Longrightarrow> \<not> m_lock s \<Longrightarrow> lock_step s (enter t (In_restore mode n) s)"
| body_lock: "pcs s t = In_lock mode \<Longrightarrow> m_times_locked (the_lock s) + 1 < 2 ^ 32 \<Longrightarrow>
    lock_body t mode (the_lock s) = Inr (l, acquired) \<Longrightarrow>
    lock_step s (leave t (if acquired then Idle else To_wait mode) l s)"
| body_unlock: "pcs s t = In_unlock \<Longrightarrow> unlock_body t (the_lock s) = Inr (l, unlocked_last) \<Longrightarrow>
    lock_step s (leave t (if unlocked_last then To_wake else Idle) l s)"
| body_force: "pcs s t = In_force \<Longrightarrow> force_unlock_body t (the_lock s) = Inr (l, mode, n, wakes) \<Longrightarrow>
    lock_step s (leave t (if wakes then To_wake else Idle) l s)"
| body_restore: "pcs s t = In_restore mode n \<Longrightarrow> m_times_locked (the_lock s) + n < 2 ^ 32 \<Longrightarrow>
    restore_body t mode n (the_lock s) = Inr (l, restored) \<Longrightarrow>
    lock_step s (leave t (if restored then Idle else Restoring mode n) l s)"
| wait: "pcs s t = To_wait mode \<Longrightarrow> add_blocker t (m_queue (the_lock s)) = (q, added) \<Longrightarrow>
    lock_step s (s\<lparr>the_lock := (the_lock s)\<lparr>m_queue := q\<rparr>,
      pcs := (pcs s)(t := if added then Blocked mode else Locking mode)\<rparr>)"
| interrupted: "pcs s t = Blocked mode \<Longrightarrow>
    lock_step s (s\<lparr>the_lock := (the_lock s)\<lparr>m_queue := remove_blocker t (m_queue (the_lock s))\<rparr>,
      pcs := (pcs s)(t := Locking mode)\<rparr>)"
| wake: "pcs s t = To_wake \<Longrightarrow> wake_one (m_queue (the_lock s)) = Inr (q, []) \<Longrightarrow>
    lock_step s (s\<lparr>the_lock := (the_lock s)\<lparr>m_queue := q\<rparr>, pcs := (pcs s)(t := Idle)\<rparr>)"
| wake_thread: "pcs s t = To_wake \<Longrightarrow> wake_one (m_queue (the_lock s)) = Inr (q, [u]) \<Longrightarrow>
    pcs s u = Blocked mode \<Longrightarrow>
    lock_step s (s\<lparr>the_lock := (the_lock s)\<lparr>m_queue := q\<rparr>, pcs := (pcs s)(t := Idle, u := Locking mode)\<rparr>)"

inductive lock_reachable :: "system \<Rightarrow> bool" where
  initially: "lock_reachable \<lparr>the_lock = lock_construct, m_lock = False, pcs = \<lambda>_. Idle\<rparr>"
| step: "lock_reachable s \<Longrightarrow> lock_step s s' \<Longrightarrow> lock_reachable s'"

inductive_cases lock_stepE: "lock_step s s'"

section \<open>The bodies\<close>

abbreviation held_total :: "(nat \<times> nat) list \<Rightarrow> nat" where
  "held_total al \<equiv> sum_list (map snd al)"

definition lock_ok :: "lock \<Rightarrow> bool" where
  "lock_ok l \<longleftrightarrow> m_times_locked l < 2 ^ 32 \<and>
     (case m_mode l of
        Unlocked \<Rightarrow> m_holder l = None \<and> m_shared_holders l = [] \<and> m_times_locked l = 0
      | Exclusive \<Rightarrow> m_holder l \<noteq> None \<and> m_shared_holders l = [] \<and> 0 < m_times_locked l \<and>
          m_should_block (m_queue l)
      | Shared \<Rightarrow> m_holder l = None \<and> m_shared_holders l \<noteq> [] \<and> distinct (map fst (m_shared_holders l)) \<and>
          (\<forall>v\<in>set (map snd (m_shared_holders l)). 0 < v) \<and> m_times_locked l = held_total (m_shared_holders l) \<and>
          m_should_block (m_queue l))"

lemma lock_ok_cases:
  assumes "lock_ok l"
  obtains
    (unlocked) "m_mode l = Unlocked" "m_holder l = None" "m_shared_holders l = []" "m_times_locked l = 0"
  | (exclusive) h where "m_mode l = Exclusive" "m_holder l = Some h" "m_shared_holders l = []"
      "0 < m_times_locked l" "m_times_locked l < 2 ^ 32" "m_should_block (m_queue l)"
  | (shared) "m_mode l = Shared" "m_holder l = None" "m_shared_holders l \<noteq> []"
      "distinct (map fst (m_shared_holders l))" "\<forall>v\<in>set (map snd (m_shared_holders l)). 0 < v"
      "m_times_locked l = held_total (m_shared_holders l)" "m_times_locked l < 2 ^ 32" "m_should_block (m_queue l)"
  using assms by (cases "m_mode l") (auto simp: lock_ok_def)

lemma total_update:
  "distinct (map fst al) \<Longrightarrow>
   held_total (AList.update k v al) + (case map_of al k of Some w \<Rightarrow> w | None \<Rightarrow> 0) = held_total al + v"
proof (induction al)
  case (Cons p al)
  then show ?case by (cases p) (auto simp: map_of_eq_None_iff split: option.splits)
qed simp

lemma total_delete:
  "distinct (map fst al) \<Longrightarrow>
   held_total (AList.delete k al) + (case map_of al k of Some w \<Rightarrow> w | None \<Rightarrow> 0) = held_total al"
proof (induction al)
  case (Cons p al)
  have "AList.delete (fst p) al = al" if "fst p \<notin> set (map fst al)"
    using that by (induction al) (auto simp: AList.delete_eq)
  with Cons show ?case by (cases p) (auto simp: AList.delete_eq split: option.splits)
qed (simp add: AList.delete_eq)

lemma update_values:
  "distinct (map fst al) \<Longrightarrow> \<forall>w\<in>set (map snd al). 0 < w \<Longrightarrow> 0 < v \<Longrightarrow>
   \<forall>w\<in>set (map snd (AList.update k v al)). (0::nat) < w"
  by (induction al) auto

lemma delete_values:
  "\<forall>w\<in>set (map snd al). 0 < w \<Longrightarrow> \<forall>w\<in>set (map snd (AList.delete k al)). (0::nat) < w"
  by (auto simp: AList.delete_eq)

lemma total_zero: "\<forall>v\<in>set (map snd al). 0 < v \<Longrightarrow> held_total al = 0 \<longleftrightarrow> al = []"
  by (cases al) auto

lemma map_of_value:
  "\<forall>v\<in>set (map snd al). (0::nat) < v \<Longrightarrow> map_of al k = Some v \<Longrightarrow> 0 < v"
  by (force dest: map_of_SomeD)

lemma value_le_total: "map_of al k = Some v \<Longrightarrow> v \<le> held_total al"
  by (drule map_of_SomeD) (force intro: member_le_sum_list)

text \<open>What a body may change: nothing of the wait queue but the flag, and no other thread's holding.\<close>

definition body_frame :: "nat \<Rightarrow> lock \<Rightarrow> lock \<Rightarrow> bool" where
  "body_frame t l l' \<longleftrightarrow> lock_ok l' \<and> m_blockers (m_queue l') = m_blockers (m_queue l) \<and>
     m_wake_requested (m_queue l') = m_wake_requested (m_queue l) \<and>
     (\<forall>u. u \<noteq> t \<longrightarrow> holds l' u = holds l u)"

lemmas queue_simps = set_should_block_def should_block_def

lemma lock_body_result:
  assumes "lock_ok l" and "mode \<noteq> Unlocked" and "m_times_locked l + 1 < 2 ^ 32"
  shows "\<exists>l' acquired. lock_body t mode l = Inr (l', acquired) \<and> body_frame t l l' \<and>
    (if acquired then m_mode l' \<noteq> Unlocked \<and> holds l' t = holds l t + 1
     else l' = l \<and> m_mode l \<noteq> Unlocked)"
  using assms(1)
proof (cases rule: lock_ok_cases)
  case unlocked
  then show ?thesis
    using assms(2) by (cases mode)
      (auto simp: lock_body_def lock_unlocked_def Let_def body_frame_def lock_ok_def holds_def queue_simps size_add_id)
next
  case (exclusive h)
  then show ?thesis
    using assms by (cases mode)
      (auto simp: lock_body_def lock_exclusive_def body_frame_def lock_ok_def holds_def size_add_id)
next
  case shared
  show ?thesis
  proof (cases "mode = Shared")
    case False
    with shared show ?thesis by (auto simp: lock_body_def lock_shared_def body_frame_def assms(1))
  next
    case True
    let ?old = "case map_of (m_shared_holders l) t of Some v \<Rightarrow> v | None \<Rightarrow> 0"
    have old: "?old \<le> held_total (m_shared_holders l)"
      using value_le_total by (auto split: option.splits)
    have new: "(case map_of (m_shared_holders l) t of Some v \<Rightarrow> size_add v 1 | None \<Rightarrow> 1) = ?old + 1"
      using old assms(3) shared(6) by (auto simp: size_add_id split: option.splits)
    have "held_total (AList.update t (?old + 1) (m_shared_holders l)) = m_times_locked l + 1"
      using total_update [OF shared(4), of t "?old + 1"] shared(6) old by linarith
    moreover have "AList.update t (?old + 1) (m_shared_holders l) \<noteq> []" by (cases "m_shared_holders l") auto
    moreover have "0 < m_times_locked l" using total_zero [OF shared(5)] shared(3,6) by (metis gr0I)
    ultimately show ?thesis
      using True shared assms(3) update_values [OF shared(4,5), of "?old + 1" t]
      by (auto simp: lock_body_def lock_shared_def Let_def new body_frame_def lock_ok_def holds_def size_add_id
          distinct_update update_conv' split: option.splits)
  qed
qed

lemma release_shared_result:
  assumes "distinct (map fst (m_shared_holders l))" and "\<forall>v\<in>set (map snd (m_shared_holders l)). 0 < v"
    and "map_of (m_shared_holders l) t = Some v"
  shows "\<exists>al. release_shared t l = Inr (l\<lparr>m_shared_holders := al\<rparr>) \<and> distinct (map fst al) \<and>
    (\<forall>v\<in>set (map snd al). 0 < v) \<and> held_total al + 1 = held_total (m_shared_holders l) \<and>
    map_of al t = (if 1 < v then Some (v - 1) else None) \<and>
    (\<forall>u. u \<noteq> t \<longrightarrow> map_of al u = map_of (m_shared_holders l) u)"
proof (cases "1 < v")
  case True
  with assms total_update [OF assms(1), of t "v - 1"] update_values [OF assms(1,2), of "v - 1" t]
  show ?thesis
    by (intro exI [of _ "AList.update t (v - 1) (m_shared_holders l)"])
      (auto simp: release_shared_def distinct_update update_conv')
next
  case False
  with assms(3) map_of_value [OF assms(2,3)] have "v = 1" by simp
  with assms total_delete [OF assms(1), of t] delete_values [OF assms(2), of t] show ?thesis
    by (intro exI [of _ "AList.delete t (m_shared_holders l)"])
      (auto simp: release_shared_def distinct_delete delete_conv')
qed

lemma unlock_body_result:
  assumes "lock_ok l" and "0 < holds l t"
  shows "\<exists>l' unlocked_last. unlock_body t l = Inr (l', unlocked_last) \<and> body_frame t l l' \<and>
    holds l' t + 1 = holds l t \<and> (unlocked_last \<longleftrightarrow> m_mode l' = Unlocked) \<and>
    (unlocked_last \<longrightarrow> \<not> m_should_block (m_queue l')) \<and> (\<not> unlocked_last \<longrightarrow> m_mode l' = m_mode l)"
  using assms(1)
proof (cases rule: lock_ok_cases)
  case unlocked
  with assms(2) show ?thesis by (simp add: holds_def)
next
  case (exclusive h)
  with assms(2) show ?thesis
    by (auto simp: unlock_body_def Let_def body_frame_def lock_ok_def holds_def queue_simps split: if_splits)
next
  case shared
  with assms(2) obtain v where v: "map_of (m_shared_holders l) t = Some v"
    by (auto simp: holds_def split: option.splits)
  let ?l = "l\<lparr>m_times_locked := m_times_locked l - 1\<rparr>"
  from release_shared_result [of ?l t v] shared(4,5) v obtain al where al:
    "release_shared t ?l = Inr (?l\<lparr>m_shared_holders := al\<rparr>)" "distinct (map fst al)"
    "\<forall>v\<in>set (map snd al). 0 < v" "held_total al + 1 = held_total (m_shared_holders l)"
    "map_of al t = (if 1 < v then Some (v - 1) else None)"
    "\<forall>u. u \<noteq> t \<longrightarrow> map_of al u = map_of (m_shared_holders l) u" by auto
  have times: "m_times_locked l = held_total al + 1" using al(4) shared(6) by simp
  have "0 < v" using map_of_value [OF shared(5) v] .
  with al(1-3,5,6) times shared v total_zero [OF al(3)] show ?thesis
    by (auto simp: unlock_body_def Let_def body_frame_def lock_ok_def holds_def queue_simps split: if_splits)
qed

lemma force_unlock_body_result:
  assumes "lock_ok l"
  shows "\<exists>l' mode n wakes. force_unlock_body t l = Inr (l', mode, n, wakes) \<and> body_frame t l l' \<and>
    holds l' t = 0 \<and> n = holds l t \<and> (mode = Unlocked \<longleftrightarrow> n = 0) \<and> (n = 0 \<longrightarrow> l' = l) \<and>
    (0 < n \<longrightarrow> mode = m_mode l \<and> wakes) \<and>
    (m_mode l' = Unlocked \<longrightarrow> m_mode l = Unlocked \<or> wakes \<and> \<not> m_should_block (m_queue l'))"
  using assms
proof (cases rule: lock_ok_cases)
  case unlocked
  with assms show ?thesis by (auto simp: force_unlock_body_def body_frame_def holds_def)
next
  case (exclusive h)
  with assms show ?thesis
    by (auto simp: force_unlock_body_def Let_def body_frame_def lock_ok_def holds_def queue_simps)
next
  case shared
  show ?thesis
  proof (cases "map_of (m_shared_holders l) t")
    case None
    with shared assms show ?thesis by (auto simp: force_unlock_body_def body_frame_def holds_def)
  next
    case (Some v)
    let ?al = "AList.delete t (m_shared_holders l)"
    have v: "0 < v" "v \<le> m_times_locked l"
      using map_of_value [OF shared(5) Some] value_le_total [OF Some] shared(6) by simp_all
    have "held_total ?al = m_times_locked l - v" using total_delete [OF shared(4), of t] Some shared(6) by simp
    note al = this
    let ?l1 = "l\<lparr>m_shared_holders := ?al, m_times_locked := m_times_locked l - v\<rparr>"
    let ?l' = "if m_times_locked l - v = 0 then set_should_block False (?l1\<lparr>m_mode := Unlocked\<rparr>) else ?l1"
    have pos: "\<forall>w\<in>set (map snd ?al). 0 < w" by (rule delete_values [OF shared(5)])
    have "force_unlock_body t l = Inr (?l', Shared, v, True)"
      using shared(1,2) Some v by (simp add: force_unlock_body_def Let_def)
    moreover have "lock_ok ?l'"
      using shared al pos total_zero [OF pos] distinct_delete [OF shared(4), of t]
      by (auto simp: lock_ok_def queue_simps)
    moreover have "holds ?l' u = (if u = t then 0 else holds l u)" for u
      using shared(2) by (simp add: holds_def queue_simps delete_conv')
    moreover have "holds l t = v" using shared(2) Some by (simp add: holds_def)
    ultimately show ?thesis using v(1) shared(1)
      by (intro exI [of _ ?l'] exI [of _ Shared] exI [of _ v] exI [of _ True])
        (simp add: body_frame_def queue_simps)
  qed
qed

lemma restore_body_result:
  assumes "lock_ok l" and "mode \<noteq> Unlocked" and "0 < n" and "holds l t = 0"
    and "m_times_locked l + n < 2 ^ 32"
  shows "\<exists>l' restored. restore_body t mode n l = Inr (l', restored) \<and> body_frame t l l' \<and>
    (if restored then m_mode l' = mode \<and> holds l' t = n else l' = l \<and> m_mode l \<noteq> Unlocked)"
  using assms(1)
proof (cases rule: lock_ok_cases)
  case unlocked
  with assms show ?thesis by (cases mode)
      (auto simp: restore_body_def Let_def body_frame_def lock_ok_def holds_def queue_simps size_add_id)
next
  case (exclusive h)
  with assms show ?thesis by (cases mode) (auto simp: restore_body_def body_frame_def)
next
  case shared
  show ?thesis
  proof (cases "mode = Shared")
    case False
    with shared assms show ?thesis by (cases mode) (auto simp: restore_body_def body_frame_def)
  next
    case True
    have none: "map_of (m_shared_holders l) t = None"
      using assms(4) shared(2) map_of_value [OF shared(5), of t]
      by (cases "map_of (m_shared_holders l) t") (auto simp: holds_def)
    have "AList.update t n (m_shared_holders l) \<noteq> []" by (cases "m_shared_holders l") auto
    with True shared assms none total_update [OF shared(4), of t n] update_values [OF shared(4,5) assms(3), of t]
    show ?thesis
      by (auto simp: restore_body_def Let_def body_frame_def lock_ok_def holds_def queue_simps size_add_id
          distinct_update update_conv')
  qed
qed

section \<open>The invariant of the system\<close>

fun inside :: "pc \<Rightarrow> bool" where
  "inside (In_lock _) = True"
| "inside In_unlock = True"
| "inside In_force = True"
| "inside (In_restore _ _) = True"
| "inside _ = False"

text \<open>A thread that will come to the lock, or wake another one, without being woken itself.\<close>

fun active :: "pc \<Rightarrow> bool" where
  "active (Locking _) = True"
| "active (In_lock _) = True"
| "active (To_wait _) = True"
| "active To_wake = True"
| "active _ = False"

definition blocked_in :: "pc \<Rightarrow> bool" where
  "blocked_in p \<longleftrightarrow> (\<exists>mode. p = Blocked mode)"

definition will_wait :: "pc \<Rightarrow> bool" where
  "will_wait p \<longleftrightarrow> (\<exists>mode. p = To_wait mode)"

fun pc_ok :: "lock \<Rightarrow> nat \<Rightarrow> pc \<Rightarrow> bool" where
  "pc_ok l t (Locking mode) = (mode \<noteq> Unlocked)"
| "pc_ok l t (In_lock mode) = (mode \<noteq> Unlocked)"
| "pc_ok l t (To_wait mode) = (mode \<noteq> Unlocked)"
| "pc_ok l t (Blocked mode) = (mode \<noteq> Unlocked)"
| "pc_ok l t Unlocking = (0 < holds l t)"
| "pc_ok l t In_unlock = (0 < holds l t)"
| "pc_ok l t (Restoring mode n) = (mode \<noteq> Unlocked \<and> 0 < n \<and> holds l t = 0)"
| "pc_ok l t (In_restore mode n) = (mode \<noteq> Unlocked \<and> 0 < n \<and> holds l t = 0)"
| "pc_ok l t _ = True"

definition sys_ok :: "system \<Rightarrow> bool" where
  "sys_ok s \<longleftrightarrow>
     lock_ok (the_lock s) \<and> all_blocked (m_queue (the_lock s)) \<and> distinct (waiting (m_queue (the_lock s))) \<and>
     (\<forall>t. t \<in> set (waiting (m_queue (the_lock s))) \<longleftrightarrow> blocked_in (pcs s t)) \<and>
     (\<forall>t. pc_ok (the_lock s) t (pcs s t)) \<and>
     (m_lock s \<longleftrightarrow> (\<exists>t. inside (pcs s t))) \<and>
     (\<forall>t u. inside (pcs s t) \<longrightarrow> inside (pcs s u) \<longrightarrow> t = u) \<and>
     (m_mode (the_lock s) = Unlocked \<longrightarrow> (\<exists>t. will_wait (pcs s t)) \<longrightarrow> \<not> m_should_block (m_queue (the_lock s))) \<and>
     (m_mode (the_lock s) = Unlocked \<longrightarrow> waiting (m_queue (the_lock s)) \<noteq> [] \<longrightarrow> (\<exists>t. active (pcs s t)))"

lemma sys_okD:
  assumes "sys_ok s"
  shows "lock_ok (the_lock s)" and "all_blocked (m_queue (the_lock s))"
    and "distinct (waiting (m_queue (the_lock s)))"
    and "t \<in> set (waiting (m_queue (the_lock s))) \<longleftrightarrow> blocked_in (pcs s t)"
    and "pc_ok (the_lock s) t (pcs s t)"
    and "m_lock s \<longleftrightarrow> (\<exists>t. inside (pcs s t))"
    and "inside (pcs s t) \<Longrightarrow> inside (pcs s u) \<Longrightarrow> t = u"
    and "m_mode (the_lock s) = Unlocked \<Longrightarrow> will_wait (pcs s t) \<Longrightarrow> \<not> m_should_block (m_queue (the_lock s))"
    and "m_mode (the_lock s) = Unlocked \<Longrightarrow> waiting (m_queue (the_lock s)) \<noteq> [] \<Longrightarrow> \<exists>t. active (pcs s t)"
  using assms unfolding sys_ok_def by blast+

lemma blocked_in_simps [simp]:
  "blocked_in (Blocked mode)" "\<not> blocked_in Idle" "\<not> blocked_in (Locking mode)" "\<not> blocked_in (In_lock mode)"
  "\<not> blocked_in (To_wait mode)" "\<not> blocked_in Unlocking" "\<not> blocked_in In_unlock" "\<not> blocked_in Forcing"
  "\<not> blocked_in In_force" "\<not> blocked_in (Restoring mode n)" "\<not> blocked_in (In_restore mode n)" "\<not> blocked_in To_wake"
  by (simp_all add: blocked_in_def)

lemma will_wait_simps [simp]:
  "will_wait (To_wait mode)" "\<not> will_wait Idle" "\<not> will_wait (Locking mode)" "\<not> will_wait (In_lock mode)"
  "\<not> will_wait (Blocked mode)" "\<not> will_wait Unlocking" "\<not> will_wait In_unlock" "\<not> will_wait Forcing"
  "\<not> will_wait In_force" "\<not> will_wait (Restoring mode n)" "\<not> will_wait (In_restore mode n)" "\<not> will_wait To_wake"
  by (simp_all add: will_wait_def)

lemma goto_ok:
  assumes ok: "sys_ok s" and "pcs s t = Idle" and "pc_ok (the_lock s) t p"
    and "\<not> inside p" and "\<not> blocked_in p" and "\<not> will_wait p"
  shows "sys_ok (goto t p s)"
proof -
  note inv = sys_okD [OF ok]
  have "\<exists>u. active (((pcs s)(t := p)) u)" if "m_mode (the_lock s) = Unlocked" "waiting (m_queue (the_lock s)) \<noteq> []"
    using inv(9) [OF that] assms(2) by (metis active.simps(5) fun_upd_other)
  moreover have "m_lock s \<longleftrightarrow> (\<exists>u. inside (((pcs s)(t := p)) u))"
    using inv(6) assms(2,4) by (metis fun_upd_apply inside.simps(5))
  ultimately show ?thesis
    using inv(1-5,7,8) assms(2-) unfolding sys_ok_def goto_def by auto
qed

lemma enter_ok:
  assumes ok: "sys_ok s" and "\<not> m_lock s" and "pc_ok (the_lock s) t p" and "inside p"
    and "\<not> blocked_in (pcs s t)" and "\<not> blocked_in p" and "\<not> will_wait p" and "active (pcs s t) \<Longrightarrow> active p"
  shows "sys_ok (enter t p s)"
proof -
  note inv = sys_okD [OF ok]
  have none: "\<not> inside (pcs s u)" for u using inv(6) assms(2) by blast
  have "\<exists>u. active (((pcs s)(t := p)) u)" if "m_mode (the_lock s) = Unlocked" "waiting (m_queue (the_lock s)) \<noteq> []"
    using inv(9) [OF that] assms(8) by (metis fun_upd_other fun_upd_same)
  then show ?thesis
    using inv(1-5,8) assms(3-7) none unfolding sys_ok_def enter_def by auto
qed

lemma pc_ok_frame: "body_frame t l l' \<Longrightarrow> u \<noteq> t \<Longrightarrow> pc_ok l' u p = pc_ok l u p"
  by (cases p) (simp_all add: body_frame_def)

lemma leave_ok:
  assumes ok: "sys_ok s" and "inside (pcs s t)" and frame: "body_frame t (the_lock s) l'"
    and "pc_ok l' t p" and "\<not> inside p" and "\<not> blocked_in p"
    and "will_wait p \<Longrightarrow> m_mode l' \<noteq> Unlocked"
    and "m_mode l' = Unlocked \<Longrightarrow> \<not> m_should_block (m_queue l') \<or> l' = the_lock s"
    and "m_mode l' = Unlocked \<Longrightarrow> active p \<or> m_mode (the_lock s) = Unlocked \<and> \<not> active (pcs s t)"
  shows "sys_ok (leave t p l' s)"
proof -
  note inv = sys_okD [OF ok]
  have others: "\<not> inside (pcs s u)" if "u \<noteq> t" for u using inv(7) assms(2) that by blast
  let ?pcs = "(pcs s)(t := p)"
  have blockers: "m_blockers (m_queue l') = m_blockers (m_queue (the_lock s))" and "lock_ok l'"
    using frame by (simp_all add: body_frame_def)
  moreover have "all_blocked (m_queue l')" using inv(2) blockers by (simp add: all_blocked_def)
  moreover have "\<not> blocked_in (pcs s t)" using assms(2) by (cases "pcs s t") auto
  then have "\<forall>u. u \<in> set (waiting (m_queue l')) \<longleftrightarrow> blocked_in (?pcs u)"
    using inv(4) blockers assms(6) by simp
  moreover have "\<forall>u. pc_ok l' u (?pcs u)" using inv(5) pc_ok_frame [OF frame] assms(4) by simp
  moreover have "\<forall>u. \<not> inside (?pcs u)" using others assms(5) by simp
  moreover have "\<not> m_should_block (m_queue l')" if "m_mode l' = Unlocked" "will_wait (?pcs u)" for u
    using assms(7,8) inv(8) [of u] that by (cases "u = t") auto
  moreover have "\<exists>u. active (?pcs u)" if "m_mode l' = Unlocked" "waiting (m_queue l') \<noteq> []"
    using assms(9) [OF that(1)] inv(9) that(2) unfolding blockers by (metis fun_upd_other fun_upd_same)
  ultimately show ?thesis
    using inv(3) unfolding sys_ok_def leave_def by (auto simp del: fun_upd_apply map_is_Nil_conv)
qed

lemma queue_step_ok:
  assumes ok: "sys_ok s" and q: "m_should_block q = m_should_block (m_queue (the_lock s))" "all_blocked q"
      "distinct (waiting q)" "\<And>u. u \<in> set (waiting q) \<longleftrightarrow> blocked_in (pcs' u)"
    and pcs': "\<And>u. pc_ok (the_lock s) u (pcs' u)" "\<And>u. inside (pcs' u) \<longleftrightarrow> inside (pcs s u)"
      "\<And>u. will_wait (pcs' u) \<Longrightarrow> will_wait (pcs s u)"
    and wakeup: "m_mode (the_lock s) = Unlocked \<Longrightarrow> waiting q \<noteq> [] \<Longrightarrow> \<exists>u. active (pcs' u)"
  shows "sys_ok (s\<lparr>the_lock := (the_lock s)\<lparr>m_queue := q\<rparr>, pcs := pcs'\<rparr>)"
proof -
  note inv = sys_okD [OF ok]
  have "lock_ok ((the_lock s)\<lparr>m_queue := q\<rparr>)"
    using inv(1) q(1) by (cases "m_mode (the_lock s)") (simp_all add: lock_ok_def)
  moreover have "pc_ok ((the_lock s)\<lparr>m_queue := q\<rparr>) u p = pc_ok (the_lock s) u p" for u p
    by (cases p) (simp_all add: holds_def)
  ultimately show ?thesis
    using inv(6-8) q pcs' wakeup unfolding sys_ok_def by (simp del: set_map map_is_Nil_conv) metis
qed

lemma remove_blocker_waiting:
  assumes "all_blocked q" and "distinct (waiting q)"
  shows "all_blocked (remove_blocker t q)" and "distinct (waiting (remove_blocker t q))"
    and "set (waiting (remove_blocker t q)) = set (waiting q) - {t}"
    and "m_should_block (remove_blocker t q) = m_should_block q"
proof -
  have "set (remove_first_matching (\<lambda>b. blocked_thread b = t) bs) \<subseteq> set bs \<and>
      (distinct (map blocked_thread bs) \<longrightarrow>
        distinct (map blocked_thread (remove_first_matching (\<lambda>b. blocked_thread b = t) bs)) \<and>
        set (map blocked_thread (remove_first_matching (\<lambda>b. blocked_thread b = t) bs)) =
          set (map blocked_thread bs) - {t})" for bs
    by (induction bs) auto
  from this [of "m_blockers q"] assms
  show "all_blocked (remove_blocker t q)" and "distinct (waiting (remove_blocker t q))"
    and "set (waiting (remove_blocker t q)) = set (waiting q) - {t}"
    and "m_should_block (remove_blocker t q) = m_should_block q"
    by (auto simp: remove_blocker_def all_blocked_def)
qed

lemma wait_ok:
  assumes ok: "sys_ok s" and t: "pcs s t = To_wait mode" and add: "add_blocker t (m_queue (the_lock s)) = (q, added)"
  shows "sys_ok (s\<lparr>the_lock := (the_lock s)\<lparr>m_queue := q\<rparr>,
    pcs := (pcs s)(t := if added then Blocked mode else Locking mode)\<rparr>)"
proof -
  note inv = sys_okD [OF ok]
  have mode: "mode \<noteq> Unlocked" using inv(5) [of t] t by simp
  have fresh: "t \<notin> set (waiting (m_queue (the_lock s)))" using inv(4) [of t] t by simp
  show ?thesis
  proof (cases added)
    case True
    then have "m_should_block (m_queue (the_lock s))"
      using add by (auto simp: add_blocker_def should_add_blocker_def split: if_splits)
    then have "m_mode (the_lock s) \<noteq> Unlocked" using inv(8) [of t] t by auto
    moreover have q: "waiting q = waiting (m_queue (the_lock s)) @ [t]" "all_blocked q"
        "m_should_block q = m_should_block (m_queue (the_lock s))"
      using True add inv(2) by (auto simp: add_blocker_def should_add_blocker_def all_blocked_def split: if_splits)
    moreover have "u \<in> set (waiting q) \<longleftrightarrow> blocked_in (((pcs s)(t := Blocked mode)) u)" for u
      unfolding q(1) using inv(4) [of u] by auto
    moreover have "distinct (waiting q)" unfolding q(1) using inv(3) fresh by simp
    ultimately show ?thesis
      using True inv(5) mode t by (intro queue_step_ok [OF ok]) (auto split: if_splits)
  next
    case False
    with add have q: "m_blockers q = m_blockers (m_queue (the_lock s))"
        "m_should_block q = m_should_block (m_queue (the_lock s))"
      by (auto simp: add_blocker_def should_add_blocker_def split: if_splits)
    have "\<exists>u. active (((pcs s)(t := Locking mode)) u)" by (intro exI [of _ t]) simp
    with False show ?thesis
      using q inv(2-5) mode fresh t by (intro queue_step_ok [OF ok]) (auto simp: all_blocked_def split: if_splits)
  qed
qed

lemma interrupted_ok:
  assumes ok: "sys_ok s" and t: "pcs s t = Blocked mode"
  shows "sys_ok (s\<lparr>the_lock := (the_lock s)\<lparr>m_queue := remove_blocker t (m_queue (the_lock s))\<rparr>,
    pcs := (pcs s)(t := Locking mode)\<rparr>)"
proof -
  note inv = sys_okD [OF ok]
  note removed = remove_blocker_waiting [OF inv(2,3), of t]
  have "\<exists>u. active (((pcs s)(t := Locking mode)) u)" by (intro exI [of _ t]) simp
  moreover have "u \<in> set (waiting (remove_blocker t (m_queue (the_lock s)))) \<longleftrightarrow>
      blocked_in (((pcs s)(t := Locking mode)) u)" for u
    unfolding removed(3) using inv(4) [of u] by auto
  ultimately show ?thesis
    using removed(1,2,4) inv(5) [of t] inv(5) t by (intro queue_step_ok [OF ok]) (auto split: if_splits)
qed

lemma wake_ok:
  assumes ok: "sys_ok s" and t: "pcs s t = To_wake" and wakes: "wake_one (m_queue (the_lock s)) = Inr (q, woken)"
  shows "woken = [] \<Longrightarrow> sys_ok (s\<lparr>the_lock := (the_lock s)\<lparr>m_queue := q\<rparr>, pcs := (pcs s)(t := Idle)\<rparr>)"
    and "woken = [u] \<Longrightarrow> pcs s u = Blocked mode \<Longrightarrow>
      sys_ok (s\<lparr>the_lock := (the_lock s)\<lparr>m_queue := q\<rparr>, pcs := (pcs s)(t := Idle, u := Locking mode)\<rparr>)"
proof -
  note inv = sys_okD [OF ok]
  have q: "woken = take 1 (waiting (m_queue (the_lock s)))" "waiting q = drop 1 (waiting (m_queue (the_lock s)))"
      "m_should_block q = m_should_block (m_queue (the_lock s))" "all_blocked q"
    using wake_one_first [OF inv(2)] wakes by auto
  { assume "woken = []"
    then have empty: "waiting (m_queue (the_lock s)) = []" "waiting q = []" using q(1,2) by auto
    have "\<not> blocked_in (pcs s v)" for v using inv(4) [of v] empty(1) by simp
    then show "sys_ok (s\<lparr>the_lock := (the_lock s)\<lparr>m_queue := q\<rparr>, pcs := (pcs s)(t := Idle)\<rparr>)"
      using q(3,4) empty inv(5) t by (intro queue_step_ok [OF ok]) (auto split: if_splits) }
  { assume "woken = [u]" and u: "pcs s u = Blocked mode"
    then have w: "waiting (m_queue (the_lock s)) = u # waiting q"
      using q(1,2) by (cases "waiting (m_queue (the_lock s))") auto
    let ?pcs = "(pcs s)(t := Idle, u := Locking mode)"
    have "\<exists>v. active (?pcs v)" by (intro exI [of _ u]) simp
    moreover have "v \<in> set (waiting q) \<longleftrightarrow> blocked_in (?pcs v)" for v
      using inv(3) inv(4) [of v] t unfolding w by auto
    moreover have "distinct (waiting q)" using inv(3) unfolding w by simp
    ultimately show "sys_ok (s\<lparr>the_lock := (the_lock s)\<lparr>m_queue := q\<rparr>, pcs := ?pcs\<rparr>)"
      using q(3,4) inv(5) inv(5) [of u] t u by (intro queue_step_ok [OF ok]) (auto split: if_splits) }
qed

lemma body_lock_ok:
  assumes ok: "sys_ok s" and t: "pcs s t = In_lock mode" and "m_times_locked (the_lock s) + 1 < 2 ^ 32"
    and body: "lock_body t mode (the_lock s) = Inr (l, acquired)"
  shows "sys_ok (leave t (if acquired then Idle else To_wait mode) l s)"
proof -
  have mode: "mode \<noteq> Unlocked" using sys_okD(5) [OF ok, of t] t by simp
  show ?thesis
    using lock_body_result [OF sys_okD(1) [OF ok] mode assms(3), of t] body t mode
    by (intro leave_ok [OF ok]) (auto split: if_splits)
qed

lemma body_unlock_ok:
  assumes ok: "sys_ok s" and t: "pcs s t = In_unlock" and body: "unlock_body t (the_lock s) = Inr (l, unlocked_last)"
  shows "sys_ok (leave t (if unlocked_last then To_wake else Idle) l s)"
proof -
  have "0 < holds (the_lock s) t" using sys_okD(5) [OF ok, of t] t by simp
  from unlock_body_result [OF sys_okD(1) [OF ok] this] body t show ?thesis
    by (intro leave_ok [OF ok]) (auto split: if_splits)
qed

lemma body_force_ok:
  assumes ok: "sys_ok s" and t: "pcs s t = In_force"
    and body: "force_unlock_body t (the_lock s) = Inr (l, mode, n, wakes)"
  shows "sys_ok (leave t (if wakes then To_wake else Idle) l s)"
  using force_unlock_body_result [OF sys_okD(1) [OF ok], of t] body t
  by (intro leave_ok [OF ok]) (auto split: if_splits)

lemma body_restore_ok:
  assumes ok: "sys_ok s" and t: "pcs s t = In_restore mode n" and "m_times_locked (the_lock s) + n < 2 ^ 32"
    and body: "restore_body t mode n (the_lock s) = Inr (l, restored)"
  shows "sys_ok (leave t (if restored then Idle else Restoring mode n) l s)"
proof -
  have pre: "mode \<noteq> Unlocked" "0 < n" "holds (the_lock s) t = 0" using sys_okD(5) [OF ok, of t] t by auto
  from restore_body_result [OF sys_okD(1) [OF ok] pre assms(3)] body t pre show ?thesis
    by (intro leave_ok [OF ok]) (auto split: if_splits)
qed

lemma lock_step_ok: "lock_step s s' \<Longrightarrow> sys_ok s \<Longrightarrow> sys_ok s'"
proof (induction rule: lock_step.induct)
  case (call_lock s t mode)
  then show ?case by (intro goto_ok) (auto simp: lock_enter_def verify_def split: if_splits)
next
  case (call_restore s t mode n)
  then show ?case by (intro goto_ok) (auto simp: restore_enter_def verify_def split: if_splits)
next
  case (exchange_lock s t mode)
  then show ?case using sys_okD(5) [of s t] by (intro enter_ok) auto
next
  case (exchange_unlock s t)
  then show ?case using sys_okD(5) [of s t] by (intro enter_ok) auto
next
  case (exchange_force s t)
  then show ?case by (intro enter_ok) auto
next
  case (exchange_restore s t mode n)
  then show ?case using sys_okD(5) [of s t] by (intro enter_ok) auto
qed (simp_all add: goto_ok enter_ok body_lock_ok body_unlock_ok body_force_ok body_restore_ok wait_ok interrupted_ok
    wake_ok)

lemma reachable_ok: "lock_reachable s \<Longrightarrow> sys_ok s"
proof (induction rule: lock_reachable.induct)
  case initially
  show ?case by (simp add: sys_ok_def lock_ok_def lock_construct_def wait_queue_construct_def all_blocked_def)
qed (rule lock_step_ok)

section \<open>Correctness\<close>

lemma held_iff_locked:
  assumes "lock_ok l"
  shows "is_locked l \<longleftrightarrow> (\<exists>t. 0 < holds l t)"
  using assms
proof (cases rule: lock_ok_cases)
  case shared
  then obtain t v al where "m_shared_holders l = (t, v) # al" by (cases "m_shared_holders l") auto
  with shared have "0 < holds l t" by (simp add: holds_def)
  with shared show ?thesis by (auto simp: is_locked_def)
qed (auto simp: is_locked_def holds_def)

lemma two_holders_shared:
  assumes "lock_ok l" and "t \<noteq> u" and "0 < holds l t" and "0 < holds l u"
  shows "m_mode l = Shared"
  using assms(1)
proof (cases rule: lock_ok_cases)
  case (exclusive h)
  with assms(2-) show ?thesis by (auto simp: holds_def split: if_splits)
qed (use assms(3) in \<open>auto simp: holds_def\<close>)

lemma force_counts:
  assumes "lock_ok l" and "force_unlock_body t l = Inr (l', mode, n, wakes)" and "0 < n"
  shows "m_times_locked l' + n = m_times_locked l"
    and "m_mode l' = Unlocked \<or> mode = Shared \<and> m_mode l' = Shared"
  using assms by (auto simp: force_unlock_body_def Let_def verify_def set_should_block_def
      split: lock_mode.splits if_splits option.splits)

lemma restore_succeeds:
  assumes "restore_body t mode n l = Inr (l', restored)" and "mode \<noteq> Unlocked" and "m_times_locked l + n < 2 ^ 32"
    and "m_mode l = Unlocked \<or> mode = Shared \<and> m_mode l = Shared"
  shows "restored" and "m_times_locked l' = m_times_locked l + n"
  using assms by (auto simp: restore_body_def Let_def verify_def set_should_block_def size_add_id
      split: lock_mode.splits if_splits option.splits)

lemma force_restore:
  assumes "lock_ok l" and "0 < holds l t"
  shows "\<exists>l' wakes l''. force_unlock_body t l = Inr (l', m_mode l, holds l t, wakes) \<and>
    holds l' t = 0 \<and> restore_body t (m_mode l) (holds l t) l' = Inr (l'', True) \<and>
    m_mode l'' = m_mode l \<and> m_times_locked l'' = m_times_locked l \<and> (\<forall>u. holds l'' u = holds l u)"
proof -
  obtain l' wakes where force: "force_unlock_body t l = Inr (l', m_mode l, holds l t, wakes)"
    and l': "body_frame t l l'" "holds l' t = 0" "m_mode l \<noteq> Unlocked"
    using force_unlock_body_result [OF assms(1), of t] assms(2) by auto
  note counts = force_counts [OF assms(1) force assms(2)]
  have "lock_ok l'" "m_times_locked l < 2 ^ 32" using l'(1) assms(1) by (simp_all add: body_frame_def lock_ok_def)
  with counts(1) obtain l'' restored where restore: "restore_body t (m_mode l) (holds l t) l' = Inr (l'', restored)"
    and l'': "body_frame t l' l''" "restored \<Longrightarrow> m_mode l'' = m_mode l \<and> holds l'' t = holds l t"
    using restore_body_result [OF _ l'(3) assms(2) l'(2)] by (metis (full_types))
  have "m_times_locked l' + holds l t < 2 ^ 32" using counts(1) \<open>m_times_locked l < 2 ^ 32\<close> by simp
  note restored = restore_succeeds [OF restore l'(3) this counts(2)]
  have "holds l'' u = holds l u" for u
    using l'(1) l''(1) l''(2) [OF restored(1)] by (cases "u = t") (simp_all add: body_frame_def)
  with force l'(2) restore restored l''(2) counts(1) show ?thesis by (intro exI [of _ l'] exI [of _ wakes] exI [of _ l'']) simp
qed

text \<open>Runs of one thread: a call that takes the lock, one that blocks, and the release of the lock.\<close>

lemma run_lock:
  assumes "lock_reachable \<lparr>the_lock = l, m_lock = False, pcs = f\<rparr>" and "f t = Idle" and "mode \<noteq> Unlocked"
    and "m_times_locked l + 1 < 2 ^ 32" and "lock_body t mode l = Inr (l', acquired)"
  shows "lock_reachable \<lparr>the_lock = l', m_lock = False, pcs = f(t := if acquired then Idle else To_wait mode)\<rparr>"
proof -
  let ?s = "\<lparr>the_lock = l, m_lock = False, pcs = f\<rparr>"
  have "lock_reachable (goto t (Locking mode) ?s)"
    using assms(1,2,3) by (intro lock_reachable.step [OF _ call_lock]) (simp_all add: lock_enter_def verify_def)
  then have "lock_reachable (enter t (In_lock mode) (goto t (Locking mode) ?s))"
    by (intro lock_reachable.step [OF _ exchange_lock]) (simp_all add: goto_def)
  then have "lock_reachable (leave t (if acquired then Idle else To_wait mode) l'
      (enter t (In_lock mode) (goto t (Locking mode) ?s)))"
    using assms(4,5) by (intro lock_reachable.step [OF _ body_lock]) (simp_all add: goto_def enter_def)
  then show ?thesis by (simp add: goto_def enter_def leave_def cong: if_cong)
qed

lemma run_wait:
  assumes "lock_reachable \<lparr>the_lock = l, m_lock = gate, pcs = f\<rparr>" and "f t = To_wait mode"
    and "add_blocker t (m_queue l) = (q, True)"
  shows "lock_reachable \<lparr>the_lock = l\<lparr>m_queue := q\<rparr>, m_lock = gate, pcs = f(t := Blocked mode)\<rparr>"
  using lock_reachable.step [OF assms(1) lock_step.wait [of _ t mode q True]] assms(2,3) by simp

lemma run_to_unlock:
  assumes "lock_reachable \<lparr>the_lock = l, m_lock = False, pcs = f\<rparr>" and "f t = Idle" and "0 < holds l t"
  shows "lock_reachable \<lparr>the_lock = l, m_lock = True, pcs = f(t := In_unlock)\<rparr>"
proof -
  let ?s = "\<lparr>the_lock = l, m_lock = False, pcs = f\<rparr>"
  have "lock_reachable (goto t Unlocking ?s)"
    using assms by (intro lock_reachable.step [OF _ call_unlock]) simp_all
  then have "lock_reachable (enter t In_unlock (goto t Unlocking ?s))"
    by (intro lock_reachable.step [OF _ exchange_unlock]) (simp_all add: goto_def)
  then show ?thesis by (simp add: goto_def enter_def)
qed

lemma run_unlock:
  assumes "lock_reachable \<lparr>the_lock = l, m_lock = True, pcs = f\<rparr>" and "f t = In_unlock"
    and "unlock_body t l = Inr (l', unlocked_last)"
  shows "lock_reachable \<lparr>the_lock = l', m_lock = False, pcs = f(t := if unlocked_last then To_wake else Idle)\<rparr>"
  using lock_reachable.step [OF assms(1) body_unlock [of _ t l' unlocked_last]] assms(2,3)
  by (simp add: leave_def cong: if_cong)

lemmas run_simps = lock_construct_def wait_queue_construct_def lock_body_def lock_unlocked_def lock_exclusive_def
  lock_shared_def unlock_body_def add_blocker_def should_add_blocker_def queue_simps verify_def holds_def Let_def
  size_add_id fun_upd_idem

text \<open>Two readers; and a writer that waits for another one, which is about to wake it.\<close>

definition two_readers :: system where
  "two_readers =
     \<lparr>the_lock = \<lparr>m_mode = Shared, m_times_locked = 2, m_holder = None, m_shared_holders = [(1, 1), (2, 1)],
        m_queue = \<lparr>m_wake_requested = False, m_should_block = True, m_blockers = []\<rparr>\<rparr>,
      m_lock = False, pcs = \<lambda>_. Idle\<rparr>"

definition waiting_writer :: "lock_mode \<Rightarrow> bool \<Rightarrow> pc \<Rightarrow> system" where
  "waiting_writer mode gate p =
     \<lparr>the_lock = \<lparr>m_mode = mode, m_times_locked = if mode = Exclusive then 1 else 0,
        m_holder = if mode = Exclusive then Some 1 else None, m_shared_holders = [],
        m_queue = \<lparr>m_wake_requested = False, m_should_block = (mode = Exclusive),
          m_blockers = [\<lparr>blocked_thread = 2, m_did_unblock = False\<rparr>]\<rparr>\<rparr>,
      m_lock = gate, pcs = (\<lambda>_. Idle)(1 := p, 2 := Blocked Exclusive)\<rparr>"

lemma two_readers_reachable: "lock_reachable two_readers"
proof -
  let ?one = "lock_construct\<lparr>m_mode := Shared, m_times_locked := 1, m_shared_holders := [(1, 1)]\<rparr>"
  have "lock_reachable \<lparr>the_lock = ?one, m_lock = False, pcs = \<lambda>_. Idle\<rparr>"
    using run_lock [where t = 1 and mode = Shared and l' = ?one and acquired = True, OF initially] by (simp add: run_simps)
  from run_lock [where t = 2 and mode = Shared and l' = "the_lock two_readers" and acquired = True, OF this] show ?thesis
    by (simp add: run_simps two_readers_def)
qed

lemma waiting_writer_reachable:
  "lock_reachable (waiting_writer Exclusive False Idle)" (is "lock_reachable ?a")
  "lock_reachable (waiting_writer Exclusive True In_unlock)" (is "lock_reachable ?b")
  "lock_reachable (waiting_writer Unlocked False To_wake)" (is "lock_reachable ?c")
proof -
  let ?one = "lock_construct\<lparr>m_mode := Exclusive, m_times_locked := 1, m_holder := Some 1\<rparr>"
  have "lock_reachable \<lparr>the_lock = ?one, m_lock = False, pcs = \<lambda>_. Idle\<rparr>"
    using run_lock [where t = 1 and mode = Exclusive and l' = ?one and acquired = True, OF initially] by (simp add: run_simps)
  from run_lock [where t = 2 and mode = Exclusive and l' = ?one and acquired = False, OF this]
  have "lock_reachable \<lparr>the_lock = ?one, m_lock = False, pcs = (\<lambda>_. Idle)(2 := To_wait Exclusive)\<rparr>"
    by (simp add: run_simps)
  from run_wait [where t = 2 and mode = Exclusive and q = "m_queue (the_lock ?a)", OF this] show a: "lock_reachable ?a"
    by (simp add: run_simps waiting_writer_def fun_upd_twist)
  from run_to_unlock [where t = 1, OF a [unfolded waiting_writer_def]] show b: "lock_reachable ?b"
    by (simp add: run_simps waiting_writer_def fun_upd_twist)
  from run_unlock [where t = 1 and l' = "the_lock ?c" and unlocked_last = True, OF b [unfolded waiting_writer_def]] show "lock_reachable ?c"
    by (simp add: run_simps waiting_writer_def fun_upd_twist)
qed





text \<open>
  C10. No wakeup is lost.  Whenever the lock is free while threads wait for it, some thread is about
  to call \<^verbatim>\<open>wake_one\<close> or about to try for the lock itself, without anybody having to wake it; and a
  thread about to call \<^verbatim>\<open>wake_one\<close> wakes exactly the thread that has waited longest.
\<close>

theorem lock_no_lost_wakeup:
  assumes "lock_reachable s"
  shows "(m_mode (the_lock s) = Unlocked \<and> pcs s t = Blocked mode \<longrightarrow> (\<exists>u. active (pcs s u))) \<and>
    (\<exists>q. wake_one (m_queue (the_lock s)) = Inr (q, take 1 (waiting (m_queue (the_lock s)))) \<and>
      waiting q = drop 1 (waiting (m_queue (the_lock s)))) \<and>
    (t \<in> set (waiting (m_queue (the_lock s))) \<longleftrightarrow> (\<exists>mode. pcs s t = Blocked mode))"
proof -
  note inv = sys_okD [OF reachable_ok [OF assms]]
  have "\<exists>u. active (pcs s u)" if "m_mode (the_lock s) = Unlocked" "pcs s t = Blocked mode"
    using inv(9) [OF that(1)] inv(4) [of t] that(2) by fastforce
  moreover note wake_one_first [OF inv(2)]
  moreover have "t \<in> set (waiting (m_queue (the_lock s))) \<longleftrightarrow> (\<exists>mode. pcs s t = Blocked mode)"
    using inv(4) by (simp add: blocked_in_def)
  ultimately show ?thesis by blast
qed

theorem lock_no_lost_wakeup_witness:
  "\<exists>u. active (pcs (waiting_writer Unlocked False To_wake) u)"
  using lock_no_lost_wakeup [OF waiting_writer_reachable(3), of 2 Exclusive] by (simp add: waiting_writer_def)

text \<open>
  C11. \<^verbatim>\<open>force_unlock_if_locked\<close> and \<^verbatim>\<open>restore_lock\<close> are inverse to each other.  A thread that holds the
  lock, in either mode and however often, gives it up completely; restoring the mode and the count it
  was handed succeeds at once if no other thread came between, and gives the lock the mode, the
  counter and every thread's holding it had before.
\<close>

theorem force_unlock_restores:
  assumes "lock_reachable s" and "0 < holds (the_lock s) t"
  shows "\<exists>l wakes l'. force_unlock_body t (the_lock s) = Inr (l, m_mode (the_lock s), holds (the_lock s) t, wakes) \<and>
    holds l t = 0 \<and> restore_body t (m_mode (the_lock s)) (holds (the_lock s) t) l = Inr (l', True) \<and>
    m_mode l' = m_mode (the_lock s) \<and> m_times_locked l' = m_times_locked (the_lock s) \<and>
    (\<forall>u. holds l' u = holds (the_lock s) u)"
  using force_restore [OF sys_okD(1) [OF reachable_ok [OF assms(1)]] assms(2)] .

theorem force_unlock_restores_witness:
  "\<exists>l wakes l'. force_unlock_body 2 (the_lock two_readers) = Inr (l, Shared, 1, wakes) \<and> holds l 2 = 0 \<and>
    restore_body 2 Shared 1 l = Inr (l', True) \<and> m_times_locked l' = 2"
proof -
  have l: "holds (the_lock two_readers) 2 = 1" "m_mode (the_lock two_readers) = Shared"
      "m_times_locked (the_lock two_readers) = 2"
    by (simp_all add: two_readers_def holds_def)
  from force_unlock_restores [OF two_readers_reachable, of 2] show ?thesis unfolding l by auto
qed

end
