(* ===== verification/AK_Vector.thy ===== *)
theory AK_Vector
  imports Kernel_Prelude
begin

text \<open>
  The operations of \<^verbatim>\<open>AK/Vector.h\<close> that change a vector by index, on lists, and the binary search of
  \<^verbatim>\<open>AK/BinarySearch.h\<close>.  Growing a vector is taken to succeed: the kernel panics when it does not.
\<close>

section \<open>Vectors\<close>

definition vec_remove :: "nat \<Rightarrow> 'a list \<Rightarrow> 'a list res" where
  "vec_remove index xs = verify (index < length xs) (Inr (take index xs @ drop (Suc index) xs))"

definition vec_insert :: "nat \<Rightarrow> 'a \<Rightarrow> 'a list \<Rightarrow> 'a list res" where
  "vec_insert index v xs = verify (index \<le> length xs) (Inr (take index xs @ v # drop index xs))"

function matching_index :: "('a \<Rightarrow> bool) \<Rightarrow> 'a list \<Rightarrow> nat \<Rightarrow> nat" where
  "matching_index callback xs i =
     (if i < length xs then if callback (xs ! i) then i else matching_index callback xs (i + 1)
      else length xs)"
  by pat_completeness auto
termination
  by (relation "measure (\<lambda>(_, xs, i). length xs - i)") auto

declare matching_index.simps [simp del]

text \<open>The result has the index at which the value was inserted.\<close>

definition insert_before_matching :: "'a \<Rightarrow> ('a \<Rightarrow> bool) \<Rightarrow> nat \<Rightarrow> 'a list \<Rightarrow> ('a list \<times> nat) res" where
  "insert_before_matching v callback first_index xs =
     (let i = matching_index callback xs first_index in
      bind_res (vec_insert i v xs) (\<lambda>xs. Inr (xs, i)))"

lemma matching_index_le: "matching_index callback xs i \<le> length xs"
  by (induction callback xs i rule: matching_index.induct) (subst matching_index.simps, simp)

lemma matching_index_spec:
  "i \<le> length xs \<Longrightarrow> i \<le> matching_index P xs i \<and>
   (\<forall>k. i \<le> k \<and> k < matching_index P xs i \<longrightarrow> \<not> P (xs ! k)) \<and>
   (matching_index P xs i < length xs \<longrightarrow> P (xs ! matching_index P xs i))"
proof (induction P xs i rule: matching_index.induct)
  case (1 P xs i)
  show ?case
  proof (cases "i < length xs \<and> \<not> P (xs ! i)")
    case True
    with 1 have IH: "i + 1 \<le> matching_index P xs (i + 1)"
        "\<forall>k. i + 1 \<le> k \<and> k < matching_index P xs (i + 1) \<longrightarrow> \<not> P (xs ! k)"
        "matching_index P xs (i + 1) < length xs \<longrightarrow> P (xs ! matching_index P xs (i + 1))" by auto
    have eq: "matching_index P xs i = matching_index P xs (i + 1)" using True by (subst matching_index.simps) simp
    have "\<not> P (xs ! k)" if "i \<le> k" "k < matching_index P xs (i + 1)" for k
      using IH(2) True that by (cases "k = i") auto
    with IH eq show ?thesis by simp
  next
    case False
    with 1(2) show ?thesis by (subst (1 2 3 4) matching_index.simps) auto
  qed
qed

lemma insert_before_matching_result:
  "insert_before_matching v P i xs =
     Inr (take (matching_index P xs i) xs @ v # drop (matching_index P xs i) xs, matching_index P xs i)"
  by (simp add: insert_before_matching_def vec_insert_def matching_index_le Let_def)

section \<open>Binary search\<close>

definition default_comparator :: "'a::linorder \<Rightarrow> 'a \<Rightarrow> int" where
  "default_comparator lhs rhs = (if rhs < lhs then 1 else if lhs < rhs then -1 else 0)"

text \<open>
  The loop of \<^verbatim>\<open>binary_search\<close>, with the comparator applied to the needle: the index found, and
  \<^verbatim>\<open>nearby_index\<close>.
\<close>

function binary_search_loop :: "('a \<Rightarrow> int) \<Rightarrow> 'a list \<Rightarrow> nat \<Rightarrow> nat \<Rightarrow> nat option \<times> nat" where
  "binary_search_loop comparator haystack low high =
     (if low \<le> high
      then
        let middle = low + (high - low) div 2;
            comparison = comparator (haystack ! middle)
        in if comparison < 0
           then if middle \<noteq> 0 then binary_search_loop comparator haystack low (middle - 1)
                else (None, min low high)
           else if 0 < comparison then binary_search_loop comparator haystack (middle + 1) high
           else (Some middle, middle)
      else (None, min low high))"
  by pat_completeness auto
termination
  by (relation "measure (\<lambda>(_, _, low, high). high + 1 - low)") auto

declare binary_search_loop.simps [simp del]

definition binary_search :: "('n \<Rightarrow> 'a \<Rightarrow> int) \<Rightarrow> 'n \<Rightarrow> 'a list \<Rightarrow> nat option \<times> nat" where
  "binary_search comparator needle haystack =
     (if length haystack = 0 then (None, 0)
      else binary_search_loop (comparator needle) haystack 0 (length haystack - 1))"

text \<open>
  What the search finds: where the comparator is zero, if anywhere; the needle lies after everything
  below the nearby index and before everything above it.
\<close>

definition search_result :: "('a \<Rightarrow> int) \<Rightarrow> 'a list \<Rightarrow> nat option \<times> nat \<Rightarrow> bool" where
  "search_result cmp xs r \<longleftrightarrow>
     (case r of
        (Some i, nearby) \<Rightarrow> i < length xs \<and> cmp (xs ! i) = 0 \<and> nearby = i
      | (None, nearby) \<Rightarrow> nearby < length xs \<and> (\<forall>i<length xs. cmp (xs ! i) \<noteq> 0) \<and>
          (\<forall>i<nearby. 0 < cmp (xs ! i)) \<and> (\<forall>i<length xs. nearby < i \<longrightarrow> cmp (xs ! i) < 0))"

definition signs_fall :: "('a \<Rightarrow> int) \<Rightarrow> 'a list \<Rightarrow> bool" where
  "signs_fall cmp xs \<longleftrightarrow>
     (\<forall>i j. i < j \<longrightarrow> j < length xs \<longrightarrow>
       (0 < cmp (xs ! j) \<longrightarrow> 0 < cmp (xs ! i)) \<and> (cmp (xs ! i) < 0 \<longrightarrow> cmp (xs ! j) < 0))"

lemma signs_fallD:
  assumes "signs_fall cmp xs" and "i \<le> j" and "j < length xs"
  shows "0 < cmp (xs ! j) \<Longrightarrow> 0 < cmp (xs ! i)" and "cmp (xs ! i) < 0 \<Longrightarrow> cmp (xs ! j) < 0"
  using assms unfolding signs_fall_def by (metis le_neq_implies_less)+

lemma binary_search_loop_correct:
  assumes "signs_fall cmp xs" and "high < length xs" and "low \<le> high + 1" 
    and "\<forall>i<low. 0 < cmp (xs ! i)" and "\<forall>i<length xs. high < i \<longrightarrow> cmp (xs ! i) < 0"
  shows "search_result cmp xs (binary_search_loop cmp xs low high)"
  using assms
proof (induction cmp xs low high rule: binary_search_loop.induct)
  case (1 cmp xs low high)
  note unfolded = binary_search_loop.simps [of cmp xs low high]
  show ?case
  proof (cases "low \<le> high")
    case False
    then have "low = high + 1" using "1.prems"(3) by simp
    moreover have "cmp (xs ! i) \<noteq> 0" if "i < length xs" for i
      using "1.prems"(4,5) that \<open>low = high + 1\<close> by (cases "i < low") auto
    moreover have "binary_search_loop cmp xs low high = (None, high)"
      unfolding unfolded using \<open>low = high + 1\<close> by simp
    ultimately show ?thesis
      using "1.prems" by (auto simp: search_result_def)
  next
    case True
    let ?middle = "low + (high - low) div 2"
    have middle: "low \<le> ?middle" "?middle \<le> high" "?middle < length xs" using True "1.prems"(2) by auto
    consider "cmp (xs ! ?middle) = 0" | "0 < cmp (xs ! ?middle)" | "cmp (xs ! ?middle) < 0" "?middle \<noteq> 0"
      | "cmp (xs ! ?middle) < 0" "?middle = 0" by linarith
    then show ?thesis
    proof cases
      case 1
      with True middle show ?thesis by (simp add: unfolded Let_def search_result_def)
    next
      case 2
      have "\<forall>i<?middle + 1. 0 < cmp (xs ! i)"
        using signs_fallD(1) [OF "1.prems"(1) _ middle(3) 2] by simp
      then have "search_result cmp xs (binary_search_loop cmp xs (?middle + 1) high)"
        using True 2 middle "1.prems" by (intro "1.IH"(2)) auto
      with True 2 show ?thesis by (simp add: unfolded Let_def)
    next
      case 3
      have "\<forall>i<length xs. ?middle - 1 < i \<longrightarrow> cmp (xs ! i) < 0"
        using signs_fallD(2) [OF "1.prems"(1) _ _ 3(1)] by auto
      then have "search_result cmp xs (binary_search_loop cmp xs low (?middle - 1))"
        using True 3 middle "1.prems" by (intro "1.IH"(1)) auto
      with True 3 show ?thesis by (simp add: unfolded Let_def)
    next
      case 4
      then have "cmp (xs ! i) < 0" if "i < length xs" for i
        using signs_fallD(2) [OF "1.prems"(1) _ that] by (metis le0)
      then have "cmp (xs ! i) \<noteq> 0" if "i < length xs" for i using that by (metis less_irrefl)
      moreover have "binary_search_loop cmp xs low high = (None, 0)"
        unfolding unfolded Let_def using True 4 by (simp only: if_True if_False simp_thms min.absorb1 split: if_split) simp
      ultimately show ?thesis
        using middle(3) \<open>\<And>i. i < length xs \<Longrightarrow> cmp (xs ! i) < 0\<close> by (auto simp: search_result_def)
    qed
  qed
qed

lemma binary_search_loop_found:
  "binary_search_loop cmp xs low high = (Some i, nearby) \<Longrightarrow> high < length xs \<Longrightarrow>
   i < length xs \<and> cmp (xs ! i) = 0 \<and> nearby = i"
proof (induction cmp xs low high rule: binary_search_loop.induct)
  case (1 cmp xs low high)
  then show ?case
    by (subst (asm) (3) binary_search_loop.simps) (auto simp: Let_def split: if_splits)
qed

text \<open>On any list, what the search returns is where the comparator is zero.\<close>

lemma binary_search_found:
  assumes "binary_search comparator needle xs = (Some i, nearby)"
  shows "i < length xs" and "comparator needle (xs ! i) = 0" and "nearby = i"
  using assms binary_search_loop_found [of "comparator needle" xs 0 "length xs - 1" i nearby]
  by (auto simp: binary_search_def split: if_splits)

text \<open>A comparator together with the lists on which it falls.\<close>

locale search_order =
  fixes comparator :: "'n \<Rightarrow> 'a \<Rightarrow> int" and ordered :: "'n \<Rightarrow> 'a list \<Rightarrow> bool"
  assumes falls: "ordered needle xs \<Longrightarrow> signs_fall (comparator needle) xs"
begin

lemma search_correct:
  assumes "ordered needle xs" and "xs \<noteq> []"
  shows "search_result (comparator needle) xs (binary_search comparator needle xs)"
proof -
  have "\<forall>i<length xs. length xs - 1 < i \<longrightarrow> comparator needle (xs ! i) < 0" by auto
  from binary_search_loop_correct [OF falls [OF assms(1)] _ _ _ this, of 0] assms(2) show ?thesis
    by (simp add: binary_search_def)
qed

lemma search_found:
  assumes "ordered needle xs"
  shows "(\<exists>i nearby. binary_search comparator needle xs = (Some i, nearby)) \<longleftrightarrow> (\<exists>x\<in>set xs. comparator needle x = 0)"
proof (cases "xs = []")
  case False
  from search_correct [OF assms False] show ?thesis
    by (cases "binary_search comparator needle xs"; cases "fst (binary_search comparator needle xs)")
      (auto simp: search_result_def in_set_conv_nth Bex_def)
qed (simp add: binary_search_def)

end

interpretation by_order: search_order default_comparator "\<lambda>_. sorted"
proof
  fix needle :: 'a and xs :: "'a list"
  assume "sorted xs"
  then have "xs ! i \<le> xs ! j" if "i < j" "j < length xs" for i j using that by (simp add: sorted_nth_mono)
  then show "signs_fall (default_comparator needle) xs"
    unfolding signs_fall_def default_comparator_def by (auto dest: leD order.strict_trans1)
qed

lemma default_search_found:
  assumes "sorted xs"
  shows "(\<exists>i nearby. binary_search default_comparator needle xs = (Some i, nearby)) \<longleftrightarrow> needle \<in> set xs"
  using by_order.search_found [OF assms, of needle] by (auto simp: default_comparator_def split: if_splits)

end
