(* ===== verification/Alignment.thy ===== *)
theory Alignment
  imports Memory
begin

unbundle bit_operations_syntax

text \<open>
  Rounding of addresses and sizes: \<^verbatim>\<open>round_up_to_power_of_two\<close> of \<^verbatim>\<open>AK/StdLibExtras.h\<close> and the page
  rounding of \<^verbatim>\<open>Kernel/VM/MemoryManager.h\<close>, as the code computes them with masks on 32 bits.
\<close>

abbreviation (input) PAGE_SIZE :: nat where "PAGE_SIZE \<equiv> 4096"

definition round_up_to_power_of_two :: "nat \<Rightarrow> nat \<Rightarrow> nat" where
  "round_up_to_power_of_two value power_of_two =
     unat (((of_nat value - 1 :: 32 word) AND NOT (of_nat power_of_two - 1)) + of_nat power_of_two)"

definition page_round_up_would_wrap :: "nat \<Rightarrow> bool" where
  "page_round_up_would_wrap x \<longleftrightarrow> 0xfffff000 < x"

definition page_round_up :: "nat \<Rightarrow> nat res" where
  "page_round_up x =
     (let rounded = unat ((of_nat x + of_nat PAGE_SIZE - 1 :: 32 word) AND NOT (of_nat PAGE_SIZE - 1)) in
      verify (x = 0 \<or> rounded \<noteq> 0) (Inr rounded))"

definition page_round_down :: "nat \<Rightarrow> nat" where
  "page_round_down x = unat ((of_nat x :: 32 word) AND NOT (of_nat PAGE_SIZE - 1))"

section \<open>Facts\<close>

lemma low_bits_set:
  assumes "2 ^ k dvd p" and "0 < p" and "p < 2 ^ 32" and "i < k"
  shows "bit (of_nat p - 1 :: 32 word) i"
proof -
  obtain q where q: "p = 2 ^ k * Suc q" using assms(1,2) by (metis dvd_def gr0_conv_Suc nat_0_less_mult_iff)
  then have "p - 1 = (2 ^ k - 1) + 2 ^ k * q" by simp
  then have "(p - 1) mod 2 ^ k = 2 ^ k - 1" by (metis mod_mult_self2 mod_less diff_less less_numeral_extra(1) zero_less_numeral zero_less_power)
  then have "take_bit k (p - 1) = mask k" by (simp add: take_bit_eq_mod mask_eq_exp_minus_1)
  then have "bit (p - 1) i" using assms(4) by (metis bit_mask_iff bit_take_bit_iff possible_bit_nat)
  moreover have "k < 32" using dvd_imp_le [OF assms(1,2)] assms(3) by (metis le_less_trans one_less_numeral_iff power_less_imp_less_exp semiring_norm(76))
  moreover have "(of_nat p - 1 :: 32 word) = of_nat (p - 1)" using assms(2) by (simp add: of_nat_diff)
  ultimately show ?thesis using assms(4) by (simp add: bit_of_nat_iff)
qed

lemma round_up_aligned:
  assumes "2 ^ k dvd p" and "0 < p" and "p < 2 ^ 32"
  shows "2 ^ k dvd round_up_to_power_of_two v p"
proof -
  define y :: "32 word" where "y = (of_nat v - 1) AND NOT (of_nat p - 1)"
  have "take_bit k y = 0"
    by (rule bit_eqI) (auto simp: y_def bit_simps low_bits_set [OF assms])
  moreover have "take_bit k (of_nat p :: 32 word) = 0"
    using assms(1) by (simp only: take_bit_eq_0_iff) (metis dvd_def of_nat_mult of_nat_numeral of_nat_power)
  ultimately have "take_bit k (y + of_nat p) = 0"
    by (simp only: take_bit_eq_0_iff dvd_add)
  then have "take_bit k (unat (y + of_nat p)) = 0" by (simp flip: unsigned_take_bit_eq)
  then show ?thesis by (simp only: take_bit_eq_0_iff round_up_to_power_of_two_def y_def)
qed

lemma round_up_result:
  assumes "0 < v" and "0 < p" and "v + p \<le> 2 ^ 32"
  shows "v \<le> round_up_to_power_of_two v p" and "round_up_to_power_of_two v p < v + p"
proof -
  define x m y :: "32 word" where "x = of_nat v - 1" and "m = of_nat p - 1" and "y = x AND NOT m"
  have of_nat: "unat (of_nat n :: 32 word) = n" if "n < 2 ^ 32" for n
    using that by (simp add: unsigned_of_nat take_bit_nat_eq_self)
  have x: "unat x = v - 1" and m: "unat m = p - 1"
    using assms of_nat [of "v - 1"] of_nat [of "p - 1"] by (simp_all add: x_def m_def of_nat_diff)
  have "(x AND m) + y = x"
    unfolding y_def by (subst disjunctive_add_eq_or) (auto intro: bit_eqI simp: bit_simps)
  moreover have "x AND m \<le> x" by (simp add: word_and_le2)
  ultimately have y: "unat y = unat x - unat (x AND m)" by (metis add_diff_cancel_left' unat_sub)
  have le: "unat (x AND m) \<le> p - 1" using m word_and_le1 [of x m] by (simp add: word_le_nat_alt)
  have "unat y + unat (of_nat p :: 32 word) < 2 ^ LENGTH(32)" using of_nat [of p] y x assms by simp
  from unat_add_lem [THEN iffD1, OF this] have "round_up_to_power_of_two v p = unat y + p"
    using of_nat [of p] assms by (simp add: round_up_to_power_of_two_def x_def m_def y_def)
  then show "v \<le> round_up_to_power_of_two v p" "round_up_to_power_of_two v p < v + p"
    using y le x assms by simp_all
qed

lemma round_up_less: "round_up_to_power_of_two v p < 2 ^ 32"
  unfolding round_up_to_power_of_two_def
  using unsigned_less [of "((of_nat v - 1 :: 32 word) AND NOT (of_nat p - 1)) + of_nat p", where 'a = nat] by simp

lemma clear_low_bits:
  assumes "x < 2 ^ 32" and "k < 32"
  shows "unat ((of_nat x :: 32 word) AND NOT (2 ^ k - 1)) = x div 2 ^ k * 2 ^ k"
proof -
  have "(of_nat x :: 32 word) AND NOT (2 ^ k - 1) = of_nat (push_bit k (drop_bit k x))"
    using assms by (intro bit_eqI) (auto simp: bit_simps mask_eq_exp_minus_1 [symmetric] not_less)
  moreover have "push_bit k (drop_bit k x) = x div 2 ^ k * 2 ^ k"
    by (simp add: push_bit_eq_mult drop_bit_eq_div)
  moreover have "x div 2 ^ k * 2 ^ k < 2 ^ 32" using assms(1) div_times_less_eq_dividend [of x "2 ^ k"] by linarith
  then have "take_bit 32 (x div 2 ^ k * 2 ^ k) = x div 2 ^ k * 2 ^ k" by (rule take_bit_nat_eq_self)
  ultimately show ?thesis by (simp add: unsigned_of_nat del: of_nat_mult)
qed

lemma page_round_down_result: "x < 2 ^ 32 \<Longrightarrow> page_round_down x = x div 4096 * 4096"
  using clear_low_bits [of x 12] by (simp add: page_round_down_def)

lemma page_round_up_result:
  assumes "x < 2 ^ 32"
  shows "page_round_up x = (if page_round_up_would_wrap x then Inl Verify_failed else Inr ((x + 4095) div 4096 * 4096))"
proof (cases "x + 4095 < 2 ^ 32")
  case True
  have "(of_nat x + of_nat PAGE_SIZE - 1 :: 32 word) = of_nat (x + 4095)" by (simp add: algebra_simps)
  then have "unat ((of_nat x + of_nat PAGE_SIZE - 1 :: 32 word) AND NOT (of_nat PAGE_SIZE - 1)) = (x + 4095) div 4096 * 4096"
    using clear_low_bits [OF True, of 12] by (simp add: add.commute)
  with True show ?thesis by (auto simp: page_round_up_def page_round_up_would_wrap_def Let_def)
next
  case False
  have "(of_nat x + of_nat PAGE_SIZE - 1 :: 32 word) = of_nat (x + 4095)" by (simp add: algebra_simps)
  also have "\<dots> = of_nat (x + 4095 - 2 ^ 32)" using False by (simp add: of_nat_diff)
  finally have "unat ((of_nat x + of_nat PAGE_SIZE - 1 :: 32 word) AND NOT (of_nat PAGE_SIZE - 1)) = 0"
    using clear_low_bits [of "x + 4095 - 2 ^ 32" 12] assms by (simp only: add_0_right) simp
  with False show ?thesis by (simp add: page_round_up_def page_round_up_would_wrap_def Let_def)
qed

end
