(* ===== verification/Range_Allocator.thy ===== *)
theory Range_Allocator
  imports AK_Vector Checked Alignment
begin

text \<open>
  \<^verbatim>\<open>Kernel/VM/Range.h\<close>, \<^verbatim>\<open>Range.cpp\<close> and \<^verbatim>\<open>RangeAllocator.cpp\<close>: the allocator of virtual address
  ranges.  Addresses and sizes are natural numbers below \<open>2 ^ 32\<close>, and the arithmetic of the code on
  them wraps around.
\<close>

section \<open>Ranges\<close>

record vrange =
  range_base :: nat
  range_size :: nat

definition range_is_valid :: "vrange \<Rightarrow> bool" where
  "range_is_valid r \<longleftrightarrow> range_base r \<noteq> 0"

definition range_end :: "vrange \<Rightarrow> nat" where
  "range_end r = size_add (range_base r) (range_size r)"

definition contains_vaddr :: "vrange \<Rightarrow> nat \<Rightarrow> bool" where
  "contains_vaddr r vaddr \<longleftrightarrow> range_base r \<le> vaddr \<and> vaddr < range_end r"

definition contains_size :: "vrange \<Rightarrow> nat \<Rightarrow> nat \<Rightarrow> bool" where
  "contains_size r base sz =
     (if size_add base sz < base then False
      else range_base r \<le> base \<and> size_add base sz \<le> range_end r)"

definition contains_range :: "vrange \<Rightarrow> vrange \<Rightarrow> bool" where
  "contains_range r other = contains_size r (range_base other) (range_size other)"

definition carve :: "vrange \<Rightarrow> vrange \<Rightarrow> vrange list res" where
  "carve r taken =
     verify (range_size taken mod PAGE_SIZE = 0)
       (if taken = r then Inr []
        else Inr
          ((if range_base r < range_base taken
            then [\<lparr>range_base = range_base r, range_size = size_sub (range_base taken) (range_base r)\<rparr>] else []) @
           (if range_end taken < range_end r
            then [\<lparr>range_base = range_end taken, range_size = size_sub (range_end r) (range_end taken)\<rparr>] else [])))"

definition intersect :: "vrange \<Rightarrow> vrange \<Rightarrow> vrange res" where
  "intersect r other =
     (if r = other then Inr r
      else
        let new_base = max (range_base r) (range_base other);
            new_end = min (range_end r) (range_end other)
        in verify (new_base < new_end)
             (Inr \<lparr>range_base = new_base, range_size = size_sub new_end new_base\<rparr>))"

section \<open>The allocator\<close>

record range_allocator =
  m_available_ranges :: "vrange list"
  m_total_range :: vrange

definition range_allocator_construct :: range_allocator where
  "range_allocator_construct = \<lparr>m_available_ranges = [], m_total_range = \<lparr>range_base = 0, range_size = 0\<rparr>\<rparr>"

definition initialize_with_range :: "nat \<Rightarrow> nat \<Rightarrow> range_allocator \<Rightarrow> range_allocator" where
  "initialize_with_range base sz a =
     a\<lparr>m_total_range := \<lparr>range_base = base, range_size = sz\<rparr>,
       m_available_ranges := m_available_ranges a @ [\<lparr>range_base = base, range_size = sz\<rparr>]\<rparr>"

definition initialize_from_parent :: "range_allocator \<Rightarrow> range_allocator \<Rightarrow> range_allocator" where
  "initialize_from_parent parent a =
     a\<lparr>m_total_range := m_total_range parent, m_available_ranges := m_available_ranges parent\<rparr>"

definition carve_at_index :: "nat \<Rightarrow> vrange \<Rightarrow> range_allocator \<Rightarrow> range_allocator res" where
  "carve_at_index index rng a =
     verify (index < length (m_available_ranges a))
       (bind_res (carve (m_available_ranges a ! index) rng) (\<lambda>remaining_parts.
         verify (1 \<le> length remaining_parts)
           (verify (contains_range (m_total_range a) (remaining_parts ! 0))
             (let available = (m_available_ranges a)[index := remaining_parts ! 0] in
              if length remaining_parts = 2
              then verify (contains_range (m_total_range a) (remaining_parts ! 1))
                (bind_res (vec_insert (index + 1) (remaining_parts ! 1) available) (\<lambda>available.
                  Inr (a\<lparr>m_available_ranges := available\<rparr>)))
              else Inr (a\<lparr>m_available_ranges := available\<rparr>)))))"

text \<open>The end of a round of both allocation loops, which found the range at \<open>i\<close> to hold the allocation.\<close>

definition allocate_at :: "nat \<Rightarrow> vrange \<Rightarrow> range_allocator \<Rightarrow> (range_allocator \<times> vrange option) res" where
  "allocate_at i allocated_range a =
     (if m_available_ranges a ! i = allocated_range
      then bind_res (vec_remove i (m_available_ranges a)) (\<lambda>available.
        Inr (a\<lparr>m_available_ranges := available\<rparr>, Some allocated_range))
      else bind_res (carve_at_index i allocated_range a) (\<lambda>a. Inr (a, Some allocated_range)))"

function allocate_anywhere_loop ::
  "nat \<Rightarrow> nat \<Rightarrow> nat \<Rightarrow> nat \<Rightarrow> range_allocator \<Rightarrow> nat \<Rightarrow> (range_allocator \<times> vrange option) res" where
  "allocate_anywhere_loop effective_size offset_from_effective_base sz alignment a i =
     (if i < length (m_available_ranges a)
      then
        let available_range = m_available_ranges a ! i in
        if range_size available_range < size_add effective_size alignment
        then allocate_anywhere_loop effective_size offset_from_effective_base sz alignment a (i + 1)
        else
          let initial_base = size_add (range_base available_range) offset_from_effective_base;
              aligned_base = round_up_to_power_of_two initial_base alignment;
              allocated_range = \<lparr>range_base = aligned_base, range_size = sz\<rparr>
          in verify (contains_range (m_total_range a) allocated_range) (allocate_at i allocated_range a)
      else Inr (a, None))"
  by pat_completeness auto
termination
  by (relation "measure (\<lambda>(_, _, _, _, a, i). length (m_available_ranges a) - i)") auto

declare allocate_anywhere_loop.simps [simp del]

definition allocate_anywhere :: "nat \<Rightarrow> nat \<Rightarrow> range_allocator \<Rightarrow> (range_allocator \<times> vrange option) res" where
  "allocate_anywhere sz alignment a =
     (if sz = 0 then Inr (a, None)
      else verify (sz mod PAGE_SIZE = 0) (verify (alignment mod PAGE_SIZE = 0)
        (if addition_would_overflow u32_t (int sz) (int (PAGE_SIZE * 2)) then Inr (a, None)
         else
           let effective_size = size_add sz (PAGE_SIZE * 2);
               offset_from_effective_base = PAGE_SIZE
           in if addition_would_overflow u32_t (int effective_size) (int alignment) then Inr (a, None)
              else allocate_anywhere_loop effective_size offset_from_effective_base sz alignment a 0)))"

function allocate_specific_loop ::
  "vrange \<Rightarrow> range_allocator \<Rightarrow> nat \<Rightarrow> (range_allocator \<times> vrange option) res" where
  "allocate_specific_loop allocated_range a i =
     (if i < length (m_available_ranges a)
      then verify (contains_range (m_total_range a) allocated_range)
        (if \<not> contains_size (m_available_ranges a ! i) (range_base allocated_range) (range_size allocated_range)
         then allocate_specific_loop allocated_range a (i + 1)
         else allocate_at i allocated_range a)
      else Inr (a, None))"
  by pat_completeness auto
termination
  by (relation "measure (\<lambda>(_, a, i). length (m_available_ranges a) - i)") auto

declare allocate_specific_loop.simps [simp del]

definition allocate_specific :: "nat \<Rightarrow> nat \<Rightarrow> range_allocator \<Rightarrow> (range_allocator \<times> vrange option) res" where
  "allocate_specific base sz a =
     (if sz = 0 then Inr (a, None)
      else verify (base mod 4096 = 0) (verify (sz mod PAGE_SIZE = 0)
        (allocate_specific_loop \<lparr>range_base = base, range_size = sz\<rparr> a 0)))"

text \<open>\<open>random i\<close> is what \<^verbatim>\<open>get_fast_random\<close> returns in round \<open>i\<close>.\<close>

fun randomized_loop ::
  "(nat \<Rightarrow> nat) \<Rightarrow> nat \<Rightarrow> nat \<Rightarrow> range_allocator \<Rightarrow> nat \<Rightarrow> nat \<Rightarrow> (range_allocator \<times> vrange option) res" where
  "randomized_loop random sz alignment a i 0 = allocate_anywhere sz alignment a"
| "randomized_loop random sz alignment a i (Suc attempts) =
     (let random_address = round_up_to_power_of_two (random i) alignment in
      if \<not> contains_size (m_total_range a) random_address sz
      then randomized_loop random sz alignment a (i + 1) attempts
      else bind_res (allocate_specific random_address sz a) (\<lambda>(a, rng).
        case rng of
          Some r \<Rightarrow> Inr (a, Some r)
        | None \<Rightarrow> randomized_loop random sz alignment a (i + 1) attempts))"

definition allocate_randomized ::
  "(nat \<Rightarrow> nat) \<Rightarrow> nat \<Rightarrow> nat \<Rightarrow> range_allocator \<Rightarrow> (range_allocator \<times> vrange option) res" where
  "allocate_randomized random sz alignment a =
     (if sz = 0 then Inr (a, None)
      else verify (sz mod PAGE_SIZE = 0) (verify (alignment mod PAGE_SIZE = 0)
        (randomized_loop random sz alignment a 0 1000)))"

text \<open>The comparator of \<^verbatim>\<open>deallocate\<close>: an unsigned difference converted to \<^verbatim>\<open>int\<close>.\<close>

definition range_comparator :: "vrange \<Rightarrow> vrange \<Rightarrow> int" where
  "range_comparator a b = wrap i32_t (int (size_sub (range_base a) (range_end b)))"

text \<open>The two halves of \<^verbatim>\<open>deallocate\<close>: adding the range, and merging it with the next one.\<close>

definition add_range :: "vrange \<Rightarrow> vrange list \<Rightarrow> (vrange list \<times> nat) res" where
  "add_range rng available =
     (case binary_search range_comparator rng available of
        (Some i, nearby_index) \<Rightarrow>
          Inr (available[i := (available ! i)\<lparr>range_size := size_add (range_size (available ! i)) (range_size rng)\<rparr>],
               nearby_index)
      | (None, nearby_index) \<Rightarrow>
          insert_before_matching rng (\<lambda>entry. range_end rng \<le> range_base entry) nearby_index available)"

definition merge_with_next :: "nat \<Rightarrow> vrange list \<Rightarrow> vrange list res" where
  "merge_with_next inserted_index available =
     (if inserted_index < length available - 1
      then
        let inserted_range = available ! inserted_index;
            next_range = available ! (inserted_index + 1)
        in if range_end inserted_range = range_base next_range
           then vec_remove (inserted_index + 1)
             (available[inserted_index :=
               inserted_range\<lparr>range_size := size_add (range_size inserted_range) (range_size next_range)\<rparr>])
           else Inr available
      else Inr available)"

definition deallocate_range :: "vrange \<Rightarrow> range_allocator \<Rightarrow> range_allocator res" where
  "deallocate_range rng a =
     verify (contains_range (m_total_range a) rng) (verify (range_size rng \<noteq> 0)
       (verify (range_size rng mod PAGE_SIZE = 0) (verify (range_base rng < range_end rng)
         (verify (m_available_ranges a \<noteq> [])
           (bind_res (add_range rng (m_available_ranges a)) (\<lambda>(available, inserted_index).
             bind_res (merge_with_next inserted_index available) (\<lambda>available.
               Inr (a\<lparr>m_available_ranges := available\<rparr>))))))))"

definition allocator_contains :: "range_allocator \<Rightarrow> vrange \<Rightarrow> bool" where
  "allocator_contains a rng = contains_range (m_total_range a) rng"

section \<open>Address sets\<close>

definition cells :: "vrange \<Rightarrow> nat set" where
  "cells r = {range_base r..<range_base r + range_size r}"

definition free_cells :: "range_allocator \<Rightarrow> nat set" where
  "free_cells a = (\<Union>r\<in>set (m_available_ranges a). cells r)"

text \<open>A non-empty range inside a range that does not reach the end of the address space.\<close>

definition within :: "vrange \<Rightarrow> vrange \<Rightarrow> bool" where
  "within t r \<longleftrightarrow> range_base t + range_size t < 2 ^ 32 \<and> range_base t \<le> range_base r \<and>
     range_base r + range_size r \<le> range_base t + range_size t \<and> 0 < range_size r"

lemma within_end: "within t r \<Longrightarrow> range_end r = range_base r + range_size r"
  by (simp add: within_def range_end_def size_add_id)

lemma within_total_end: "within t r \<Longrightarrow> range_end t = range_base t + range_size t"
  by (simp add: within_def range_end_def size_add_id)

lemma within_cells: "within t r \<Longrightarrow> cells r \<subseteq> cells t" "within t r \<Longrightarrow> cells r \<noteq> {}"
  by (auto simp: within_def cells_def)

lemma within_iff_cells:
  assumes "range_base t + range_size t < 2 ^ 32" and "0 < range_size r"
  shows "within t r \<longleftrightarrow> cells r \<subseteq> cells t"
  using assms by (auto simp: within_def cells_def)

lemma contains_within: "within t r \<Longrightarrow> contains_range t r"
  using within_end [of t r] within_total_end [of t r]
  by (simp add: contains_range_def contains_size_def range_end_def [of r, symmetric] within_def)

lemma contains_size_iff:
  assumes "range_base t + range_size t < 2 ^ 32" and "base < 2 ^ 32" and "n < 2 ^ 32" and "0 < n"
  shows "contains_size t base n \<longleftrightarrow> within t \<lparr>range_base = base, range_size = n\<rparr>"
proof (cases "base + n < 2 ^ 32")
  case True
  with assms show ?thesis by (auto simp: contains_size_def size_add_id range_end_def within_def)
next
  case False
  then have "size_add base n < base" using assms by (auto simp: size_add_def mod_if)
  with False assms show ?thesis by (simp add: contains_size_def within_def)
qed

lemma disjoint_ranges:
  assumes "cells r \<inter> cells s = {}" and "0 < range_size r" and "0 < range_size s"
  shows "range_base r + range_size r \<le> range_base s \<or> range_base s + range_size s \<le> range_base r"
proof (rule ccontr)
  assume "\<not> ?thesis"
  then have "max (range_base r) (range_base s) \<in> cells r \<inter> cells s" using assms(2,3) by (auto simp: cells_def)
  with assms(1) show False by simp
qed

section \<open>Taking a range\<close>

definition remaining :: "vrange \<Rightarrow> vrange \<Rightarrow> vrange list" where
  "remaining r taken =
     (if range_base r < range_base taken
      then [\<lparr>range_base = range_base r, range_size = range_base taken - range_base r\<rparr>] else []) @
     (if range_base taken + range_size taken < range_base r + range_size r
      then [\<lparr>range_base = range_base taken + range_size taken,
             range_size = range_base r + range_size r - (range_base taken + range_size taken)\<rparr>] else [])"

lemma remaining_within: "within t r \<Longrightarrow> within r taken \<Longrightarrow> s \<in> set (remaining r taken) \<Longrightarrow> within t s"
  by (auto simp: remaining_def within_def split: if_splits)

lemma remaining_cells: "within r taken \<Longrightarrow> (\<Union>s\<in>set (remaining r taken). cells s) = cells r - cells taken"
  by (auto simp: remaining_def within_def cells_def)

lemma remaining_same: "within r taken \<Longrightarrow> remaining r taken = [] \<longleftrightarrow> taken = r"
  by (cases r; cases taken) (auto simp: remaining_def within_def)

lemma within_trans: "within t r \<Longrightarrow> within r s \<Longrightarrow> within t s"
  by (auto simp: within_def)

lemma carve_remaining:
  assumes "within t r" and "within r taken" and "range_size taken mod 4096 = 0" and "taken \<noteq> r"
  shows "carve r taken = Inr (remaining r taken)"
  using assms within_end [OF assms(1)] within_end [OF assms(2)]
  by (simp add: carve_def remaining_def within_def size_sub_id)

lemma allocate_at_result:
  assumes i: "i < length (m_available_ranges a)" and r: "m_available_ranges a ! i = r"
    and "within (m_total_range a) r" and "within r taken" and "range_size taken mod 4096 = 0"
  shows "allocate_at i taken a =
    Inr (a\<lparr>m_available_ranges := take i (m_available_ranges a) @ remaining r taken @
      drop (Suc i) (m_available_ranges a)\<rparr>, Some taken)"
proof (cases "r = taken")
  case True
  with assms show ?thesis by (simp add: allocate_at_def vec_remove_def remaining_same)
next
  case False
  note carved = carve_remaining [OF assms(3-5)]
  have parts: "remaining r taken \<noteq> []" "length (remaining r taken) \<le> 2"
    using remaining_same [OF assms(4)] False by (auto simp: remaining_def)
  have inside: "contains_range (m_total_range a) s" if "s \<in> set (remaining r taken)" for s
    using contains_within remaining_within [OF assms(3,4) that] by blast
  from parts consider x where "remaining r taken = [x]" | x y where "remaining r taken = [x, y]"
    by (cases "remaining r taken"; cases "tl (remaining r taken)") (auto simp: neq_Nil_conv)
  then show ?thesis
  proof cases
    case (1 x)
    with False i r carved inside show ?thesis
      by (simp add: allocate_at_def carve_at_index_def upd_conv_take_nth_drop)
  next
    case (2 x y)
    moreover have "i \<le> length (m_available_ranges a) - 1" using i by simp
    ultimately show ?thesis
      using False i r carved inside
      by (simp add: allocate_at_def carve_at_index_def vec_insert_def upd_conv_take_nth_drop)
  qed
qed

section \<open>Invariants\<close>

text \<open>
  The available ranges lie inside the total range and are disjoint; and, for totals on which the
  comparator of \<^verbatim>\<open>deallocate\<close> is right, they are sorted and none touches the next.
\<close>

abbreviation disjoint_ranges_list :: "vrange list \<Rightarrow> bool" where
  "disjoint_ranges_list \<equiv> sorted_wrt (\<lambda>r s. cells r \<inter> cells s = {})"

abbreviation separated_list :: "vrange list \<Rightarrow> bool" where
  "separated_list \<equiv> sorted_wrt (\<lambda>r s. range_base r + range_size r < range_base s)"

definition ra_safe :: "range_allocator \<Rightarrow> bool" where
  "ra_safe a \<longleftrightarrow> range_base (m_total_range a) + range_size (m_total_range a) < 2 ^ 32 \<and>
     (\<forall>r\<in>set (m_available_ranges a). within (m_total_range a) r) \<and> disjoint_ranges_list (m_available_ranges a)"

lemma replace_range:
  assumes "\<forall>s\<in>set parts. cells s \<subseteq> cells r" and "disjoint_ranges_list parts"
  shows "disjoint_ranges_list (xs @ r # ys) \<Longrightarrow> disjoint_ranges_list (xs @ parts @ ys)"
  using assms by (auto simp: sorted_wrt_append) blast+

lemma remaining_disjoint: "within r taken \<Longrightarrow> disjoint_ranges_list (remaining r taken)"
  by (auto simp: remaining_def cells_def within_def)

lemma remaining_separated:
  assumes "within r taken"
  shows "separated_list (xs @ r # ys) \<Longrightarrow> separated_list (xs @ remaining r taken @ ys)"
  using assms by (auto simp: sorted_wrt_append remaining_def within_def)

lemma take_step:
  fixes a :: range_allocator
  assumes ok: "ra_safe a" and i: "i < length (m_available_ranges a)"
    and taken: "within (m_available_ranges a ! i) taken"
  defines "a' \<equiv> a\<lparr>m_available_ranges := take i (m_available_ranges a) @
    remaining (m_available_ranges a ! i) taken @ drop (Suc i) (m_available_ranges a)\<rparr>"
  shows "ra_safe a'" and "cells taken \<subseteq> free_cells a" and "free_cells a' = free_cells a - cells taken"
    and "separated_list (m_available_ranges a) \<Longrightarrow> separated_list (m_available_ranges a')"
    and "m_total_range a' = m_total_range a"
proof -
  obtain xs ys r where xs: "xs = take i (m_available_ranges a)" and ys: "ys = drop (Suc i) (m_available_ranges a)"
    and r: "m_available_ranges a ! i = r" by simp
  note taken = taken [unfolded r]
  have avail: "m_available_ranges a = xs @ r # ys" using id_take_nth_drop [OF i] xs ys r by simp
  have avail': "m_available_ranges a' = xs @ remaining r taken @ ys" by (simp add: a'_def xs ys r)
  have ok': "\<forall>r\<in>set (xs @ r # ys). within (m_total_range a) r" "disjoint_ranges_list (xs @ r # ys)"
    using ok unfolding ra_safe_def avail [symmetric] by simp_all
  note cells = remaining_cells [OF taken]
  have "disjoint_ranges_list (xs @ remaining r taken @ ys)"
    using replace_range [OF _ remaining_disjoint [OF taken] ok'(2)] cells by blast
  moreover have "within (m_total_range a) s" if "s \<in> set (remaining r taken)" for s
    using remaining_within [OF _ taken that] ok'(1) by simp
  ultimately show "ra_safe a'"
    using ok ok'(1) unfolding ra_safe_def avail' by (auto simp: a'_def)
  show "cells taken \<subseteq> free_cells a"
    using within_cells(1) [OF taken] nth_mem [OF i] r unfolding free_cells_def by blast
  have "cells s \<inter> cells taken = {}" if "s \<in> set xs \<union> set ys" for s
    using ok'(2) within_cells(1) [OF taken] that by (auto simp: sorted_wrt_append)
  then show "free_cells a' = free_cells a - cells taken"
    unfolding free_cells_def avail' unfolding avail using cells by auto
  show "separated_list (m_available_ranges a')" if "separated_list (m_available_ranges a)"
    using remaining_separated [OF taken] that unfolding avail' by (simp add: avail [symmetric])
  show "m_total_range a' = m_total_range a" by (simp add: a'_def)
qed

section \<open>Allocation\<close>

text \<open>What an allocation does to the allocator.\<close>

definition takes :: "range_allocator \<Rightarrow> vrange \<Rightarrow> range_allocator \<Rightarrow> bool" where
  "takes a taken a' \<longleftrightarrow> ra_safe a' \<and> within (m_total_range a) taken \<and> cells taken \<subseteq> free_cells a \<and>
     free_cells a' = free_cells a - cells taken \<and> m_total_range a' = m_total_range a \<and>
     (separated_list (m_available_ranges a) \<longrightarrow> separated_list (m_available_ranges a'))"

lemma allocate_at_takes:
  assumes "ra_safe a" and "i < length (m_available_ranges a)" and "within (m_available_ranges a ! i) taken"
    and "range_size taken mod 4096 = 0"
  shows "\<exists>a'. allocate_at i taken a = Inr (a', Some taken) \<and> takes a taken a'"
proof -
  have r: "within (m_total_range a) (m_available_ranges a ! i)" using assms(1,2) by (simp add: ra_safe_def)
  with allocate_at_result [OF assms(2) refl r assms(3,4)] take_step [OF assms(1-3)] within_trans [OF r assms(3)]
  show ?thesis unfolding takes_def by blast
qed

lemma specific_loop:
  assumes "ra_safe a" and "within (m_total_range a) taken" and "range_size taken mod 4096 = 0"
  shows "\<exists>a' res. allocate_specific_loop taken a i = Inr (a', res) \<and>
    (case res of None \<Rightarrow> a' = a \<and> (\<forall>j. i \<le> j \<longrightarrow> j < length (m_available_ranges a) \<longrightarrow> \<not> within (m_available_ranges a ! j) taken)
     | Some r \<Rightarrow> r = taken \<and> takes a taken a')"
  using assms
proof (induction taken a i rule: allocate_specific_loop.induct)
  case (1 taken a i)
  note unfolded = allocate_specific_loop.simps [of taken a i]
  show ?case
  proof (cases "i < length (m_available_ranges a)")
    case False
    then show ?thesis by (simp add: unfolded)
  next
    case True
    let ?r = "m_available_ranges a ! i"
    have r: "within (m_total_range a) ?r" using True "1.prems"(1) by (simp add: ra_safe_def)
    have iff: "contains_size ?r (range_base taken) (range_size taken) \<longleftrightarrow> within ?r taken"
      using contains_size_iff [of ?r "range_base taken" "range_size taken"] r "1.prems"(2) by (auto simp: within_def)
    show ?thesis
    proof (cases "within ?r taken")
      case within: True
      from allocate_at_takes [OF "1.prems"(1) True within "1.prems"(3)] obtain a' where
        "allocate_at i taken a = Inr (a', Some taken)" "takes a taken a'" by blast
      with True within iff contains_within [OF "1.prems"(2)] show ?thesis by (simp add: unfolded)
    next
      case outside: False
      from "1.IH" [OF True contains_within [OF "1.prems"(2)] _ "1.prems"] outside iff obtain a' res where
        IH: "allocate_specific_loop taken a (i + 1) = Inr (a', res)"
        "case res of None \<Rightarrow> a' = a \<and> (\<forall>j. i + 1 \<le> j \<longrightarrow> j < length (m_available_ranges a) \<longrightarrow> \<not> within (m_available_ranges a ! j) taken)
         | Some r \<Rightarrow> r = taken \<and> takes a taken a'" by blast
      have "\<not> within (m_available_ranges a ! j) taken"
        if "res = None" "i \<le> j" "j < length (m_available_ranges a)" for j
        using IH(2) outside that by (cases "j = i") auto
      with IH True outside iff contains_within [OF "1.prems"(2)] show ?thesis
        by (cases res) (simp_all add: unfolded)
    qed
  qed
qed

lemma allocate_specific_result:
  assumes "ra_safe a" and "within (m_total_range a) \<lparr>range_base = base, range_size = n\<rparr>"
    and "base mod 4096 = 0" and "n mod 4096 = 0"
  shows "\<exists>a' res. allocate_specific base n a = Inr (a', res) \<and>
    (case res of None \<Rightarrow> a' = a \<and> (\<forall>r\<in>set (m_available_ranges a). \<not> within r \<lparr>range_base = base, range_size = n\<rparr>)
     | Some r \<Rightarrow> r = \<lparr>range_base = base, range_size = n\<rparr> \<and> takes a r a')"
proof -
  let ?taken = "\<lparr>range_base = base, range_size = n\<rparr>"
  have "0 < n" using assms(2) by (simp add: within_def)
  then have "allocate_specific base n a = allocate_specific_loop ?taken a 0"
    using assms(3,4) by (simp add: allocate_specific_def)
  moreover obtain a' res where "allocate_specific_loop ?taken a 0 = Inr (a', res)"
    "case res of None \<Rightarrow> a' = a \<and> (\<forall>j. 0 \<le> j \<longrightarrow> j < length (m_available_ranges a) \<longrightarrow> \<not> within (m_available_ranges a ! j) ?taken)
     | Some r \<Rightarrow> r = ?taken \<and> takes a ?taken a'"
    using specific_loop [OF assms(1,2), of 0] assms(4) by auto
  ultimately show ?thesis by (cases res) (simp_all add: all_set_conv_all_nth)
qed

text \<open>A call that returns a range has allocated it, whatever its arguments.\<close>

lemma allocate_specific_takes:
  assumes "ra_safe a" and "allocate_specific base n a = Inr (a', res)" and "base < 2 ^ 32" and "n < 2 ^ 32"
  shows "case res of None \<Rightarrow> a' = a | Some r \<Rightarrow> r = \<lparr>range_base = base, range_size = n\<rparr> \<and> takes a r a'"
proof (cases "n = 0 \<or> m_available_ranges a = []")
  case True
  with assms(2) show ?thesis
    by (auto simp: allocate_specific_def allocate_specific_loop.simps [of _ a 0] verify_def split: if_splits)
next
  case False
  with assms(2) have "contains_range (m_total_range a) \<lparr>range_base = base, range_size = n\<rparr>"
      "base mod 4096 = 0" "n mod 4096 = 0"
    by (auto simp: allocate_specific_def allocate_specific_loop.simps [of _ a 0])
  moreover from this(1) have "within (m_total_range a) \<lparr>range_base = base, range_size = n\<rparr>"
    using contains_size_iff assms(1,3,4) False by (simp add: contains_range_def ra_safe_def)
  ultimately show ?thesis
    using allocate_specific_result [OF assms(1), of base n] assms(2) by (auto split: option.splits)
qed

text \<open>What \<^verbatim>\<open>allocate_anywhere\<close> allocates: a free range with a free page on either side, aligned.\<close>

definition guarded :: "range_allocator \<Rightarrow> nat \<Rightarrow> nat \<Rightarrow> vrange \<Rightarrow> bool" where
  "guarded a n alignment r \<longleftrightarrow> range_size r = n \<and> 4096 \<le> range_base r \<and>
     {range_base r - 4096..<range_base r + n + 4096} \<subseteq> free_cells a \<and>
     (\<forall>k. 2 ^ k dvd alignment \<longrightarrow> 2 ^ k dvd range_base r)"

definition no_range :: "range_allocator \<Rightarrow> nat \<Rightarrow> bool" where
  "no_range a n \<longleftrightarrow> (\<forall>r\<in>set (m_available_ranges a). range_size r < n)"

lemma anywhere_in_range:
  assumes ok: "ra_safe a" and i: "i < length (m_available_ranges a)" and n: "0 < n" "n mod 4096 = 0" "0 < alignment"
    and room: "n + 8192 + alignment \<le> range_size (m_available_ranges a ! i)"
  defines "r \<equiv> \<lparr>range_base = round_up_to_power_of_two (size_add (range_base (m_available_ranges a ! i)) 4096) alignment,
    range_size = n\<rparr>"
  shows "\<exists>a'. verify (contains_range (m_total_range a) r) (allocate_at i r a) = Inr (a', Some r) \<and>
    takes a r a' \<and> guarded a n alignment r"
proof -
  let ?r = "m_available_ranges a ! i"
  have inside: "within (m_total_range a) ?r" using ok i by (simp add: ra_safe_def)
  then have bound: "range_base ?r + range_size ?r < 2 ^ 32" by (simp add: within_def)
  have base: "size_add (range_base ?r) 4096 = range_base ?r + 4096" using room bound by (simp add: size_add_id)
  have "range_base ?r + 4096 + alignment \<le> 2 ^ 32" using room bound by simp
  note up = round_up_result [OF _ n(3) this, simplified, folded base]
  have "2 ^ k dvd range_base r" if "2 ^ k dvd alignment" for k
    using round_up_aligned [OF that n(3)] room bound by (simp add: r_def)
  note aligned = this
  have r: "range_base ?r + 4096 \<le> range_base r" "range_base r < range_base ?r + 4096 + alignment" "range_size r = n"
    using up(1,2) base by (simp_all add: r_def)
  then have taken: "within ?r r" using room bound n(1) by (simp add: within_def)
  have "{range_base r - 4096..<range_base r + n + 4096} \<subseteq> cells ?r" using r room by (auto simp: cells_def)
  then have "guarded a n alignment r"
    using r aligned nth_mem [OF i] unfolding guarded_def free_cells_def by auto
  with allocate_at_takes [OF ok i taken] n(2) r(3) contains_within [OF within_trans [OF inside taken]]
  show ?thesis by auto
qed

lemma anywhere_loop:
  assumes "ra_safe a" and "0 < n" and "n mod 4096 = 0" and "0 < alignment" and "n + 8192 + alignment < 2 ^ 32"
  shows "\<exists>a' res. allocate_anywhere_loop (n + 8192) 4096 n alignment a i = Inr (a', res) \<and>
    (case res of None \<Rightarrow> a' = a \<and> (\<forall>j. i \<le> j \<longrightarrow> j < length (m_available_ranges a) \<longrightarrow> range_size (m_available_ranges a ! j) < n + 8192 + alignment)
     | Some r \<Rightarrow> takes a r a' \<and> guarded a n alignment r)"
proof (induction "length (m_available_ranges a) - i" arbitrary: i)
  case 0
  then show ?case by (simp add: allocate_anywhere_loop.simps [of _ _ _ _ a i])
next
  case (Suc k)
  note unfolded = allocate_anywhere_loop.simps [of _ _ _ _ a i]
  have i: "i < length (m_available_ranges a)" using Suc(2) by simp
  have sum: "size_add (n + 8192) alignment = n + 8192 + alignment" using assms(5) by (simp add: size_add_id)
  show ?case
  proof (cases "range_size (m_available_ranges a ! i) < n + 8192 + alignment")
    case True
    have k: "k = length (m_available_ranges a) - (i + 1)" using Suc(2) by simp
    obtain a' res where IH: "allocate_anywhere_loop (n + 8192) 4096 n alignment a (i + 1) = Inr (a', res)"
      "case res of None \<Rightarrow> a' = a \<and> (\<forall>j. i + 1 \<le> j \<longrightarrow> j < length (m_available_ranges a) \<longrightarrow> range_size (m_available_ranges a ! j) < n + 8192 + alignment)
       | Some r \<Rightarrow> takes a r a' \<and> guarded a n alignment r"
      using Suc(1) [OF k] by blast
    have "range_size (m_available_ranges a ! j) < n + 8192 + alignment"
      if "res = None" "i \<le> j" "j < length (m_available_ranges a)" for j
      using IH(2) True that by (cases "j = i") auto
    with IH True i sum show ?thesis by (cases res) (simp_all add: unfolded)
  next
    case False
    with anywhere_in_range [OF assms(1) i assms(2-4)] i sum show ?thesis
      by (auto simp: unfolded Let_def)
  qed
qed

lemma allocate_anywhere_result:
  assumes "ra_safe a" and "n mod 4096 = 0" and "alignment mod 4096 = 0" and "0 < alignment"
    and "n < 2 ^ 32" and "alignment < 2 ^ 32"
  shows "\<exists>a' res. allocate_anywhere n alignment a = Inr (a', res) \<and>
    (case res of None \<Rightarrow> a' = a \<and> (n = 0 \<or> no_range a (n + 8192 + alignment))
     | Some r \<Rightarrow> takes a r a' \<and> guarded a n alignment r)"
proof (cases "n = 0 \<or> 2 ^ 32 \<le> n + 8192 + alignment")
  case True
  have "range_size r < 2 ^ 32" if "r \<in> set (m_available_ranges a)" for r
    using assms(1) that by (auto simp: ra_safe_def within_def)
  then have "n = 0 \<or> no_range a (n + 8192 + alignment)" using True by (force simp: no_range_def)
  moreover have "allocate_anywhere n alignment a = Inr (a, None)"
    using True assms by (auto simp: allocate_anywhere_def addition_would_overflow_def fits_simps size_add_id)
  ultimately show ?thesis by simp
next
  case False
  then have "allocate_anywhere n alignment a = allocate_anywhere_loop (n + 8192) 4096 n alignment a 0"
    using assms by (simp add: allocate_anywhere_def addition_would_overflow_def fits_simps size_add_id Let_def)
  moreover obtain a' res where "allocate_anywhere_loop (n + 8192) 4096 n alignment a 0 = Inr (a', res)"
    "case res of None \<Rightarrow> a' = a \<and> (\<forall>j. 0 \<le> j \<longrightarrow> j < length (m_available_ranges a) \<longrightarrow> range_size (m_available_ranges a ! j) < n + 8192 + alignment)
     | Some r \<Rightarrow> takes a r a' \<and> guarded a n alignment r"
    using anywhere_loop [OF assms(1) _ assms(2,4), of 0] False by auto
  ultimately show ?thesis by (cases res) (simp_all add: no_range_def all_set_conv_all_nth)
qed

lemma randomized_loop_result:
  assumes "ra_safe a" and "n mod 4096 = 0" and "alignment mod 4096 = 0" and "0 < alignment"
    and "0 < n" and "n < 2 ^ 32" and "alignment < 2 ^ 32"
  shows "\<exists>a' res. randomized_loop random n alignment a i attempts = Inr (a', res) \<and>
    (case res of None \<Rightarrow> a' = a \<and> no_range a (n + 8192 + alignment) | Some r \<Rightarrow> takes a r a' \<and> range_size r = n)"
proof (induction attempts arbitrary: i)
  case 0
  obtain a' res where "allocate_anywhere n alignment a = Inr (a', res)"
    "case res of None \<Rightarrow> a' = a \<and> (n = 0 \<or> no_range a (n + 8192 + alignment)) | Some r \<Rightarrow> takes a r a' \<and> guarded a n alignment r"
    using allocate_anywhere_result [OF assms(1-4,6,7)] by blast
  with assms(5) show ?case by (cases res) (auto simp: guarded_def)
next
  case (Suc attempts)
  let ?addr = "round_up_to_power_of_two (random i) alignment"
  let ?r = "\<lparr>range_base = ?addr, range_size = n\<rparr>"
  show ?case
  proof (cases "contains_size (m_total_range a) ?addr n")
    case False
    with Suc show ?thesis by simp
  next
    case True
    then have "within (m_total_range a) ?r"
      using contains_size_iff [OF _ round_up_less assms(6,5)] assms(1) by (simp add: ra_safe_def)
    moreover have "?addr mod 4096 = 0"
      using round_up_aligned [of 12 alignment "random i"] assms(3,4,7) by (simp add: mod_eq_0_iff_dvd)
    ultimately obtain a' res where "allocate_specific ?addr n a = Inr (a', res)"
      "case res of None \<Rightarrow> a' = a \<and> (\<forall>s\<in>set (m_available_ranges a). \<not> within s ?r) | Some s \<Rightarrow> s = ?r \<and> takes a s a'"
      using allocate_specific_result [OF assms(1), of ?addr n] assms(2) by auto
    with True Suc [of "i + 1"] show ?thesis by (cases res) auto
  qed
qed

lemma allocate_randomized_result:
  assumes "ra_safe a" and "n mod 4096 = 0" and "alignment mod 4096 = 0" and "0 < alignment"
    and "n < 2 ^ 32" and "alignment < 2 ^ 32"
  shows "\<exists>a' res. allocate_randomized random n alignment a = Inr (a', res) \<and>
    (case res of None \<Rightarrow> a' = a \<and> (n = 0 \<or> no_range a (n + 8192 + alignment)) | Some r \<Rightarrow> takes a r a' \<and> range_size r = n)"
proof (cases "n = 0")
  case False
  then obtain a' res where "randomized_loop random n alignment a 0 1000 = Inr (a', res)"
    "case res of None \<Rightarrow> a' = a \<and> no_range a (n + 8192 + alignment) | Some r \<Rightarrow> takes a r a' \<and> range_size r = n"
    using randomized_loop_result [OF assms(1-4) _ assms(5,6), of random 0 1000] by blast
  with False assms(2,3) show ?thesis by (cases res) (simp_all add: allocate_randomized_def)
qed (simp add: allocate_randomized_def)

section \<open>Deallocation\<close>

lemma wrap_i32_zero:
  assumes "0 \<le> d" and "d < 2 ^ 32"
  shows "wrap i32_t d = 0 \<longleftrightarrow> d = 0"
proof (cases "d < 2 ^ 31")
  case True
  with assms show ?thesis by (simp add: wrap_def i32_t_def)
next
  case False
  then have "(d + 2 ^ 31) mod 2 ^ 32 = d - 2 ^ 31"
    using assms minus_mod_self2 [of "d + 2 ^ 31" "2 ^ 32"] by simp
  with False assms(2) show ?thesis by (simp add: wrap_def i32_t_def)
qed

lemma range_comparator_zero:
  assumes "range_base a < 2 ^ 32" and "range_end b < 2 ^ 32"
  shows "range_comparator a b = 0 \<longleftrightarrow> range_base a = range_end b"
proof -
  let ?d = "(int (range_base a) - int (range_end b)) mod 2 ^ 32"
  have "range_comparator a b = 0 \<longleftrightarrow> ?d = 0"
    using wrap_i32_zero [of ?d] by (simp add: range_comparator_def size_sub_def)
  also have "\<dots> \<longleftrightarrow> range_base a = range_end b"
  proof
    assume "?d = 0"
    then have "int (range_base a) mod 2 ^ 32 = int (range_end b) mod 2 ^ 32" by (simp add: mod_eq_dvd_iff mod_eq_0_iff_dvd)
    with assms show "range_base a = range_end b" by simp
  qed simp
  finally show ?thesis .
qed

lemma range_comparator_exact:
  assumes "- (2 ^ 31) \<le> int (range_base a) - int (range_end b)" and "int (range_base a) - int (range_end b) < 2 ^ 31"
  shows "range_comparator a b = int (range_base a) - int (range_end b)"
proof -
  have "range_comparator a b = (int (range_base a) - int (range_end b) + 2 ^ 31) mod 2 ^ 32 - 2 ^ 31"
    by (simp add: range_comparator_def wrap_def i32_t_def size_sub_def mod_add_left_eq)
  with assms show ?thesis by simp
qed

text \<open>Where the comparator is right: within two gigabytes, on ranges that are in order.\<close>

definition near :: "vrange \<Rightarrow> vrange list \<Rightarrow> bool" where
  "near r xs \<longleftrightarrow> (\<forall>s\<in>set xs. - (2 ^ 31) \<le> int (range_base r) - int (range_end s) \<and>
     int (range_base r) - int (range_end s) < 2 ^ 31) \<and> sorted_wrt (\<lambda>s t. range_end s < range_end t) xs"

interpretation by_address: search_order range_comparator near
proof
  fix r :: vrange and xs
  assume near: "near r xs"
  have exact: "range_comparator r (xs ! i) = int (range_base r) - int (range_end (xs ! i))" if "i < length xs" for i
    using near that by (intro range_comparator_exact) (auto simp: near_def)
  have "range_end (xs ! i) < range_end (xs ! j)" if "i < j" "j < length xs" for i j
    using near that by (auto simp: near_def sorted_wrt_iff_nth_less)
  with exact show "signs_fall (range_comparator r) xs" by (force simp: signs_fall_def)
qed

lemma separated_near:
  assumes "\<forall>s\<in>set xs. within t s" and "separated_list xs" and "within t r" and "range_size t \<le> 2 ^ 31"
  shows "near r xs"
proof -
  have ends: "range_end s = range_base s + range_size s" "0 < range_size s" if "s \<in> set xs" for s
    using assms(1) within_end that by (auto simp: within_def)
  have "sorted_wrt (\<lambda>s t. range_end s < range_end t) xs"
    using sorted_wrt_mono_rel [OF _ assms(2)] ends by fastforce
  moreover have "- (2 ^ 31) \<le> int (range_base r) - int (range_end s) \<and> int (range_base r) - int (range_end s) < 2 ^ 31"
    if "s \<in> set xs" for s
  proof -
    have "within t s" using assms(1) that by simp
    with assms(3,4) ends [OF that] show ?thesis unfolding within_def by auto
  qed
  ultimately show ?thesis by (simp add: near_def)
qed

text \<open>The outcome of adding a range: it extends the range before it, or is inserted.\<close>

definition added :: "vrange \<Rightarrow> vrange list \<Rightarrow> vrange list \<Rightarrow> vrange \<Rightarrow> vrange list \<Rightarrow> bool" where
  "added r available xs q ys \<longleftrightarrow>
     (\<exists>p. available = xs @ p # ys \<and> range_base r = range_base p + range_size p \<and>
        q = \<lparr>range_base = range_base p, range_size = range_size p + range_size r\<rparr>) \<or>
     available = xs @ ys \<and> q = r"

lemma add_range_result:
  assumes "\<forall>s\<in>set available. within t s" and "within t r"
  shows "\<exists>xs q ys. add_range r available = Inr (xs @ q # ys, length xs) \<and> added r available xs q ys"
proof (cases "binary_search range_comparator r available")
  case (Pair found nearby)
  show ?thesis
  proof (cases found)
    case None
    let ?k = "matching_index (\<lambda>entry. range_end r \<le> range_base entry) available nearby"
    have "add_range r available = Inr (take ?k available @ r # drop ?k available, ?k)"
      using Pair None by (simp add: add_range_def insert_before_matching_result)
    then show ?thesis
      by (intro exI [of _ "take ?k available"] exI [of _ r] exI [of _ "drop ?k available"])
        (simp add: added_def min.absorb2 matching_index_le)
  next
    case (Some i)
    note found = binary_search_found [OF Pair [unfolded Some]]
    obtain p where p: "available ! i = p" by simp
    then have inside: "within t p" using assms(1) found(1) nth_mem by blast
    have "range_base r = range_base p + range_size p"
      using found(2) p range_comparator_zero [of r p] within_end [OF inside] inside assms(2) by (auto simp: within_def)
    moreover have "available = take i available @ p # drop (Suc i) available"
      using id_take_nth_drop [OF found(1)] p by simp
    moreover have "size_add (range_size p) (range_size r) = range_size p + range_size r"
      using calculation(1) inside assms(2) by (simp add: within_def size_add_id)
    then have "add_range r available =
        Inr (take i available @ p\<lparr>range_size := range_size p + range_size r\<rparr> # drop (Suc i) available, i)"
      using Pair Some found(1,3) p by (simp add: add_range_def upd_conv_take_nth_drop)
    moreover have "p\<lparr>range_size := range_size p + range_size r\<rparr> = \<lparr>range_base = range_base p, range_size = range_size p + range_size r\<rparr>"
      by (cases p) simp
    ultimately show ?thesis
      using found(1) unfolding added_def
      by (intro exI [of _ "take i available"] exI [of _ "p\<lparr>range_size := range_size p + range_size r\<rparr>"]
          exI [of _ "drop (Suc i) available"]) auto
  qed
qed

abbreviation union_cells :: "vrange list \<Rightarrow> nat set" where
  "union_cells xs \<equiv> \<Union>r\<in>set xs. cells r"

lemma added_safe:
  assumes "added r available xs q ys" and "\<forall>s\<in>set available. within t s" and "within t r"
    and "disjoint_ranges_list available" and "cells r \<inter> union_cells available = {}"
  shows "\<forall>s\<in>set (xs @ q # ys). within t s" and "disjoint_ranges_list (xs @ q # ys)"
    and "union_cells (xs @ q # ys) = union_cells available \<union> cells r"
proof -
  have "(\<forall>s\<in>set (xs @ q # ys). within t s) \<and> disjoint_ranges_list (xs @ q # ys) \<and>
      union_cells (xs @ q # ys) = union_cells available \<union> cells r"
  proof (cases "available = xs @ ys \<and> q = r")
    case True
    with assms(2-5) show ?thesis by (auto simp: sorted_wrt_append)
  next
    case False
    with assms(1) obtain p where p: "available = xs @ p # ys" "range_base r = range_base p + range_size p"
      "q = \<lparr>range_base = range_base p, range_size = range_size p + range_size r\<rparr>" by (auto simp: added_def)
    then have "cells q = cells p \<union> cells r" by (auto simp: cells_def)
    moreover have "within t q" using p assms(2,3) by (auto simp: within_def)
    ultimately show ?thesis using assms(2-5) unfolding p(1) by (auto simp: sorted_wrt_append)
  qed
  then show "\<forall>s\<in>set (xs @ q # ys). within t s" and "disjoint_ranges_list (xs @ q # ys)"
    and "union_cells (xs @ q # ys) = union_cells available \<union> cells r" by blast+
qed

text \<open>The place at which a range is inserted separates what lies below it from what lies above.\<close>

lemma insertion_index:
  assumes inside: "\<forall>s\<in>set available. within t s" and r: "within t r" and near: "near r available"
    and "available \<noteq> []" and apart: "cells r \<inter> union_cells available = {}"
    and search: "binary_search range_comparator r available = (None, nearby)"
  defines "k \<equiv> matching_index (\<lambda>entry. range_end r \<le> range_base entry) available nearby"
  shows "j < k \<Longrightarrow> range_base (available ! j) + range_size (available ! j) < range_base r"
    and "k \<le> j \<Longrightarrow> j < length available \<Longrightarrow> range_base r + range_size r \<le> range_base (available ! j)"
proof -
  have cmp: "range_comparator r (available ! j) = int (range_base r) - int (range_base (available ! j) + range_size (available ! j))"
      "range_base r + range_size r \<le> range_base (available ! j) \<or>
       range_base (available ! j) + range_size (available ! j) \<le> range_base r" "0 < range_size (available ! j)"
    if "j < length available" for j
  proof -
    have s: "available ! j \<in> set available" "within t (available ! j)" using that inside by auto
    show "range_comparator r (available ! j) = int (range_base r) - int (range_base (available ! j) + range_size (available ! j))"
      using near s by (subst range_comparator_exact) (auto simp: near_def within_end)
    show "0 < range_size (available ! j)" using s(2) by (simp add: within_def)
    then show "range_base r + range_size r \<le> range_base (available ! j) \<or>
       range_base (available ! j) + range_size (available ! j) \<le> range_base r"
      using disjoint_ranges [of r "available ! j"] apart s(1) r by (auto simp: within_def)
  qed
  have result: "nearby < length available" "\<forall>i<length available. range_comparator r (available ! i) \<noteq> 0"
      "\<forall>i<nearby. 0 < range_comparator r (available ! i)"
      "\<forall>i<length available. nearby < i \<longrightarrow> range_comparator r (available ! i) < 0"
    using by_address.search_correct [OF near assms(4)] search by (auto simp: search_result_def)
  have k: "nearby \<le> k" "\<forall>i. nearby \<le> i \<and> i < k \<longrightarrow> \<not> range_end r \<le> range_base (available ! i)"
      "k < length available \<longrightarrow> range_end r \<le> range_base (available ! k)" "k \<le> length available"
    using matching_index_spec [OF less_imp_le [OF result(1)]] matching_index_le unfolding k_def by blast+
  note r_end = within_end [OF r]
  have above: "range_base r + range_size r \<le> range_base (available ! j)" if "nearby < j" "j < length available" for j
    using cmp [OF that(2)] result(4) that by auto
  have "k \<le> nearby + 1" using k above [of "nearby + 1"] r_end by (metis Suc_eq_plus1 lessI not_less_eq_eq le_SucI linorder_not_le order_less_le_trans)
  show "range_base (available ! j) + range_size (available ! j) < range_base r" if "j < k"
  proof (cases "j < nearby")
    case True
    then have "0 < range_comparator r (available ! j)" "j < length available" using result(1,3) by auto
    then show ?thesis using cmp(1) [of j] by linarith
  next
    case False
    then have "j = nearby" using that \<open>k \<le> nearby + 1\<close> by simp
    with cmp [OF result(1)] result(1,2) k(2) that r_end show ?thesis by fastforce
  qed
  show "range_base r + range_size r \<le> range_base (available ! j)" if "k \<le> j" "j < length available"
    using above [of j] that k(1,3) r_end by (cases "j = k") (auto simp: le_less)
qed

definition fits_between :: "vrange list \<Rightarrow> vrange \<Rightarrow> vrange list \<Rightarrow> bool" where
  "fits_between xs q ys \<longleftrightarrow> separated_list (xs @ ys) \<and>
     (\<forall>x\<in>set xs. range_base x + range_size x < range_base q) \<and>
     (\<forall>y\<in>set ys. range_base q + range_size q \<le> range_base y)"

lemma add_range_between:
  assumes inside: "\<forall>s\<in>set available. within t s" and r: "within t r" and "range_size t \<le> 2 ^ 31"
    and sep: "separated_list available" and "available \<noteq> []" and apart: "cells r \<inter> union_cells available = {}"
    and add: "add_range r available = Inr (xs @ q # ys, length xs)" and added: "added r available xs q ys"
  shows "fits_between xs q ys"
proof (cases "binary_search range_comparator r available")
  case (Pair found nearby)
  note near = separated_near [OF inside sep r assms(3)]
  show ?thesis
  proof (cases found)
    case None
    let ?k = "matching_index (\<lambda>entry. range_end r \<le> range_base entry) available nearby"
    note index = insertion_index [OF inside r near assms(5) apart Pair [unfolded None]]
    have "add_range r available = Inr (take ?k available @ r # drop ?k available, ?k)"
      using Pair None by (simp add: add_range_def insert_before_matching_result)
    with add have "xs @ q # ys = take ?k available @ r # drop ?k available" "length xs = ?k"
      by (metis Pair_inject sum.inject(2))+
    then have eq: "xs = take ?k available" "q = r" "ys = drop ?k available"
      using matching_index_le [of _ available nearby]
      by (metis append_eq_append_conv length_take min.absorb2 list.inject)+
    have "range_base x + range_size x < range_base r" if "x \<in> set xs" for x
      using that index(1) unfolding eq by (auto simp: in_set_conv_nth)
    moreover have "range_base r + range_size r \<le> range_base y" if "y \<in> set ys" for y
      using that index(2) unfolding eq by (auto simp: in_set_conv_nth)
    moreover have "xs @ ys = available" unfolding eq by simp
    ultimately show ?thesis using sep eq(2) by (simp add: fits_between_def)
  next
    case (Some i)
    note found = binary_search_found [OF Pair [unfolded Some]]
    have "xs @ q # ys = available[i := (available ! i)\<lparr>range_size := size_add (range_size (available ! i)) (range_size r)\<rparr>]"
      using add Pair Some by (simp add: add_range_def)
    then have "length (xs @ q # ys) = length available" by (simp only: length_list_update)
    with added obtain p where p: "available = xs @ p # ys" "range_base r = range_base p + range_size p"
      "q = \<lparr>range_base = range_base p, range_size = range_size p + range_size r\<rparr>" by (auto simp: added_def)
    have "range_base q + range_size q \<le> range_base y" if "y \<in> set ys" for y
    proof -
      have "range_base p + range_size p < range_base y" using sep that by (simp add: p(1) sorted_wrt_append)
      moreover have "cells r \<inter> cells y = {}" "within t y" using apart inside that p(1) by auto
      ultimately show ?thesis using disjoint_ranges [of r y] r p(2,3) by (auto simp: within_def)
    qed
    with sep show ?thesis by (auto simp: fits_between_def p sorted_wrt_append)
  qed
qed

lemma merge_result:
  assumes "\<forall>s\<in>set (xs @ q # ys). within t s" and "disjoint_ranges_list (xs @ q # ys)"
  shows "\<exists>merged. merge_with_next (length xs) (xs @ q # ys) = Inr merged \<and> merged \<noteq> [] \<and>
    (\<forall>s\<in>set merged. within t s) \<and> disjoint_ranges_list merged \<and> union_cells merged = union_cells (xs @ q # ys) \<and>
    (fits_between xs q ys \<longrightarrow> separated_list merged)"
proof (cases "\<exists>y ys'. ys = y # ys' \<and> range_end q = range_base y")
  case True
  then obtain y ys' where y: "ys = y # ys'" "range_base y = range_base q + range_size q"
    using within_end [of t q] assms(1) by auto
  let ?q = "q\<lparr>range_size := range_size q + range_size y\<rparr>"
  have inside: "within t q" "within t y" using assms(1) y(1) by auto
  then have sum: "size_add (range_size q) (range_size y) = range_size q + range_size y"
    using y(2) by (simp add: within_def size_add_id)
  have "merge_with_next (length xs) (xs @ q # ys) = Inr (xs @ ?q # ys')"
    using True sum y(1) by (simp add: merge_with_next_def vec_remove_def list_update_append nth_append)
  moreover have q: "cells ?q = cells q \<union> cells y" using y(2) by (auto simp: cells_def)
  moreover have "within t ?q" using inside y(2) by (auto simp: within_def)
  moreover have "disjoint_ranges_list (xs @ ?q # ys')"
    using assms(2) unfolding y(1) by (auto simp: sorted_wrt_append q)
  moreover have "separated_list (xs @ ?q # ys')" if "fits_between xs q ys"
    using that y(2) inside unfolding y(1) fits_between_def by (auto simp: sorted_wrt_append within_def)
  ultimately show ?thesis using assms(1) unfolding y(1) by (intro exI [of _ "xs @ ?q # ys'"]) auto
next
  case False
  have q: "range_end q = range_base q + range_size q" using within_end assms(1) by auto
  have "merge_with_next (length xs) (xs @ q # ys) = Inr (xs @ q # ys)"
    using False by (cases ys) (simp_all add: merge_with_next_def nth_append)
  moreover have "separated_list (xs @ q # ys)" if "fits_between xs q ys"
  proof (cases ys)
    case Nil
    with that show ?thesis by (auto simp: fits_between_def sorted_wrt_append)
  next
    case (Cons y ys')
    with that False q have "range_base q + range_size q < range_base y" by (auto simp: fits_between_def le_less)
    with that Cons show ?thesis by (fastforce simp: fits_between_def sorted_wrt_append)
  qed
  ultimately show ?thesis using assms by (intro exI [of _ "xs @ q # ys"]) auto
qed

lemma release_result:
  assumes ok: "ra_safe a" and r: "within (m_total_range a) r" and "range_size r mod 4096 = 0"
    and "m_available_ranges a \<noteq> []" and apart: "cells r \<inter> free_cells a = {}"
  shows "\<exists>a'. deallocate_range r a = Inr a' \<and> ra_safe a' \<and> m_total_range a' = m_total_range a \<and>
    free_cells a' = free_cells a \<union> cells r \<and> m_available_ranges a' \<noteq> [] \<and>
    (range_size (m_total_range a) \<le> 2 ^ 31 \<and> separated_list (m_available_ranges a) \<longrightarrow> separated_list (m_available_ranges a'))"
proof -
  note inv = ok [unfolded ra_safe_def]
  obtain xs q ys where add: "add_range r (m_available_ranges a) = Inr (xs @ q # ys, length xs)"
    and added: "added r (m_available_ranges a) xs q ys"
    using add_range_result inv r by blast
  note safe = added_safe [OF added _ r, unfolded free_cells_def [symmetric]]
  obtain merged where merged: "merge_with_next (length xs) (xs @ q # ys) = Inr merged" "merged \<noteq> []"
    "\<forall>s\<in>set merged. within (m_total_range a) s" "disjoint_ranges_list merged"
    "union_cells merged = union_cells (xs @ q # ys)" "fits_between xs q ys \<longrightarrow> separated_list merged"
    using merge_result [of xs q ys "m_total_range a"] safe(1,2) inv apart by blast
  have "range_base r < range_end r" "range_size r \<noteq> 0" using within_end [OF r] r by (auto simp: within_def)
  then have "deallocate_range r a = Inr (a\<lparr>m_available_ranges := merged\<rparr>)"
    using assms(3,4) contains_within [OF r] add merged(1) by (simp add: deallocate_range_def)
  moreover have "ra_safe (a\<lparr>m_available_ranges := merged\<rparr>)" using inv merged(3,4) by (simp add: ra_safe_def)
  moreover have "free_cells (a\<lparr>m_available_ranges := merged\<rparr>) = free_cells a \<union> cells r"
    using safe(3) inv apart merged(5) by (simp add: free_cells_def)
  moreover have "separated_list merged"
    if "range_size (m_total_range a) \<le> 2 ^ 31" "separated_list (m_available_ranges a)"
    using add_range_between [OF _ r that assms(4) _ add added] inv apart merged(6) by (simp add: free_cells_def)
  ultimately show ?thesis using merged(2) by auto
qed

section \<open>Runs\<close>

text \<open>
  The states an allocator reaches, with the addresses that are allocated.  A caller gives back any
  part of what it was given (\<^verbatim>\<open>munmap\<close> splits regions), and passes a positive alignment.
\<close>

inductive ra_reachable :: "vrange \<Rightarrow> range_allocator \<Rightarrow> nat set \<Rightarrow> bool" for t where
  init: "range_base t + range_size t < 2 ^ 32 \<Longrightarrow> 0 < range_size t \<Longrightarrow>
    ra_reachable t (initialize_with_range (range_base t) (range_size t) range_allocator_construct) {}"
| fork: "ra_reachable t a live \<Longrightarrow> ra_reachable t (initialize_from_parent a range_allocator_construct) live"
| specific: "ra_reachable t a live \<Longrightarrow> base < 2 ^ 32 \<Longrightarrow> n < 2 ^ 32 \<Longrightarrow>
    allocate_specific base n a = Inr (a', Some r) \<Longrightarrow> ra_reachable t a' (live \<union> cells r)"
| anywhere: "ra_reachable t a live \<Longrightarrow> n < 2 ^ 32 \<Longrightarrow> alignment < 2 ^ 32 \<Longrightarrow> 0 < alignment \<Longrightarrow>
    allocate_anywhere n alignment a = Inr (a', Some r) \<Longrightarrow> ra_reachable t a' (live \<union> cells r)"
| randomized: "ra_reachable t a live \<Longrightarrow> n < 2 ^ 32 \<Longrightarrow> alignment < 2 ^ 32 \<Longrightarrow> 0 < alignment \<Longrightarrow>
    allocate_randomized random n alignment a = Inr (a', Some r) \<Longrightarrow> ra_reachable t a' (live \<union> cells r)"
| dealloc: "ra_reachable t a live \<Longrightarrow> cells r \<subseteq> live \<Longrightarrow> deallocate_range r a = Inr a' \<Longrightarrow>
    ra_reachable t a' (live - cells r)"

definition ra_inv :: "vrange \<Rightarrow> range_allocator \<Rightarrow> nat set \<Rightarrow> bool" where
  "ra_inv t a live \<longleftrightarrow> m_total_range a = t \<and> ra_safe a \<and> free_cells a \<union> live = cells t \<and> free_cells a \<inter> live = {} \<and>
     (range_size t \<le> 2 ^ 31 \<longrightarrow> separated_list (m_available_ranges a))"

lemma takes_inv: "ra_inv t a live \<Longrightarrow> takes a r a' \<Longrightarrow> ra_inv t a' (live \<union> cells r)"
  by (auto simp: ra_inv_def takes_def)

lemma live_within:
  assumes "ra_inv t a live" and "cells r \<subseteq> live" and "0 < range_size r"
  shows "within (m_total_range a) r" and "cells r \<inter> free_cells a = {}"
  using assms within_iff_cells [of t r] by (auto simp: ra_inv_def ra_safe_def)

lemma ra_reachable_inv: "ra_reachable t a live \<Longrightarrow> ra_inv t a live"
proof (induction rule: ra_reachable.induct)
  case init
  then show ?case
    by (simp add: ra_inv_def ra_safe_def initialize_with_range_def range_allocator_construct_def within_def
        free_cells_def cells_def)
next
  case (fork a live)
  then show ?case by (auto simp: ra_inv_def ra_safe_def initialize_from_parent_def free_cells_def)
next
  case (specific a live base n a' r)
  then have "takes a r a'" using allocate_specific_takes [of a base n a' "Some r"] by (auto simp: ra_inv_def)
  with specific(5) show ?case by (rule takes_inv)
next
  case (anywhere a live n alignment a' r)
  then have "n mod 4096 = 0" "alignment mod 4096 = 0" by (auto simp: allocate_anywhere_def split: if_splits)
  with anywhere have "takes a r a'"
    using allocate_anywhere_result [of a n alignment] by (auto simp: ra_inv_def)
  with anywhere(6) show ?case by (rule takes_inv)
next
  case (randomized a live n alignment random a' r)
  then have "n mod 4096 = 0" "alignment mod 4096 = 0" by (auto simp: allocate_randomized_def split: if_splits)
  with randomized have "takes a r a'"
    using allocate_randomized_result [of a n alignment random] by (auto simp: ra_inv_def)
  with randomized(6) show ?case by (rule takes_inv)
next
  case (dealloc a live r a')
  then have pre: "range_size r mod 4096 = 0" "0 < range_size r" "m_available_ranges a \<noteq> []"
    by (auto simp: deallocate_range_def)
  note inside = live_within [OF dealloc(4,2) pre(2)]
  have "ra_safe a" using dealloc(4) by (simp add: ra_inv_def)
  from release_result [OF this inside(1) pre(1,3) inside(2)] dealloc show ?case
    by (auto simp: ra_inv_def)
qed

lemma sorted_wrt_pair: "sorted_wrt P xs \<Longrightarrow> x \<in> set xs \<Longrightarrow> y \<in> set xs \<Longrightarrow> x \<noteq> y \<Longrightarrow> P x y \<or> P y x"
  by (induction xs) auto

lemma covered_by_one:
  assumes "separated_list xs" and "{b..<b + n} \<subseteq> union_cells xs" and "0 < n" and "\<forall>r\<in>set xs. within t r"
  shows "\<exists>r\<in>set xs. within r \<lparr>range_base = b, range_size = n\<rparr>"
proof -
  obtain r where r: "r \<in> set xs" "b \<in> cells r" using assms(2,3) by force
  have "b + n \<le> range_base r + range_size r"
  proof (rule ccontr)
    let ?e = "range_base r + range_size r"
    assume "\<not> ?thesis"
    then have "?e \<in> {b..<b + n}" using r(2) by (auto simp: cells_def)
    then obtain s where s: "s \<in> set xs" "?e \<in> cells s" using assms(2) by blast
    then have "r \<noteq> s" by (auto simp: cells_def)
    with r(1) s(1) assms(1) have "?e < range_base s \<or> range_base s + range_size s < range_base r"
      using sorted_wrt_pair [OF assms(1) r(1) s(1)] by blast
    with s(2) show False by (auto simp: cells_def)
  qed
  with r assms(3,4) show ?thesis by (intro bexI [of _ r]) (auto simp: within_def cells_def)
qed

section \<open>Correctness\<close>

text \<open>The address ranges of \<^verbatim>\<open>Kernel/VM/PageDirectory.cpp\<close>: the kernel's, and that of a process.\<close>

definition kernel_range :: vrange where
  "kernel_range = \<lparr>range_base = 0xc1000000, range_size = 0x30800000\<rparr>"

definition user_range :: vrange where
  "user_range = \<lparr>range_base = 0x00800000, range_size = 0xbd800000\<rparr>"

abbreviation (input) fresh_allocator :: "vrange \<Rightarrow> range_allocator" where
  "fresh_allocator t \<equiv> initialize_with_range (range_base t) (range_size t) range_allocator_construct"

lemma fresh_kernel_allocator:
  "ra_reachable kernel_range (fresh_allocator kernel_range) {}"
  "free_cells (fresh_allocator kernel_range) = {0xc1000000..<0xf1800000}"
  by (rule ra_reachable.init)
    (simp_all add: kernel_range_def initialize_with_range_def range_allocator_construct_def free_cells_def cells_def)

text \<open>
  C15. Virtual address ranges never overlap.  In every state an allocator reaches by allocating at a
  fixed address, anywhere or at random addresses, by releasing any part of what is allocated, and by
  copying it for a child process: the free addresses and the allocated ones are disjoint and together
  are exactly the total range, so none is lost; and whatever range an allocation returns next was
  free, has the size asked for and lies inside the total range.
\<close>

theorem ranges_never_overlap:
  assumes "ra_reachable t a live"
  shows "free_cells a \<union> live = cells t \<and> free_cells a \<inter> live = {} \<and>
    (base < 2 ^ 32 \<and> n < 2 ^ 32 \<and> allocate_specific base n a = Inr (a', Some r) \<longrightarrow>
      r = \<lparr>range_base = base, range_size = n\<rparr> \<and> cells r \<subseteq> cells t - live) \<and>
    (n < 2 ^ 32 \<and> alignment < 2 ^ 32 \<and> 0 < alignment \<and> n mod 4096 = 0 \<and> alignment mod 4096 = 0 \<longrightarrow>
      (\<exists>a' res. allocate_randomized random n alignment a = Inr (a', res) \<and>
        (\<forall>r. res = Some r \<longrightarrow> range_size r = n \<and> cells r \<subseteq> cells t - live)))"
proof -
  note inv = ra_reachable_inv [OF assms, unfolded ra_inv_def]
  have free: "cells r \<subseteq> cells t - live" if "takes a r a'" for r a'
    using inv that by (auto simp: takes_def)
  have "r = \<lparr>range_base = base, range_size = n\<rparr> \<and> cells r \<subseteq> cells t - live"
    if "base < 2 ^ 32" "n < 2 ^ 32" "allocate_specific base n a = Inr (a', Some r)"
    using allocate_specific_takes [OF _ that(3,1,2)] inv free by auto
  moreover have "\<exists>a' res. allocate_randomized random n alignment a = Inr (a', res) \<and>
      (\<forall>r. res = Some r \<longrightarrow> range_size r = n \<and> cells r \<subseteq> cells t - live)"
    if "n < 2 ^ 32" "alignment < 2 ^ 32" "0 < alignment" "n mod 4096 = 0" "alignment mod 4096 = 0"
  proof -
    note pre = that
    obtain a' res where "allocate_randomized random n alignment a = Inr (a', res)"
      "case res of None \<Rightarrow> a' = a \<and> (n = 0 \<or> no_range a (n + 8192 + alignment)) | Some r \<Rightarrow> takes a r a' \<and> range_size r = n"
      using allocate_randomized_result [OF _ pre(4,5,3,1,2), of a] inv by blast
    with free show ?thesis by (cases res) auto
  qed
  ultimately show ?thesis using inv by (elim conjE) (intro conjI impI; (elim conjE)?; (simp; fail | auto))
qed

theorem ranges_never_overlap_witness:
  "\<exists>a' res. allocate_randomized (\<lambda>i. 0xc1000000 + i * 4096) 8192 4096 (fresh_allocator kernel_range) = Inr (a', res) \<and>
    (\<forall>r. res = Some r \<longrightarrow> range_size r = 8192 \<and> cells r \<subseteq> cells kernel_range - {})"
  using ranges_never_overlap [OF fresh_kernel_allocator(1), of 0 8192 undefined undefined 4096 "\<lambda>i. 0xc1000000 + i * 4096"]
  by (simp del: Diff_empty)

text \<open>
  C16. Allocation is exact.  In every reachable state of an allocator for at most two gigabytes:
  \<^verbatim>\<open>allocate_specific\<close> of a page-aligned range inside the total range succeeds if and only if all of
  its addresses are free, and then takes exactly these; \<^verbatim>\<open>allocate_anywhere\<close> fails only when no free
  range is as long as the size with two guard pages and the alignment, and what it returns is aligned
  and has a free page on either side.
\<close>

theorem range_allocation_exact:
  assumes "ra_reachable t a live" and "range_size t \<le> 2 ^ 31"
  shows "(base mod 4096 = 0 \<and> n mod 4096 = 0 \<and> 0 < n \<and> {base..<base + n} \<subseteq> cells t \<longrightarrow>
      (\<exists>a'. allocate_specific base n a =
          Inr (a', if {base..<base + n} \<subseteq> free_cells a then Some \<lparr>range_base = base, range_size = n\<rparr> else None) \<and>
        free_cells a' = (if {base..<base + n} \<subseteq> free_cells a then free_cells a - {base..<base + n} else free_cells a))) \<and>
    (n mod 4096 = 0 \<and> alignment mod 4096 = 0 \<and> 0 < alignment \<and> n < 2 ^ 32 \<and> alignment < 2 ^ 32 \<longrightarrow>
      (\<exists>a' res. allocate_anywhere n alignment a = Inr (a', res) \<and>
        (case res of
           None \<Rightarrow> a' = a \<and> (n = 0 \<or> no_range a (n + 8192 + alignment))
         | Some r \<Rightarrow> guarded a n alignment r \<and> free_cells a' = free_cells a - cells r)))"
proof -
  note inv = ra_reachable_inv [OF assms(1), unfolded ra_inv_def]
  have "\<exists>a'. allocate_specific base n a =
      Inr (a', if {base..<base + n} \<subseteq> free_cells a then Some \<lparr>range_base = base, range_size = n\<rparr> else None) \<and>
      free_cells a' = (if {base..<base + n} \<subseteq> free_cells a then free_cells a - {base..<base + n} else free_cells a)"
    if "base mod 4096 = 0" "n mod 4096 = 0" "0 < n" "{base..<base + n} \<subseteq> cells t"
  proof -
    note pre = that
    let ?r = "\<lparr>range_base = base, range_size = n\<rparr>"
    have "m_total_range a = t" "range_base t + range_size t < 2 ^ 32" using inv by (auto simp: ra_safe_def)
    then have "within (m_total_range a) ?r" using within_iff_cells [of t ?r] pre(3,4) by (simp add: cells_def)
    then obtain a' res where res: "allocate_specific base n a = Inr (a', res)"
      "case res of None \<Rightarrow> a' = a \<and> (\<forall>s\<in>set (m_available_ranges a). \<not> within s ?r) | Some s \<Rightarrow> s = ?r \<and> takes a s a'"
      using allocate_specific_result [OF _ _ pre(1,2)] inv by blast
    have "\<not> {base..<base + n} \<subseteq> free_cells a" if "res = None"
      using covered_by_one [of "m_available_ranges a" base n t] \<open>0 < n\<close> inv assms(2) res(2) that
      by (auto simp: free_cells_def ra_safe_def)
    with res show ?thesis by (cases res) (auto simp: takes_def cells_def)
  qed
  moreover have "\<exists>a' res. allocate_anywhere n alignment a = Inr (a', res) \<and>
      (case res of None \<Rightarrow> a' = a \<and> (n = 0 \<or> no_range a (n + 8192 + alignment))
       | Some r \<Rightarrow> guarded a n alignment r \<and> free_cells a' = free_cells a - cells r)"
    if "n mod 4096 = 0" "alignment mod 4096 = 0" "0 < alignment" "n < 2 ^ 32" "alignment < 2 ^ 32"
  proof -
    note pre = that
    obtain a' res where "allocate_anywhere n alignment a = Inr (a', res)"
      "case res of None \<Rightarrow> a' = a \<and> (n = 0 \<or> no_range a (n + 8192 + alignment)) | Some r \<Rightarrow> takes a r a' \<and> guarded a n alignment r"
      using allocate_anywhere_result [OF _ pre, of a] inv by blast
    then show ?thesis by (cases res) (auto simp: takes_def)
  qed
  ultimately show ?thesis by (intro conjI impI; (elim conjE)?; simp)
qed

theorem range_allocation_exact_witness:
  "\<exists>a'. allocate_specific 0xc1002000 8192 (fresh_allocator kernel_range) =
    Inr (a', Some \<lparr>range_base = 0xc1002000, range_size = 8192\<rparr>)"
proof -
  have "range_size kernel_range \<le> 2 ^ 31" by (simp add: kernel_range_def)
  moreover have "{0xc1002000..<0xc1002000 + 8192} \<subseteq> cells kernel_range" by (simp add: kernel_range_def cells_def)
  ultimately show ?thesis
    using range_allocation_exact [OF fresh_kernel_allocator(1), of "0xc1002000" 8192, THEN conjunct1]
    unfolding fresh_kernel_allocator(2) by auto
qed

text \<open>
  C17. Releasing a range restores it.  Any part of the allocated addresses that consists of whole pages
  can be released, as long as some address is free: the call passes its checks and exactly these
  addresses become free; when the total range is at most two gigabytes the free ranges stay sorted
  and merged, no two of them touching.
\<close>

theorem deallocation_coalesces:
  assumes "ra_reachable t a live" and "cells r \<subseteq> live" and "0 < range_size r" and "range_size r mod 4096 = 0"
    and "free_cells a \<noteq> {}"
  shows "\<exists>a'. deallocate_range r a = Inr a' \<and> free_cells a' = free_cells a \<union> cells r \<and>
    (range_size t \<le> 2 ^ 31 \<longrightarrow>
      sorted_wrt (\<lambda>p q. range_base p + range_size p < range_base q) (m_available_ranges a'))"
proof -
  have inv: "ra_inv t a live" using ra_reachable_inv [OF assms(1)] .
  have "m_available_ranges a \<noteq> []" using assms(5) by (auto simp: free_cells_def)
  from release_result [OF _ live_within(1) [OF inv assms(2,3)] assms(4) this live_within(2) [OF inv assms(2,3)]] inv
  show ?thesis by (auto simp: ra_inv_def)
qed

theorem deallocation_coalesces_witness:
  "\<exists>a a'. allocate_specific 0xc1002000 8192 (fresh_allocator kernel_range) =
     Inr (a, Some \<lparr>range_base = 0xc1002000, range_size = 8192\<rparr>) \<and>
   deallocate_range \<lparr>range_base = 0xc1002000, range_size = 8192\<rparr> a = Inr a' \<and> free_cells a' = {0xc1000000..<0xf1800000}"
proof -
  let ?r = "\<lparr>range_base = 0xc1002000, range_size = 8192\<rparr>"
  note inv = ra_reachable_inv [OF fresh_kernel_allocator(1), unfolded ra_inv_def]
  have "within kernel_range ?r" by (simp add: within_def kernel_range_def)
  with allocate_specific_result [of "fresh_allocator kernel_range" "0xc1002000" 8192] inv obtain a where
    a: "allocate_specific 0xc1002000 8192 (fresh_allocator kernel_range) = Inr (a, Some ?r)"
    by (auto simp: initialize_with_range_def range_allocator_construct_def kernel_range_def within_def split: option.splits)
  have reach: "ra_reachable kernel_range a (cells ?r)"
    using ra_reachable.specific [OF fresh_kernel_allocator(1) _ _ a] by simp
  then have "free_cells a \<union> cells ?r = cells kernel_range" using ra_reachable_inv by (simp add: ra_inv_def)
  moreover from this have "free_cells a \<noteq> {}" by (auto simp: cells_def kernel_range_def)
  ultimately show ?thesis
    using a deallocation_coalesces [OF reach subset_refl] by (auto simp: cells_def kernel_range_def)
qed

text \<open>
  Beyond two gigabytes the comparator of \<^verbatim>\<open>deallocate\<close> is wrong, and the range of a process is larger
  than that: the released range is inserted after one with a higher address.
\<close>

theorem deallocate_unsorts_user_ranges:
  "deallocate_range \<lparr>range_base = 0x00900000, range_size = 0x1000\<rparr>
     \<lparr>m_available_ranges =
        [\<lparr>range_base = 0x00800000, range_size = 0x1000\<rparr>, \<lparr>range_base = 0x90000000, range_size = 0x1000\<rparr>,
         \<lparr>range_base = 0xa0000000, range_size = 0x1000\<rparr>], m_total_range = user_range\<rparr> =
   Inr \<lparr>m_available_ranges =
        [\<lparr>range_base = 0x00800000, range_size = 0x1000\<rparr>, \<lparr>range_base = 0x90000000, range_size = 0x1000\<rparr>,
         \<lparr>range_base = 0x00900000, range_size = 0x1000\<rparr>, \<lparr>range_base = 0xa0000000, range_size = 0x1000\<rparr>],
        m_total_range = user_range\<rparr>"
  by (simp add: deallocate_range_def contains_range_def contains_size_def range_end_def user_range_def size_add_def
      add_range_def binary_search_def binary_search_loop.simps range_comparator_def size_sub_def wrap_def i32_t_def
      insert_before_matching_def matching_index.simps vec_insert_def merge_with_next_def)

text \<open>
  Requests that \<^verbatim>\<open>mmap\<close> passes on unchecked and that panic: an address below the range of the process,
  and a zero alignment.
\<close>

theorem allocate_outside_panics:
  "allocate_specific 0x1000 0x1000 (fresh_allocator user_range) = Inl Verify_failed"
  "allocate_anywhere 0x1000 0 (fresh_allocator user_range) = Inl Verify_failed"
  by (simp_all add: allocate_specific_def allocate_specific_loop.simps allocate_anywhere_def
      allocate_anywhere_loop.simps initialize_with_range_def range_allocator_construct_def user_range_def
      contains_range_def contains_size_def range_end_def size_add_def verify_def addition_would_overflow_def fits_simps
      round_up_to_power_of_two_def)

text \<open>An allocator all of whose addresses are allocated cannot take any back.\<close>

theorem deallocate_into_empty_panics:
  "deallocate_range r (a\<lparr>m_available_ranges := []\<rparr>) = Inl Verify_failed"
  by (simp add: deallocate_range_def verify_def)

end
