(* ===== verification/Slab_Allocator.thy ===== *)
theory Slab_Allocator
  imports Alignment
begin

text \<open>
  \<^verbatim>\<open>Kernel/Heap/SlabAllocator.cpp\<close>: free lists of fixed-size slabs, kept in the slabs themselves and
  changed without a lock; and \<^verbatim>\<open>kmalloc_eternal\<close> of \<^verbatim>\<open>Kernel/Heap/kmalloc.cpp\<close>, which provides their
  memory.  The operations run on several processors at once: every access to the list head and to the
  link of a slab is one step of a transition system.
\<close>

section \<open>Eternal memory\<close>

record eternal_heap =
  s_next_eternal_ptr :: nat
  s_end_of_eternal_range :: nat
  g_kmalloc_bytes_eternal :: nat

definition kmalloc_eternal :: "nat \<Rightarrow> eternal_heap \<Rightarrow> (eternal_heap \<times> nat) res" where
  "kmalloc_eternal n e =
     (let n = round_up_to_power_of_two n 4;
          ptr = s_next_eternal_ptr e;
          e = e\<lparr>s_next_eternal_ptr := size_add (s_next_eternal_ptr e) n\<rparr>
      in verify (s_next_eternal_ptr e < s_end_of_eternal_range e)
           (Inr (e\<lparr>g_kmalloc_bytes_eternal := size_add (g_kmalloc_bytes_eternal e) n\<rparr>, ptr)))"

section \<open>Slabs\<close>

record slab_allocator =
  m_freelist :: nat
  m_num_allocated :: int
  m_slab_count :: nat
  m_base :: nat
  m_end :: nat

function link_slabs :: "nat \<Rightarrow> nat \<Rightarrow> nat \<Rightarrow> nat \<Rightarrow> mem \<Rightarrow> mem" where
  "link_slabs slab_size base count i m =
     (if i < count
      then link_slabs slab_size base count (i + 1)
             (store32 m (base + i * slab_size) (of_nat (base + (i - 1) * slab_size)))
      else m)"
  by pat_completeness auto
termination
  by (relation "measure (\<lambda>(_, _, count, i, _). count - i)") auto

declare link_slabs.simps [simp del]

definition slab_init :: "nat \<Rightarrow> nat \<Rightarrow> mem \<Rightarrow> eternal_heap \<Rightarrow> (mem \<times> eternal_heap \<times> slab_allocator) res" where
  "slab_init slab_size n m e =
     bind_res (kmalloc_eternal n e) (\<lambda>(e, base).
       let count = n div slab_size;
           m = link_slabs slab_size base count 1 m;
           m = store32 m base 0
       in Inr (m, e, \<lparr>m_freelist = size_add base (size_mul (size_sub count 1) slab_size), m_num_allocated = 0,
                      m_slab_count = count, m_base = base, m_end = base + n\<rparr>))"

text \<open>
  Where a processor is in an operation: in \<^verbatim>\<open>alloc\<close> with the head loaded, with the link of that slab
  read, or with the slab taken; in \<^verbatim>\<open>dealloc\<close> with the padding scrubbed, with the head loaded, with the
  link stored, or with the slab pushed.
\<close>

datatype slab_pc =
    Running
  | Alloc_loaded nat | Alloc_read nat nat | Alloc_taken nat
  | Dealloc_scrubbed nat | Dealloc_loaded nat nat | Dealloc_linked nat nat | Dealloc_pushed

text \<open>The compare-and-exchange of \<^verbatim>\<open>alloc\<close>, and what follows the loop.\<close>

definition alloc_exchange :: "nat \<Rightarrow> nat \<Rightarrow> slab_allocator \<Rightarrow> slab_allocator \<times> slab_pc" where
  "alloc_exchange free_slab next_free s =
     (if m_freelist s = free_slab then (s\<lparr>m_freelist := next_free\<rparr>, Alloc_taken free_slab)
      else (s, Alloc_loaded (m_freelist s)))"

definition alloc_finish :: "nat \<Rightarrow> nat \<Rightarrow> mem \<Rightarrow> slab_allocator \<Rightarrow> mem \<times> slab_allocator" where
  "alloc_finish slab_size free_slab m s =
     (memset m free_slab 0xab slab_size, s\<lparr>m_num_allocated := m_num_allocated s + 1\<rparr>)"

text \<open>
  What precedes the loop of \<^verbatim>\<open>dealloc\<close>, and its compare-and-exchange.  A pointer outside the slabs is
  left to \<^verbatim>\<open>kfree\<close>: the result is then \<open>None\<close>.
\<close>

definition dealloc_scrub :: "nat \<Rightarrow> nat \<Rightarrow> mem \<Rightarrow> mem" where
  "dealloc_scrub slab_size ptr m =
     (if 4 < slab_size then memset m (ptr + 4) 0xbc (slab_size - 4) else m)"

definition dealloc_begin :: "nat \<Rightarrow> nat \<Rightarrow> mem \<Rightarrow> slab_allocator \<Rightarrow> (mem \<times> slab_pc) option res" where
  "dealloc_begin slab_size ptr m s =
     verify (ptr \<noteq> 0)
       (Inr (if ptr < m_base s \<or> m_end s \<le> ptr then None
             else Some (dealloc_scrub slab_size ptr m, Dealloc_scrubbed ptr)))"

definition dealloc_exchange :: "nat \<Rightarrow> nat \<Rightarrow> slab_allocator \<Rightarrow> slab_allocator \<times> slab_pc" where
  "dealloc_exchange free_slab next_free s =
     (if m_freelist s = next_free then (s\<lparr>m_freelist := free_slab\<rparr>, Dealloc_pushed)
      else (s, Dealloc_loaded free_slab (m_freelist s)))"

definition num_free :: "slab_allocator \<Rightarrow> int" where
  "num_free s = int (m_slab_count s) - m_num_allocated s"

text \<open>The allocator for a request, by the size of its slabs.\<close>

definition slab_class :: "nat \<Rightarrow> nat res" where
  "slab_class n =
     (if n \<le> 16 then Inr 16 else if n \<le> 32 then Inr 32 else if n \<le> 64 then Inr 64
      else if n \<le> 128 then Inr 128 else Inl Not_reached)"

definition slab_alloc_init ::
  "mem \<Rightarrow> eternal_heap \<Rightarrow> (mem \<times> eternal_heap \<times> slab_allocator \<times> slab_allocator \<times> slab_allocator \<times> slab_allocator) res" where
  "slab_alloc_init m e =
     bind_res (slab_init 16 (128 * 1024) m e) (\<lambda>(m, e, s16).
       bind_res (slab_init 32 (128 * 1024) m e) (\<lambda>(m, e, s32).
         bind_res (slab_init 64 (512 * 1024) m e) (\<lambda>(m, e, s64).
           bind_res (slab_init 128 (512 * 1024) m e) (\<lambda>(m, e, s128). Inr (m, e, s16, s32, s64, s128)))))"

section \<open>Processors\<close>

text \<open>
  The state of memory, the allocator and the processors, and the slabs that callers own.  The
  processors in \<open>A\<close> are those that call \<^verbatim>\<open>alloc\<close>.  A caller releases only slabs it owns, and writes only
  to these; an \<^verbatim>\<open>alloc\<close> on an empty list falls back to \<^verbatim>\<open>kmalloc\<close>.
\<close>

record slab_system =
  the_mem :: mem
  the_slabs :: slab_allocator
  cpus :: "nat \<Rightarrow> slab_pc"
  owned :: "nat set"

definition goes :: "nat \<Rightarrow> slab_pc \<Rightarrow> slab_system \<Rightarrow> slab_system" where
  "goes c p y = y\<lparr>cpus := (cpus y)(c := p)\<rparr>"

inductive slab_step :: "nat \<Rightarrow> nat set \<Rightarrow> slab_system \<Rightarrow> slab_system \<Rightarrow> bool" for slab_size A where
  alloc_load: "c \<in> A \<Longrightarrow> cpus y c = Running \<Longrightarrow>
    slab_step slab_size A y (goes c (Alloc_loaded (m_freelist (the_slabs y))) y)"
| alloc_empty: "cpus y c = Alloc_loaded 0 \<Longrightarrow> slab_step slab_size A y (goes c Running y)"
| alloc_read: "cpus y c = Alloc_loaded a \<Longrightarrow> a \<noteq> 0 \<Longrightarrow>
    slab_step slab_size A y (goes c (Alloc_read a (unat (load32 (the_mem y) a))) y)"
| alloc_cas: "cpus y c = Alloc_read a n \<Longrightarrow> alloc_exchange a n (the_slabs y) = (s, p) \<Longrightarrow>
    slab_step slab_size A y (goes c p (y\<lparr>the_slabs := s\<rparr>))"
| alloc_done: "cpus y c = Alloc_taken a \<Longrightarrow> alloc_finish slab_size a (the_mem y) (the_slabs y) = (m, s) \<Longrightarrow>
    slab_step slab_size A y (goes c Running (y\<lparr>the_mem := m, the_slabs := s, owned := insert a (owned y)\<rparr>))"
| dealloc_call: "cpus y c = Running \<Longrightarrow> a \<in> owned y \<Longrightarrow>
    dealloc_begin slab_size a (the_mem y) (the_slabs y) = Inr (Some (m, p)) \<Longrightarrow>
    slab_step slab_size A y (goes c p (y\<lparr>the_mem := m, owned := owned y - {a}\<rparr>))"
| dealloc_load: "cpus y c = Dealloc_scrubbed a \<Longrightarrow>
    slab_step slab_size A y (goes c (Dealloc_loaded a (m_freelist (the_slabs y))) y)"
| dealloc_link: "cpus y c = Dealloc_loaded a n \<Longrightarrow>
    slab_step slab_size A y (goes c (Dealloc_linked a n) (y\<lparr>the_mem := store32 (the_mem y) a (of_nat n)\<rparr>))"
| dealloc_cas: "cpus y c = Dealloc_linked a n \<Longrightarrow> dealloc_exchange a n (the_slabs y) = (s, p) \<Longrightarrow>
    slab_step slab_size A y (goes c p (y\<lparr>the_slabs := s\<rparr>))"
| dealloc_done: "cpus y c = Dealloc_pushed \<Longrightarrow>
    slab_step slab_size A y (goes c Running
      (y\<lparr>the_slabs := (the_slabs y)\<lparr>m_num_allocated := m_num_allocated (the_slabs y) - 1\<rparr>\<rparr>))"
| client: "a \<in> owned y \<Longrightarrow> a \<le> x \<Longrightarrow> x < a + slab_size \<Longrightarrow>
    slab_step slab_size A y (y\<lparr>the_mem := (the_mem y)(x := b)\<rparr>)"

inductive slab_reachable :: "nat \<Rightarrow> nat set \<Rightarrow> slab_system \<Rightarrow> bool" for slab_size A where
  slab_start: "4 \<le> slab_size \<Longrightarrow> slab_size \<le> n \<Longrightarrow> 0 < s_next_eternal_ptr e \<Longrightarrow> s_next_eternal_ptr e + n < 2 ^ 32 \<Longrightarrow>
    slab_init slab_size n m e = Inr (m', e', s) \<Longrightarrow>
    slab_reachable slab_size A \<lparr>the_mem = m', the_slabs = s, cpus = \<lambda>_. Running, owned = {}\<rparr>"
| slab_next: "slab_reachable slab_size A y \<Longrightarrow> slab_step slab_size A y y' \<Longrightarrow> slab_reachable slab_size A y'"

section \<open>The free list in memory\<close>

fun chain :: "mem \<Rightarrow> nat \<Rightarrow> nat list \<Rightarrow> bool" where
  "chain m a [] \<longleftrightarrow> a = 0"
| "chain m a (x # xs) \<longleftrightarrow> a = x \<and> x \<noteq> 0 \<and> chain m (unat (load32 m x)) xs"

lemma chain_cong: "(\<And>x. x \<in> set xs \<Longrightarrow> load32 m' x = load32 m x) \<Longrightarrow> chain m' a xs = chain m a xs"
  by (induction xs arbitrary: a) simp_all

lemma chain_head: "chain m a xs \<Longrightarrow> a = 0 \<or> a \<in> set xs"
  by (cases xs) auto

lemma chain_0: "chain m 0 xs \<longleftrightarrow> xs = []"
  by (cases xs) auto

definition slab_set :: "nat \<Rightarrow> slab_allocator \<Rightarrow> nat set" where
  "slab_set slab_size s = (\<lambda>i. m_base s + i * slab_size) ` {..<m_slab_count s}"

definition slab_shape :: "nat \<Rightarrow> slab_allocator \<Rightarrow> bool" where
  "slab_shape slab_size s \<longleftrightarrow> 4 \<le> slab_size \<and> 0 < m_base s \<and> m_base s + m_slab_count s * slab_size < 2 ^ 32 \<and>
     m_base s + m_slab_count s * slab_size \<le> m_end s"

lemma finite_slab_set [simp]: "finite (slab_set slab_size s)"
  by (simp add: slab_set_def)

lemma card_slab_set: "slab_shape slab_size s \<Longrightarrow> card (slab_set slab_size s) = m_slab_count s"
  unfolding slab_set_def by (subst card_image) (auto simp: inj_on_def slab_shape_def)

lemma slab_bounds:
  assumes "slab_shape slab_size s" and "a \<in> slab_set slab_size s"
  shows "0 < a" and "a < 2 ^ 32" and "m_base s \<le> a" and "a < m_end s"
proof -
  obtain i where "a = m_base s + i * slab_size" "i < m_slab_count s" using assms(2) by (auto simp: slab_set_def)
  moreover have "i * slab_size < m_slab_count s * slab_size" using calculation(2) assms(1) by (simp add: slab_shape_def)
  ultimately show "0 < a" "a < 2 ^ 32" "m_base s \<le> a" "a < m_end s" using assms(1) unfolding slab_shape_def by linarith+
qed

lemma slabs_apart:
  assumes "a \<in> slab_set slab_size s" and "b \<in> slab_set slab_size s" and "a \<noteq> b"
  shows "a + slab_size \<le> b \<or> b + slab_size \<le> a"
proof -
  obtain i j where ij: "a = m_base s + i * slab_size" "b = m_base s + j * slab_size" using assms by (auto simp: slab_set_def)
  then have "i + 1 \<le> j \<or> j + 1 \<le> i" using assms(3) by (cases i j rule: linorder_cases) auto
  then have "(i + 1) * slab_size \<le> j * slab_size \<or> (j + 1) * slab_size \<le> i * slab_size" using mult_le_mono1 by blast
  then show ?thesis using ij by auto
qed

lemma other_slab_link:
  assumes "slab_shape slab_size s" and "a \<in> slab_set slab_size s" and "b \<in> slab_set slab_size s" and "a \<noteq> b"
    and "\<And>x. x < a \<or> a + slab_size \<le> x \<Longrightarrow> m' x = m x"
  shows "load32 m' b = load32 m b"
proof (rule load32_cong, rule assms(5))
  fix x assume "b \<le> x" "x < b + 4"
  then show "x < a \<or> a + slab_size \<le> x" using slabs_apart [OF assms(2-4)] assms(1) by (auto simp: slab_shape_def)
qed

section \<open>The invariant\<close>

text \<open>The slab a processor holds between the list and its caller, and whether it is still counted.\<close>

fun held :: "slab_pc \<Rightarrow> nat set" where
  "held (Alloc_taken a) = {a}"
| "held (Dealloc_scrubbed a) = {a}"
| "held (Dealloc_loaded a _) = {a}"
| "held (Dealloc_linked a _) = {a}"
| "held _ = {}"

fun counted :: "slab_pc \<Rightarrow> bool" where
  "counted (Dealloc_scrubbed _) = True"
| "counted (Dealloc_loaded _ _) = True"
| "counted (Dealloc_linked _ _) = True"
| "counted Dealloc_pushed = True"
| "counted _ = False"

fun searching :: "slab_pc \<Rightarrow> bool" where
  "searching (Alloc_loaded _) = True"
| "searching (Alloc_read _ _) = True"
| "searching _ = False"

fun cpu_ok :: "mem \<Rightarrow> nat list \<Rightarrow> slab_pc \<Rightarrow> bool" where
  "cpu_ok m xs (Alloc_loaded a) = (a = 0 \<or> a \<in> set xs)"
| "cpu_ok m xs (Alloc_read a n) = (a \<in> set xs \<and> n = unat (load32 m a))"
| "cpu_ok m xs (Dealloc_loaded a n) = (n < 2 ^ 32)"
| "cpu_ok m xs (Dealloc_linked a n) = (n < 2 ^ 32 \<and> n = unat (load32 m a))"
| "cpu_ok m xs _ = True"

text \<open>Where the slabs are: each once on the list, with a caller, or held by one processor.\<close>

definition placed :: "nat set \<Rightarrow> nat list \<Rightarrow> nat set \<Rightarrow> (nat \<Rightarrow> nat set) \<Rightarrow> bool" where
  "placed S xs O' H \<longleftrightarrow> distinct xs \<and> set xs \<union> O' \<union> (\<Union>c. H c) = S \<and> set xs \<inter> O' = {} \<and>
     (\<forall>c. H c \<inter> (set xs \<union> O') = {}) \<and> (\<forall>c d. c \<noteq> d \<longrightarrow> H c \<inter> H d = {})"

lemma placed_held:
  assumes "placed S xs O' H" and "a \<in> H c"
  shows "a \<in> S" and "a \<notin> set xs" and "a \<notin> O'" and "d \<noteq> c \<Longrightarrow> a \<notin> H d"
  using assms unfolding placed_def by blast+

lemma placed_lost:
  assumes "placed S xs O' H" and "H c = {a}"
  shows "(\<Union>d. H d) = insert a (\<Union>d. (H(c := {})) d)"
  using assms(2) by (auto split: if_splits)

lemma placed_take:
  assumes "placed S (a # xs) O' H" and "H c = {}"
  shows "placed S xs O' (H(c := {a}))"
proof -
  have "(\<Union>d. (H(c := {a})) d) = insert a (\<Union>d. H d)" using assms(2) by (auto split: if_splits)
  then show ?thesis using assms unfolding placed_def by simp
qed

lemma placed_push:
  assumes "placed S xs O' H" and "H c = {a}"
  shows "placed S (a # xs) O' (H(c := {}))"
proof -
  have "a \<in> H c" using assms(2) by simp
  note a = placed_held [OF assms(1) this]
  show ?thesis using assms(1) a placed_lost [OF assms] unfolding placed_def by simp
qed

lemma placed_own:
  assumes "placed S xs O' H" and "H c = {a}"
  shows "placed S xs (insert a O') (H(c := {}))"
proof -
  have "a \<in> H c" using assms(2) by simp
  note a = placed_held [OF assms(1) this]
  show ?thesis using assms(1) a placed_lost [OF assms] unfolding placed_def by simp
qed

lemma placed_disown:
  assumes "placed S xs O' H" and "a \<in> O'" and "H c = {}"
  shows "placed S xs (O' - {a}) (H(c := {a}))"
proof -
  have "(\<Union>d. (H(c := {a})) d) = insert a (\<Union>d. H d)" using assms(3) by (auto split: if_splits)
  moreover obtain P where "O' = insert a P" "a \<notin> P" using assms(2) by (meson mk_disjoint_insert)
  ultimately show ?thesis using assms(1) unfolding placed_def by simp
qed

definition slab_inv :: "nat \<Rightarrow> nat set \<Rightarrow> nat list \<Rightarrow> slab_system \<Rightarrow> bool" where
  "slab_inv slab_size A xs y \<longleftrightarrow>
     slab_shape slab_size (the_slabs y) \<and> chain (the_mem y) (m_freelist (the_slabs y)) xs \<and>
     placed (slab_set slab_size (the_slabs y)) xs (owned y) (held \<circ> cpus y) \<and>
     (\<forall>c. cpu_ok (the_mem y) xs (cpus y c)) \<and> (\<forall>c. searching (cpus y c) \<longrightarrow> c \<in> A) \<and>
     finite {c. cpus y c \<noteq> Running} \<and>
     m_num_allocated (the_slabs y) = int (card (owned y) + card {c. counted (cpus y c)})"

lemma slab_invD:
  assumes "slab_inv slab_size A xs y"
  shows "slab_shape slab_size (the_slabs y)" and "chain (the_mem y) (m_freelist (the_slabs y)) xs" and "distinct xs"
    and "set xs \<union> owned y \<union> (\<Union>c. held (cpus y c)) = slab_set slab_size (the_slabs y)" and "set xs \<inter> owned y = {}"
    and "held (cpus y c) \<inter> (set xs \<union> owned y) = {}"
    and "c \<noteq> d \<Longrightarrow> held (cpus y c) \<inter> held (cpus y d) = {}"
    and "cpu_ok (the_mem y) xs (cpus y c)" and "searching (cpus y c) \<Longrightarrow> c \<in> A"
    and "finite {c. cpus y c \<noteq> Running}"
    and "m_num_allocated (the_slabs y) = int (card (owned y) + card {c. counted (cpus y c)})"
  using assms unfolding slab_inv_def placed_def comp_def by blast+

lemma card_counted:
  assumes "finite {c. f c \<noteq> Running}"
  shows "card {d. counted ((f(c := p)) d)} + (if counted (f c) then 1 else 0) =
    card {d. counted (f d)} + (if counted p then 1 else 0)"
proof -
  have fin: "finite {d. counted (f d)}" using assms by (rule rev_finite_subset) auto
  have eq: "{d. counted ((f(c := p)) d)} = (if counted p then insert c else id) ({d. counted (f d)} - {c})" by auto
  show ?thesis
  proof (cases "counted (f c)")
    case True
    then have "card ({d. counted (f d)} - {c}) + 1 = card {d. counted (f d)}" using fin card.remove [of _ c] by simp
    with True fin show ?thesis unfolding eq by (simp add: insert_absorb)
  next
    case False
    then have "{d. counted (f d)} - {c} = {d. counted (f d)}" by auto
    with False fin show ?thesis unfolding eq by simp
  qed
qed

lemma finite_cpus: "finite {c. f c \<noteq> Running} \<Longrightarrow> finite {d. (f(c := p)) d \<noteq> Running}"
  by (rule finite_subset [of _ "insert c {c. f c \<noteq> Running}"]) auto

section \<open>The steps keep the invariant\<close>

text \<open>A write into a slab that is off the list, and whose link no processor relies on, is harmless.\<close>

lemma slab_inv_write:
  assumes inv: "slab_inv slab_size A xs y" and a: "a \<in> slab_set slab_size (the_slabs y)" "a \<notin> set xs"
    and off: "\<And>c n. cpus y c \<noteq> Dealloc_linked a n"
    and same: "\<And>x. x < a \<or> a + slab_size \<le> x \<Longrightarrow> m' x = the_mem y x"
  shows "slab_inv slab_size A xs (y\<lparr>the_mem := m'\<rparr>)"
proof -
  have link: "load32 m' b = load32 (the_mem y) b" if "b \<in> slab_set slab_size (the_slabs y)" "b \<noteq> a" for b
    by (rule other_slab_link [OF slab_invD(1) [OF inv] a(1) that(1) that(2) [symmetric]]) (rule same)
  have free: "load32 m' b = load32 (the_mem y) b" if "b \<in> set xs" for b
    using link [of b] that a(2) slab_invD(4) [OF inv] by blast
  have "cpu_ok m' xs (cpus y c)" for c
    using slab_invD(8) [OF inv, of c] free link off [of c] slab_invD(4) [OF inv]
    by (cases "cpus y c") (auto simp: set_eq_iff, metis UN_I UNIV_I held.simps(4) insertI1)
  then show ?thesis using inv chain_cong [OF free] by (simp add: slab_inv_def)
qed

text \<open>A step of one processor that moves no slab and leaves the counter alone.\<close>

lemma slab_inv_goes:
  assumes inv: "slab_inv slab_size A xs y" and "held p = held (cpus y c)" and "counted p = counted (cpus y c)"
    and "cpu_ok (the_mem y) xs p" and "searching p \<Longrightarrow> c \<in> A"
  shows "slab_inv slab_size A xs (goes c p y)"
proof -
  have "held \<circ> (cpus y)(c := p) = held \<circ> cpus y" using assms(2) by (simp add: fun_eq_iff)
  moreover have "counted (((cpus y)(c := p)) d) = counted (cpus y d)" for d using assms(3) by simp
  ultimately show ?thesis using assms finite_cpus [OF slab_invD(10) [OF inv], of c p]
    unfolding slab_inv_def goes_def by (simp del: fun_upd_apply) (simp add: assms)
qed

lemma held_off_list:
  assumes "slab_inv slab_size A xs y" and "a \<in> held (cpus y c)"
  shows "a \<in> slab_set slab_size (the_slabs y)" and "a \<notin> set xs" and "a \<notin> owned y"
  using slab_invD(4) [OF assms(1)] slab_invD(6) [OF assms(1), of c] assms(2) by blast+

lemma owned_off_list:
  assumes "slab_inv slab_size A xs y" and "a \<in> owned y"
  shows "a \<in> slab_set slab_size (the_slabs y)" and "a \<notin> set xs" and "cpus y c \<noteq> Dealloc_linked a n"
proof -
  show "a \<in> slab_set slab_size (the_slabs y)" "a \<notin> set xs"
    using slab_invD(4,5) [OF assms(1)] assms(2) by blast+
  show "cpus y c \<noteq> Dealloc_linked a n" using held_off_list(3) [OF assms(1), of a c] assms(2) by auto
qed

lemma head_less: "slab_inv slab_size A xs y \<Longrightarrow> m_freelist (the_slabs y) < 2 ^ 32"
  using chain_head [OF slab_invD(2)] slab_bounds(2) [OF slab_invD(1)] slab_invD(4)
  by (metis UnI1 zero_less_numeral zero_less_power)

lemma held_once:
  assumes "slab_inv slab_size A xs y" and "a \<in> held (cpus y c)" and "a \<in> held (cpus y d)"
  shows "d = c"
  using slab_invD(7) [OF assms(1), of c d] assms(2,3) by blast

text \<open>Moving one slab: off the list, to a caller, back from the caller, and onto the list.\<close>

lemma slab_inv_take:
  assumes inv: "slab_inv slab_size A (a # xs) y" and alone: "\<And>d. searching (cpus y d) \<Longrightarrow> d = c"
    and at: "cpus y c = Alloc_read a n"
  shows "slab_inv slab_size A xs (goes c (Alloc_taken a) (y\<lparr>the_slabs := (the_slabs y)\<lparr>m_freelist := n\<rparr>\<rparr>))"
proof -
  let ?f = "(cpus y)(c := Alloc_taken a)"
  have ok: "cpu_ok (the_mem y) xs (?f d)" for d
    using slab_invD(8) [OF inv, of d] alone [of d] by (cases "cpus y d") auto
  have n: "n = unat (load32 (the_mem y) a)" using slab_invD(8) [OF inv, of c] at by simp
  have cnt: "card {d. counted (?f d)} = card {d. counted (cpus y d)}"
    using card_counted [OF slab_invD(10) [OF inv], of c "Alloc_taken a"] at by simp
  have pl: "placed (slab_set slab_size (the_slabs y)) xs (owned y) (held \<circ> ?f)"
    using placed_take [of _ a xs "owned y" "held \<circ> cpus y" c] inv at by (simp add: slab_inv_def fun_upd_comp)
  show ?thesis
    using inv ok cnt pl n finite_cpus [OF slab_invD(10) [OF inv], of c "Alloc_taken a"]
    by (simp del: fun_upd_apply add: slab_inv_def goes_def slab_set_def slab_shape_def) simp
qed

lemma slab_inv_own:
  assumes inv: "slab_inv slab_size A xs y" and at: "cpus y c = Alloc_taken a"
  shows "slab_inv slab_size A xs (goes c Running (y\<lparr>the_slabs := (the_slabs y)\<lparr>m_num_allocated := m_num_allocated (the_slabs y) + 1\<rparr>,
    owned := insert a (owned y)\<rparr>))"
proof -
  let ?f = "(cpus y)(c := Running)"
  have cnt: "card {d. counted (?f d)} = card {d. counted (cpus y d)}"
    using card_counted [OF slab_invD(10) [OF inv], of c Running] at by simp
  have pl: "placed (slab_set slab_size (the_slabs y)) xs (insert a (owned y)) (held \<circ> ?f)"
    using placed_own [of _ xs "owned y" "held \<circ> cpus y" c a] inv at by (simp add: slab_inv_def fun_upd_comp)
  have "finite (owned y)" using slab_invD(4) [OF inv] finite_slab_set by (metis finite_Un)
  moreover have "a \<notin> owned y" using held_off_list [OF inv, of a c] at by simp
  ultimately have "card (insert a (owned y)) = card (owned y) + 1" by simp
  then show ?thesis
    using inv cnt pl finite_cpus [OF slab_invD(10) [OF inv], of c Running]
    by (simp del: fun_upd_apply add: slab_inv_def goes_def slab_set_def slab_shape_def) simp
qed

lemma slab_inv_disown:
  assumes inv: "slab_inv slab_size A xs y" and at: "cpus y c = Running" and a: "a \<in> owned y"
  shows "slab_inv slab_size A xs (goes c (Dealloc_scrubbed a) (y\<lparr>owned := owned y - {a}\<rparr>))"
proof -
  let ?f = "(cpus y)(c := Dealloc_scrubbed a)"
  have cnt: "card {d. counted (?f d)} = card {d. counted (cpus y d)} + 1"
    using card_counted [OF slab_invD(10) [OF inv], of c "Dealloc_scrubbed a"] at by simp
  have pl: "placed (slab_set slab_size (the_slabs y)) xs (owned y - {a}) (held \<circ> ?f)"
    using placed_disown [of _ xs "owned y" "held \<circ> cpus y" a c] inv at a by (simp add: slab_inv_def fun_upd_comp)
  have "finite (owned y)" using slab_invD(4) [OF inv] finite_slab_set by (metis finite_Un)
  then have "card (owned y) = card (owned y - {a}) + 1" using a card.remove by fastforce
  then show ?thesis
    using inv cnt pl finite_cpus [OF slab_invD(10) [OF inv], of c "Dealloc_scrubbed a"]
    by (simp del: fun_upd_apply add: slab_inv_def goes_def) simp
qed

lemma slab_inv_push:
  assumes inv: "slab_inv slab_size A xs y" and at: "cpus y c = Dealloc_linked a (m_freelist (the_slabs y))"
  shows "slab_inv slab_size A (a # xs) (goes c Dealloc_pushed (y\<lparr>the_slabs := (the_slabs y)\<lparr>m_freelist := a\<rparr>\<rparr>))"
proof -
  let ?f = "(cpus y)(c := Dealloc_pushed)"
  have ok: "cpu_ok (the_mem y) (a # xs) (?f d)" for d
    using slab_invD(8) [OF inv, of d] by (cases "cpus y d") auto
  have "a \<in> slab_set slab_size (the_slabs y)" using held_off_list [OF inv, of a c] at by simp
  then have "0 < a" using slab_bounds slab_invD(1) [OF inv] by blast
  then have ch: "chain (the_mem y) a (a # xs)" using slab_invD(2) [OF inv] slab_invD(8) [OF inv, of c] at by simp
  have cnt: "card {d. counted (?f d)} = card {d. counted (cpus y d)}"
    using card_counted [OF slab_invD(10) [OF inv], of c Dealloc_pushed] at by simp
  have pl: "placed (slab_set slab_size (the_slabs y)) (a # xs) (owned y) (held \<circ> ?f)"
    using placed_push [of _ xs "owned y" "held \<circ> cpus y" c a] inv at by (simp add: slab_inv_def fun_upd_comp)
  show ?thesis
    using inv ok cnt pl ch finite_cpus [OF slab_invD(10) [OF inv], of c Dealloc_pushed]
    by (simp del: fun_upd_apply add: slab_inv_def goes_def slab_set_def slab_shape_def) simp
qed

lemma slab_inv_uncount:
  assumes inv: "slab_inv slab_size A xs y" and at: "cpus y c = Dealloc_pushed"
  shows "slab_inv slab_size A xs (goes c Running
    (y\<lparr>the_slabs := (the_slabs y)\<lparr>m_num_allocated := m_num_allocated (the_slabs y) - 1\<rparr>\<rparr>))"
proof -
  let ?f = "(cpus y)(c := Running)"
  have cnt: "card {d. counted (?f d)} + 1 = card {d. counted (cpus y d)}"
    using card_counted [OF slab_invD(10) [OF inv], of c Running] at by simp
  have "held \<circ> ?f = held \<circ> cpus y" using at by (simp add: fun_eq_iff)
  then show ?thesis
    using inv cnt [symmetric] finite_cpus [OF slab_invD(10) [OF inv], of c Running]
    by (simp del: fun_upd_apply add: slab_inv_def goes_def slab_set_def slab_shape_def) simp
qed

lemma slab_inv_exchange:
  assumes inv: "slab_inv slab_size A xs y" and one: "\<And>c d. c \<in> A \<Longrightarrow> d \<in> A \<Longrightarrow> c = d"
    and at: "cpus y c = Alloc_read a n" and ex: "alloc_exchange a n (the_slabs y) = (s, p)"
  shows "\<exists>xs. slab_inv slab_size A xs (goes c p (y\<lparr>the_slabs := s\<rparr>))"
proof (cases "m_freelist (the_slabs y) = a")
  case True
  have "a \<in> set xs" using slab_invD(8) [OF inv, of c] at by simp
  then obtain zs where "xs = a # zs" using slab_invD(2) [OF inv] True by (cases xs) auto
  moreover have "d = c" if "searching (cpus y d)" for d using one slab_invD(9) [OF inv] that at by (metis searching.simps(2))
  ultimately have "slab_inv slab_size A zs (goes c (Alloc_taken a) (y\<lparr>the_slabs := (the_slabs y)\<lparr>m_freelist := n\<rparr>\<rparr>))"
    using slab_inv_take inv at by blast
  then show ?thesis using ex True by (auto simp: alloc_exchange_def)
next
  case False
  then have "slab_inv slab_size A xs (goes c p y)" and "s = the_slabs y"
    using slab_inv_goes [OF inv, of p c] at ex chain_head [OF slab_invD(2) [OF inv]] slab_invD(9) [OF inv, of c]
    by (auto simp: alloc_exchange_def)
  then show ?thesis by auto
qed

lemma slab_inv_free_exchange:
  assumes inv: "slab_inv slab_size A xs y" and at: "cpus y c = Dealloc_linked a n"
    and ex: "dealloc_exchange a n (the_slabs y) = (s, p)"
  shows "\<exists>xs. slab_inv slab_size A xs (goes c p (y\<lparr>the_slabs := s\<rparr>))"
proof (cases "m_freelist (the_slabs y) = n")
  case True
  then show ?thesis using slab_inv_push [OF inv, of c a] at ex by (auto simp: dealloc_exchange_def)
next
  case False
  then have "slab_inv slab_size A xs (goes c p y)" and "s = the_slabs y"
    using slab_inv_goes [OF inv, of p c] at ex head_less [OF inv] by (auto simp: dealloc_exchange_def)
  then show ?thesis by auto
qed

lemma slab_inv_dealloc:
  assumes inv: "slab_inv slab_size A xs y" and at: "cpus y c = Running" and a: "a \<in> owned y"
    and call: "dealloc_begin slab_size a (the_mem y) (the_slabs y) = Inr (Some (m, p))"
  shows "slab_inv slab_size A xs (goes c p (y\<lparr>the_mem := m, owned := owned y - {a}\<rparr>))"
proof -
  have "slab_inv slab_size A xs (y\<lparr>the_mem := m\<rparr>)"
    using owned_off_list [OF inv a] call
    by (intro slab_inv_write [OF inv, of a])
      (auto simp: dealloc_begin_def dealloc_scrub_def memset_apply verify_def split: if_splits)
  from slab_inv_disown [OF this, of c a] at a call show ?thesis
    by (auto simp: dealloc_begin_def verify_def split: if_splits)
qed

lemma slab_inv_link:
  assumes inv: "slab_inv slab_size A xs y" and at: "cpus y c = Dealloc_loaded a n"
  shows "slab_inv slab_size A xs (goes c (Dealloc_linked a n) (y\<lparr>the_mem := store32 (the_mem y) a (of_nat n)\<rparr>))"
proof -
  have "slab_inv slab_size A xs (y\<lparr>the_mem := store32 (the_mem y) a (of_nat n)\<rparr>)"
  proof (rule slab_inv_write [OF inv, of a])
    show "a \<in> slab_set slab_size (the_slabs y)" "a \<notin> set xs" using held_off_list [OF inv, of a c] at by simp_all
    show "cpus y d \<noteq> Dealloc_linked a n'" for d n' using held_once [OF inv, of a c d] at by auto
    show "store32 (the_mem y) a (of_nat n) x = the_mem y x" if "x < a \<or> a + slab_size \<le> x" for x
      using that slab_invD(1) [OF inv] by (intro store32_other) (auto simp: slab_shape_def)
  qed
  then show ?thesis
    by (rule slab_inv_goes)
      (use at slab_invD(8) [OF inv, of c] in \<open>simp_all add: load_store32 unsigned_of_nat take_bit_nat_eq_self\<close>)
qed

lemma slab_inv_alloc:
  assumes inv: "slab_inv slab_size A xs y" and at: "cpus y c = Alloc_taken a"
    and fin: "alloc_finish slab_size a (the_mem y) (the_slabs y) = (m, s)"
  shows "slab_inv slab_size A xs (goes c Running (y\<lparr>the_mem := m, the_slabs := s, owned := insert a (owned y)\<rparr>))"
proof -
  have "slab_inv slab_size A xs (y\<lparr>the_mem := m\<rparr>)"
  proof (rule slab_inv_write [OF inv, of a])
    show "a \<in> slab_set slab_size (the_slabs y)" "a \<notin> set xs" using held_off_list [OF inv, of a c] at by simp_all
    show "cpus y d \<noteq> Dealloc_linked a n'" for d n' using held_once [OF inv, of a c d] at by auto
    show "m x = the_mem y x" if "x < a \<or> a + slab_size \<le> x" for x
      using that fin by (auto simp: alloc_finish_def memset_apply)
  qed
  from slab_inv_own [OF this, of c a] at fin show ?thesis by (auto simp: alloc_finish_def)
qed

lemma slab_step_inv:
  assumes "slab_step slab_size A y y'" and inv: "slab_inv slab_size A xs y" and one: "\<And>c d. c \<in> A \<Longrightarrow> d \<in> A \<Longrightarrow> c = d"
  shows "\<exists>xs. slab_inv slab_size A xs y'"
  using assms(1)
proof cases
  case (alloc_load c)
  then show ?thesis
    using slab_inv_goes [OF inv, of "Alloc_loaded (m_freelist (the_slabs y))" c] chain_head [OF slab_invD(2) [OF inv]] by auto
next
  case (alloc_empty c)
  then show ?thesis using slab_inv_goes [OF inv, of Running c] by auto
next
  case (alloc_read c a)
  then show ?thesis
    using slab_inv_goes [OF inv, of "Alloc_read a (unat (load32 (the_mem y) a))" c] slab_invD(8,9) [OF inv, of c] by auto
next
  case (alloc_cas c a n s p)
  then show ?thesis using slab_inv_exchange [OF inv one] by blast
next
  case (alloc_done c a m s)
  then show ?thesis using slab_inv_alloc [OF inv] by blast
next
  case (dealloc_call c a m p)
  then show ?thesis using slab_inv_dealloc [OF inv] by blast
next
  case (dealloc_load c a)
  then show ?thesis
    using slab_inv_goes [OF inv, of "Dealloc_loaded a (m_freelist (the_slabs y))" c] head_less [OF inv] by auto
next
  case (dealloc_link c a n)
  then show ?thesis using slab_inv_link [OF inv] by blast
next
  case (dealloc_cas c a n s p)
  then show ?thesis using slab_inv_free_exchange [OF inv] by blast
next
  case (dealloc_done c)
  then show ?thesis using slab_inv_uncount [OF inv] by blast
next
  case (client a x b)
  have "slab_inv slab_size A xs (y\<lparr>the_mem := (the_mem y)(x := b)\<rparr>)"
    using owned_off_list [OF inv client(2)] client by (intro slab_inv_write [OF inv, of a]) auto
  with client show ?thesis by blast
qed

section \<open>Initialisation\<close>

lemma link_slabs_other:
  "4 \<le> slab_size \<Longrightarrow> j < i \<Longrightarrow>
    load32 (link_slabs slab_size base count i m) (base + j * slab_size) = load32 m (base + j * slab_size)"
proof (induction slab_size base count i m rule: link_slabs.induct)
  case (1 slab_size base count i m)
  have "j * slab_size + slab_size \<le> i * slab_size" using 1(3) mult_le_mono1 [of "j + 1" i slab_size] by simp
  then have "load32 (store32 m (base + i * slab_size) w) (base + j * slab_size) = load32 m (base + j * slab_size)" for w
    using 1(2) by (intro load32_cong store32_other) simp
  with 1 show ?case by (subst link_slabs.simps) simp
qed

lemma link_slabs_link:
  "4 \<le> slab_size \<Longrightarrow> i \<le> j \<Longrightarrow> j < count \<Longrightarrow>
    load32 (link_slabs slab_size base count i m) (base + j * slab_size) = of_nat (base + (j - 1) * slab_size)"
proof (induction slab_size base count i m rule: link_slabs.induct)
  case (1 slab_size base count i m)
  show ?case
  proof (cases "j = i")
    case True
    with 1(2,4) show ?thesis
      by (subst link_slabs.simps) (simp add: link_slabs_other load_store32 del: of_nat_add of_nat_mult)
  next
    case False
    with 1 show ?thesis by (subst link_slabs.simps) simp
  qed
qed

lemma chain_linked:
  assumes "0 < base" and "j * slab_size + base < 2 ^ 32" and "load32 m base = 0"
    and "\<And>i. 0 < i \<Longrightarrow> i \<le> j \<Longrightarrow> load32 m (base + i * slab_size) = of_nat (base + (i - 1) * slab_size)"
  shows "chain m (base + j * slab_size) (map (\<lambda>i. base + i * slab_size) (rev [0..<Suc j]))"
  using assms(2,4)
proof (induction j)
  case 0
  then show ?case using assms by simp
next
  case (Suc j)
  have "unat (load32 m (base + Suc j * slab_size)) = base + j * slab_size"
    using Suc.prems(1) Suc.prems(2) [of "Suc j"] by (simp add: unsigned_of_nat take_bit_nat_eq_self del: of_nat_add of_nat_mult)
  with Suc assms(1) show ?case by simp
qed

lemma slab_init_inv:
  assumes "4 \<le> slab_size" and "slab_size \<le> n" and "0 < s_next_eternal_ptr e" and "s_next_eternal_ptr e + n < 2 ^ 32"
    and "slab_init slab_size n m e = Inr (m', e', s)"
  shows "\<exists>xs. slab_inv slab_size A xs \<lparr>the_mem = m', the_slabs = s, cpus = \<lambda>_. Running, owned = {}\<rparr>"
proof -
  let ?b = "s_next_eternal_ptr e" and ?k = "n div slab_size"
  let ?xs = "map (\<lambda>i. ?b + i * slab_size) (rev [0..<Suc (?k - 1)])"
  have k: "0 < ?k" using assms(1,2) by (simp add: div_greater_zero_iff)
  have top: "?k * slab_size \<le> n" by simp
  have "?b + ?k * slab_size < 2 ^ 32" using top assms(4) by linarith
  have "(?k - 1) * slab_size \<le> n" using top by (meson diff_le_self le_trans mult_le_mono1)
  moreover have "?k \<le> n" by simp
  then have "?k < 2 ^ 32" using assms(4) by linarith
  then have "size_sub ?k 1 = ?k - 1" using k by (intro size_sub_id) simp_all
  ultimately have head: "size_add ?b (size_mul (size_sub ?k 1) slab_size) = ?b + (?k - 1) * slab_size"
    using assms(4) by (simp add: size_mul_id size_add_id)
  have m': "m' = store32 (link_slabs slab_size ?b ?k 1 m) ?b 0"
    and s: "s = \<lparr>m_freelist = ?b + (?k - 1) * slab_size, m_num_allocated = 0, m_slab_count = ?k, m_base = ?b, m_end = ?b + n\<rparr>"
    using assms(5) head by (auto simp: slab_init_def kmalloc_eternal_def verify_def Let_def split: if_splits)
  have "load32 m' (?b + i * slab_size) = of_nat (?b + (i - 1) * slab_size)" if "0 < i" "i \<le> ?k - 1" for i
  proof -
    have "slab_size \<le> i * slab_size" using that(1) by simp
    then have "load32 m' (?b + i * slab_size) = load32 (link_slabs slab_size ?b ?k 1 m) (?b + i * slab_size)"
      using assms(1) unfolding m' by (intro load32_cong store32_other) linarith
    then show ?thesis using link_slabs_link [of slab_size 1 i ?k ?b m] assms(1) that by simp
  qed
  then have ch: "chain m' (?b + (?k - 1) * slab_size) ?xs"
    using assms(3,4) \<open>(?k - 1) * slab_size \<le> n\<close> by (intro chain_linked) (simp_all add: m' load_store32)
  have "inj_on (\<lambda>i. ?b + i * slab_size) X" for X using assms(1) by (simp add: inj_on_def)
  then have "placed (slab_set slab_size s) ?xs {} (held \<circ> (\<lambda>_. Running))"
    using k by (auto simp: placed_def slab_set_def s distinct_map simp del: upt_Suc)
  then have "slab_inv slab_size A ?xs \<lparr>the_mem = m', the_slabs = s, cpus = \<lambda>_. Running, owned = {}\<rparr>"
    using ch assms \<open>?b + ?k * slab_size < 2 ^ 32\<close> by (simp add: slab_inv_def slab_shape_def s del: upt_Suc)
  then show ?thesis ..
qed

lemma slab_reachable_inv:
  assumes "slab_reachable slab_size A y" and "\<And>c d. c \<in> A \<Longrightarrow> d \<in> A \<Longrightarrow> c = d"
  shows "\<exists>xs. slab_inv slab_size A xs y"
  using assms(1)
proof induction
  case (slab_start n e m m' e' s)
  then show ?case by (rule slab_init_inv)
next
  case (slab_next y y')
  then show ?case using slab_step_inv assms(2) by blast
qed

section \<open>Uninterrupted operations\<close>

lemma alloc_uninterrupted:
  assumes "slab_reachable slab_size A y" and "c \<in> A" and "cpus y c = Running" and "m_freelist (the_slabs y) = a" and "a \<noteq> 0"
  shows "slab_reachable slab_size A (y\<lparr>the_mem := memset (the_mem y) a 0xab slab_size,
    the_slabs := (the_slabs y)\<lparr>m_freelist := unat (load32 (the_mem y) a), m_num_allocated := m_num_allocated (the_slabs y) + 1\<rparr>,
    owned := insert a (owned y)\<rparr>)"
proof -
  let ?n = "unat (load32 (the_mem y) a)" and ?go = "\<lambda>p y. goes c p y"
  have "slab_reachable slab_size A (?go (Alloc_loaded a) y)"
    using slab_next [OF assms(1) alloc_load [OF assms(2,3)]] assms(4) by simp
  from slab_next [OF this alloc_read [of _ c a]] have "slab_reachable slab_size A (?go (Alloc_read a ?n) y)"
    using assms(5) by (simp add: goes_def)
  from slab_next [OF this alloc_cas [of _ c a ?n "(the_slabs y)\<lparr>m_freelist := ?n\<rparr>" "Alloc_taken a"]]
  have "slab_reachable slab_size A (?go (Alloc_taken a) (y\<lparr>the_slabs := (the_slabs y)\<lparr>m_freelist := ?n\<rparr>\<rparr>))"
    using assms(4) by (simp add: goes_def alloc_exchange_def)
  from slab_next [OF this alloc_done [of _ c a]] show ?thesis
    using assms(3) by (simp add: goes_def alloc_finish_def fun_upd_idem)
qed

lemma dealloc_uninterrupted:
  assumes "slab_reachable slab_size A y" and "cpus y c = Running" and "a \<in> owned y" and "m_freelist (the_slabs y) = n"
    and "0 < a" and "m_base (the_slabs y) \<le> a" and "a < m_end (the_slabs y)"
  shows "slab_reachable slab_size A (y\<lparr>the_mem := store32 (dealloc_scrub slab_size a (the_mem y)) a (of_nat n),
    the_slabs := (the_slabs y)\<lparr>m_freelist := a, m_num_allocated := m_num_allocated (the_slabs y) - 1\<rparr>,
    owned := owned y - {a}\<rparr>)"
proof -
  let ?m = "dealloc_scrub slab_size a (the_mem y)"
  let ?y = "y\<lparr>the_mem := ?m, owned := owned y - {a}\<rparr>" and ?m' = "store32 ?m a (of_nat n)"
  have "slab_reachable slab_size A (goes c (Dealloc_scrubbed a) ?y)"
    using assms by (intro slab_next [OF assms(1) dealloc_call]) (simp_all add: dealloc_begin_def)
  from slab_next [OF this dealloc_load [of _ c a]] have "slab_reachable slab_size A (goes c (Dealloc_loaded a n) ?y)"
    using assms(4) by (simp add: goes_def)
  from slab_next [OF this dealloc_link [of _ c a n]]
  have "slab_reachable slab_size A (goes c (Dealloc_linked a n) (?y\<lparr>the_mem := ?m'\<rparr>))" by (simp add: goes_def)
  from slab_next [OF this dealloc_cas [of _ c a n "(the_slabs y)\<lparr>m_freelist := a\<rparr>" Dealloc_pushed]]
  have "slab_reachable slab_size A (goes c Dealloc_pushed (?y\<lparr>the_mem := ?m', the_slabs := (the_slabs y)\<lparr>m_freelist := a\<rparr>\<rparr>))"
    using assms(4) by (simp add: goes_def dealloc_exchange_def)
  from slab_next [OF this dealloc_done [of _ c]] show ?thesis
    using assms(2) by (cases y) (simp add: goes_def fun_upd_idem)
qed

section \<open>Properties\<close>

text \<open>
  C12. With one allocating processor and any number of releasing ones, every interleaving keeps the free
  list sound: from the head, the links reach each free slab once and then the null pointer; no slab is on the
  list while a caller owns it or while an allocation is about to return it, and none is about to be
  returned that a caller owns; a slab its owner releases goes to this allocator and not to \<^verbatim>\<open>kfree\<close>.  When no
  operation is in progress, the slabs are exactly the free and the owned ones and the counters say so.
\<close>

theorem slab_single_allocator_safe:
  assumes "slab_reachable slab_size A y" and "\<And>c d. c \<in> A \<Longrightarrow> d \<in> A \<Longrightarrow> c = d"
  shows "\<exists>xs. chain (the_mem y) (m_freelist (the_slabs y)) xs \<and> distinct xs \<and>
    set xs \<inter> owned y = {} \<and> set xs \<union> owned y \<subseteq> slab_set slab_size (the_slabs y) \<and>
    (\<forall>c a. cpus y c = Alloc_taken a \<longrightarrow> a \<notin> owned y \<and> a \<notin> set xs) \<and>
    (\<forall>a \<in> owned y. dealloc_begin slab_size a (the_mem y) (the_slabs y) =
      Inr (Some (dealloc_scrub slab_size a (the_mem y), Dealloc_scrubbed a))) \<and>
    ((\<forall>c. cpus y c = Running) \<longrightarrow> set xs \<union> owned y = slab_set slab_size (the_slabs y) \<and>
      m_num_allocated (the_slabs y) = int (card (owned y)) \<and> num_free (the_slabs y) = int (length xs))"
proof -
  obtain xs where inv: "slab_inv slab_size A xs y" using slab_reachable_inv [OF assms] by blast
  have all: "set xs \<union> owned y \<subseteq> slab_set slab_size (the_slabs y)" using slab_invD(4) [OF inv] by blast
  have taken: "a \<notin> owned y \<and> a \<notin> set xs" if "cpus y c = Alloc_taken a" for c a
    using held_off_list [OF inv, of a c] that by simp
  have free: "dealloc_begin slab_size a (the_mem y) (the_slabs y) =
      Inr (Some (dealloc_scrub slab_size a (the_mem y), Dealloc_scrubbed a))" if "a \<in> owned y" for a
    using slab_bounds [OF slab_invD(1) [OF inv], of a] owned_off_list(1) [OF inv that] by (simp add: dealloc_begin_def)
  have quiet: "set xs \<union> owned y = slab_set slab_size (the_slabs y) \<and>
      m_num_allocated (the_slabs y) = int (card (owned y)) \<and> num_free (the_slabs y) = int (length xs)"
    if "\<forall>c. cpus y c = Running"
  proof -
    have eq: "set xs \<union> owned y = slab_set slab_size (the_slabs y)" using slab_invD(4) [OF inv] that by simp
    have "card (set xs) + card (owned y) = m_slab_count (the_slabs y)"
      using card_Un_disjoint [of "set xs" "owned y"] slab_invD(5) [OF inv] eq card_slab_set [OF slab_invD(1) [OF inv]]
      by (metis List.finite_set finite_Un finite_slab_set)
    then show ?thesis using eq slab_invD(11) [OF inv] that slab_invD(3) [OF inv]
      by (auto simp: num_free_def distinct_card)
  qed
  show ?thesis using slab_invD(2,3,5) [OF inv] all taken free quiet by (intro exI [of _ xs]) blast
qed

text \<open>Two slabs of 16 bytes, the head at 4112 and its link to 4096.\<close>

lemma two_slabs:
  obtains m s where "slab_reachable 16 A \<lparr>the_mem = m, the_slabs = s, cpus = \<lambda>_. Running, owned = {}\<rparr>"
    and "m_freelist s = 4112" and "m_base s = 4096" and "m_end s = 4128" and "load32 m 4112 = 4096" and "load32 m 4096 = 0"
proof -
  let ?e = "\<lparr>s_next_eternal_ptr = 4096, s_end_of_eternal_range = 8192, g_kmalloc_bytes_eternal = 0\<rparr>"
  let ?m = "store32 (store32 (\<lambda>_. 0) 4112 4096) 4096 0"
  have "link_slabs 16 4096 2 1 (\<lambda>_. 0) = store32 (\<lambda>_. 0) 4112 4096" by (simp add: link_slabs.simps)
  then obtain e' s where init: "slab_init 16 32 (\<lambda>_. 0) ?e = Inr (?m, e', s)"
    and s: "m_freelist s = 4112" "m_base s = 4096" "m_end s = 4128"
    by (simp add: slab_init_def kmalloc_eternal_def round_up_to_power_of_two_def size_add_def size_sub_def size_mul_def Let_def)
  have "slab_reachable 16 A \<lparr>the_mem = ?m, the_slabs = s, cpus = \<lambda>_. Running, owned = {}\<rparr>"
    by (rule slab_start [OF _ _ _ _ init]) simp_all
  moreover have "load32 ?m 4112 = load32 (store32 (\<lambda>_. 0) 4112 4096) 4112"
    by (intro load32_cong store32_other) simp
  ultimately show thesis using that [of ?m s] s by (simp add: load_store32)
qed

theorem slab_single_allocator_safe_witness:
  "\<exists>y. slab_reachable 16 {1} y \<and> owned y = {4112} \<and>
    (\<exists>xs. chain (the_mem y) (m_freelist (the_slabs y)) xs \<and> distinct xs \<and> set xs \<inter> owned y = {} \<and>
      num_free (the_slabs y) = int (length xs))"
proof -
  obtain m s where r: "slab_reachable 16 {1} \<lparr>the_mem = m, the_slabs = s, cpus = \<lambda>_. Running, owned = {}\<rparr>"
    and s: "m_freelist s = 4112" by (rule two_slabs)
  let ?y = "\<lparr>the_mem = memset m 4112 0xab 16,
    the_slabs = s\<lparr>m_freelist := unat (load32 m 4112), m_num_allocated := m_num_allocated s + 1\<rparr>,
    cpus = \<lambda>_. Running, owned = {4112}\<rparr>"
  have y: "slab_reachable 16 {1} ?y" using alloc_uninterrupted [OF r, of 1 4112] s by simp
  then show ?thesis
    using slab_single_allocator_safe [OF y] by (intro exI [of _ ?y]) auto
qed

text \<open>
  C13. With two allocating processors the list can be corrupted: while one is between reading the link
  of the head and its compare-and-exchange, the other can take the head and the slab below it and
  release the head again.  The exchange of the first then succeeds with a stale link, and the head of
  the free list is a slab that a caller owns.
\<close>

theorem slab_two_allocators_aba:
  "\<exists>y. slab_reachable 16 {1, 2} y \<and> m_freelist (the_slabs y) \<in> owned y"
proof -
  obtain m s where r: "slab_reachable 16 {1, 2} \<lparr>the_mem = m, the_slabs = s, cpus = \<lambda>_. Running, owned = {}\<rparr>"
    and s: "m_freelist s = 4112" "m_base s = 4096" "m_end s = 4128"
    and m: "load32 m 4112 = 4096" "load32 m 4096 = 0" by (rule two_slabs)
  let ?f = "(\<lambda>_. Running)(1 := Alloc_read 4112 4096)"
  from slab_next [OF r alloc_load [of 1]]
  have "slab_reachable 16 {1, 2} \<lparr>the_mem = m, the_slabs = s, cpus = (\<lambda>_. Running)(1 := Alloc_loaded 4112), owned = {}\<rparr>"
    by (simp add: goes_def s)
  from slab_next [OF this alloc_read [of _ 1 4112]]
  have "slab_reachable 16 {1, 2} \<lparr>the_mem = m, the_slabs = s, cpus = ?f, owned = {}\<rparr>" by (simp add: goes_def m)
  from alloc_uninterrupted [OF this, of 2 4112]
  have "slab_reachable 16 {1, 2} \<lparr>the_mem = memset m 4112 0xab 16,
    the_slabs = s\<lparr>m_freelist := 4096, m_num_allocated := m_num_allocated s + 1\<rparr>, cpus = ?f, owned = {4112}\<rparr>"
    by (simp add: s m)
  moreover have "load32 (memset m 4112 0xab 16) 4096 = 0"
    using m(2) load32_cong [of 4096 "memset m 4112 0xab 16" m] by (simp add: memset_apply)
  ultimately obtain m' k where "slab_reachable 16 {1, 2} \<lparr>the_mem = m',
    the_slabs = s\<lparr>m_freelist := 0, m_num_allocated := k\<rparr>, cpus = ?f, owned = {4096, 4112}\<rparr>"
    using alloc_uninterrupted [of 16 "{1, 2}" _ 2 4096] by fastforce
  moreover have "{4096, 4112 :: nat} - {4112} = {4096}" by auto
  ultimately obtain m' k where "slab_reachable 16 {1, 2} \<lparr>the_mem = m',
    the_slabs = s\<lparr>m_freelist := 4112, m_num_allocated := k\<rparr>, cpus = ?f, owned = {4096}\<rparr>"
    using dealloc_uninterrupted [of 16 "{1, 2}" "\<lparr>the_mem = m', the_slabs = s\<lparr>m_freelist := 0, m_num_allocated := k\<rparr>,
      cpus = ?f, owned = {4096, 4112}\<rparr>" 2 4112] s by auto
  from slab_next [OF this alloc_cas [of _ 1 4112 4096 "s\<lparr>m_freelist := 4096, m_num_allocated := k\<rparr>" "Alloc_taken 4112"]]
  show ?thesis by (fastforce simp: goes_def alloc_exchange_def)
qed

section \<open>The four allocators\<close>

text \<open>Every slab is on the free list.\<close>

definition all_free :: "nat \<Rightarrow> mem \<Rightarrow> slab_allocator \<Rightarrow> bool" where
  "all_free slab_size m s \<longleftrightarrow>
     (\<exists>xs. chain m (m_freelist s) xs \<and> distinct xs \<and> set xs = slab_set slab_size s) \<and>
     m_num_allocated s = 0 \<and> num_free s = int (m_slab_count s)"

lemma all_free_cong:
  assumes "all_free slab_size m s" and "slab_shape slab_size s"
    and "\<And>x. m_base s \<le> x \<Longrightarrow> x < m_end s \<Longrightarrow> m' x = m x"
  shows "all_free slab_size m' s"
proof -
  have "load32 m' a = load32 m a" if a: "a \<in> slab_set slab_size s" for a
  proof (rule load32_cong, rule assms(3))
    fix x assume x: "a \<le> x" "x < a + 4"
    obtain i where i: "a = m_base s + i * slab_size" "i < m_slab_count s" using a by (auto simp: slab_set_def)
    have "(i + 1) * slab_size \<le> m_slab_count s * slab_size" using i(2) by (intro mult_le_mono1) simp
    then show "m_base s \<le> x" "x < m_end s" using i(1) x assms(2) by (simp_all add: slab_shape_def)
  qed
  then show ?thesis using assms(1) chain_cong [of _ m' m] unfolding all_free_def by metis
qed

lemma link_slabs_outside:
  "4 \<le> slab_size \<Longrightarrow> x < base \<or> base + count * slab_size \<le> x \<Longrightarrow> link_slabs slab_size base count i m x = m x"
proof (induction slab_size base count i m rule: link_slabs.induct)
  case (1 slab_size base count i m)
  show ?case
  proof (cases "i < count")
    case True
    then have "i * slab_size + slab_size \<le> count * slab_size" using mult_le_mono1 [of "i + 1" count slab_size] by simp
    then have "store32 m (base + i * slab_size) w x = m x" for w using 1(2,3) by (intro store32_other) linarith
    with 1 True show ?thesis by (subst link_slabs.simps) simp
  next
    case False
    then show ?thesis by (subst link_slabs.simps) simp
  qed
qed

lemma round_up_multiple: "4 dvd n \<Longrightarrow> 0 < n \<Longrightarrow> n + 4 \<le> 2 ^ 32 \<Longrightarrow> round_up_to_power_of_two n 4 = n"
proof -
  assume n: "4 dvd n" "0 < n" "n + 4 \<le> 2 ^ 32"
  have "4 dvd round_up_to_power_of_two n 4" using round_up_aligned [of 2 4 n] by simp
  moreover have "n \<le> round_up_to_power_of_two n 4" "round_up_to_power_of_two n 4 < n + 4"
    using round_up_result [of n 4] n by simp_all
  ultimately show ?thesis using n(1) by (auto elim!: dvdE)
qed

lemma slab_init_returns:
  assumes "4 \<le> slab_size" and "slab_size \<le> n" and "4 dvd n" and "0 < s_next_eternal_ptr e"
    and "s_next_eternal_ptr e + n < s_end_of_eternal_range e" and "s_end_of_eternal_range e < 2 ^ 32"
  obtains m' e' s where "slab_init slab_size n m e = Inr (m', e', s)"
    and "s_next_eternal_ptr e' = s_next_eternal_ptr e + n" and "s_end_of_eternal_range e' = s_end_of_eternal_range e"
    and "m_base s = s_next_eternal_ptr e" and "m_end s = s_next_eternal_ptr e + n" and "m_slab_count s = n div slab_size"
    and "slab_shape slab_size s" and "all_free slab_size m' s"
    and "\<And>x. x < s_next_eternal_ptr e \<or> s_next_eternal_ptr e + n \<le> x \<Longrightarrow> m' x = m x"
proof -
  let ?b = "s_next_eternal_ptr e"
  have "round_up_to_power_of_two n 4 = n" using assms by (intro round_up_multiple) auto
  then have "kmalloc_eternal n e = Inr (e\<lparr>s_next_eternal_ptr := ?b + n,
      g_kmalloc_bytes_eternal := size_add (g_kmalloc_bytes_eternal e) n\<rparr>, ?b)"
    using assms by (simp add: kmalloc_eternal_def size_add_id [of ?b n])
  then obtain m' e' s where init: "slab_init slab_size n m e = Inr (m', e', s)"
    and m': "m' = store32 (link_slabs slab_size ?b (n div slab_size) 1 m) ?b 0"
    and e': "s_next_eternal_ptr e' = ?b + n" "s_end_of_eternal_range e' = s_end_of_eternal_range e"
    and s: "m_base s = ?b" "m_end s = ?b + n" "m_slab_count s = n div slab_size" "m_num_allocated s = 0"
    by (simp add: slab_init_def Let_def)
  obtain xs where inv: "slab_inv slab_size {} xs \<lparr>the_mem = m', the_slabs = s, cpus = \<lambda>_. Running, owned = {}\<rparr>"
    using slab_init_inv [OF assms(1,2,4) _ init] assms(5,6) by fastforce
  have "all_free slab_size m' s"
    using slab_invD(2,3,4) [OF inv] s by (auto simp: all_free_def num_free_def)
  moreover have "slab_shape slab_size s" using slab_invD(1) [OF inv] by simp
  moreover have "m' x = m x" if "x < ?b \<or> ?b + n \<le> x" for x
  proof -
    have "n div slab_size * slab_size \<le> n" by simp
    then have "link_slabs slab_size ?b (n div slab_size) 1 m x = m x"
      using that assms(1) by (intro link_slabs_outside) linarith+
    then show ?thesis using that assms(1,2) unfolding m' by (subst store32_other) auto
  qed
  ultimately show thesis using that init e' s by blast
qed

text \<open>
  C14. When the eternal range has room for them, initialisation returns and the four allocators cover
  consecutive, disjoint parts of it, each with all its slabs on its free list: the links that a later
  one writes leave the lists of the earlier ones alone.
\<close>

theorem slab_alloc_init_correct:
  assumes "0 < s_next_eternal_ptr e" and "s_next_eternal_ptr e + 0x140000 < s_end_of_eternal_range e"
    and "s_end_of_eternal_range e < 2 ^ 32"
  shows "\<exists>m' e' s16 s32 s64 s128. slab_alloc_init m e = Inr (m', e', s16, s32, s64, s128) \<and>
    m_base s16 = s_next_eternal_ptr e \<and> m_end s16 = m_base s16 + 0x20000 \<and> m_slab_count s16 = 8192 \<and> all_free 16 m' s16 \<and>
    m_base s32 = m_end s16 \<and> m_end s32 = m_base s32 + 0x20000 \<and> m_slab_count s32 = 4096 \<and> all_free 32 m' s32 \<and>
    m_base s64 = m_end s32 \<and> m_end s64 = m_base s64 + 0x80000 \<and> m_slab_count s64 = 8192 \<and> all_free 64 m' s64 \<and>
    m_base s128 = m_end s64 \<and> m_end s128 = m_base s128 + 0x80000 \<and> m_slab_count s128 = 4096 \<and> all_free 128 m' s128 \<and>
    s_next_eternal_ptr e' = m_end s128 \<and> (\<forall>x. x < m_base s16 \<or> m_end s128 \<le> x \<longrightarrow> m' x = m x)"
proof -
  obtain m1 e1 s1 where 1: "slab_init 16 131072 m e = Inr (m1, e1, s1)"
    and e1: "s_next_eternal_ptr e1 = s_next_eternal_ptr e + 131072" "s_end_of_eternal_range e1 = s_end_of_eternal_range e"
    and s1: "m_base s1 = s_next_eternal_ptr e" "m_end s1 = s_next_eternal_ptr e + 131072" "m_slab_count s1 = 131072 div 16"
    and f1: "slab_shape 16 s1" "all_free 16 m1 s1"
    and m1: "\<And>x. x < s_next_eternal_ptr e \<or> s_next_eternal_ptr e + 131072 \<le> x \<Longrightarrow> m1 x = m x"
    by (rule slab_init_returns [of 16 131072 e m]) (use assms in simp_all)
  obtain m2 e2 s2 where 2: "slab_init 32 131072 m1 e1 = Inr (m2, e2, s2)"
    and e2: "s_next_eternal_ptr e2 = s_next_eternal_ptr e1 + 131072" "s_end_of_eternal_range e2 = s_end_of_eternal_range e1"
    and s2: "m_base s2 = s_next_eternal_ptr e1" "m_end s2 = s_next_eternal_ptr e1 + 131072" "m_slab_count s2 = 131072 div 32"
    and f2: "slab_shape 32 s2" "all_free 32 m2 s2"
    and m2: "\<And>x. x < s_next_eternal_ptr e1 \<or> s_next_eternal_ptr e1 + 131072 \<le> x \<Longrightarrow> m2 x = m1 x"
    by (rule slab_init_returns [of 32 131072 e1 m1]) (use assms e1 in simp_all)
  obtain m3 e3 s3 where 3: "slab_init 64 524288 m2 e2 = Inr (m3, e3, s3)"
    and e3: "s_next_eternal_ptr e3 = s_next_eternal_ptr e2 + 524288" "s_end_of_eternal_range e3 = s_end_of_eternal_range e2"
    and s3: "m_base s3 = s_next_eternal_ptr e2" "m_end s3 = s_next_eternal_ptr e2 + 524288" "m_slab_count s3 = 524288 div 64"
    and f3: "slab_shape 64 s3" "all_free 64 m3 s3"
    and m3: "\<And>x. x < s_next_eternal_ptr e2 \<or> s_next_eternal_ptr e2 + 524288 \<le> x \<Longrightarrow> m3 x = m2 x"
    by (rule slab_init_returns [of 64 524288 e2 m2]) (use assms e1 e2 in simp_all)
  obtain m4 e4 s4 where 4: "slab_init 128 524288 m3 e3 = Inr (m4, e4, s4)"
    and e4: "s_next_eternal_ptr e4 = s_next_eternal_ptr e3 + 524288"
    and s4: "m_base s4 = s_next_eternal_ptr e3" "m_end s4 = s_next_eternal_ptr e3 + 524288" "m_slab_count s4 = 524288 div 128"
    and f4: "all_free 128 m4 s4"
    and m4: "\<And>x. x < s_next_eternal_ptr e3 \<or> s_next_eternal_ptr e3 + 524288 \<le> x \<Longrightarrow> m4 x = m3 x"
    by (rule slab_init_returns [of 128 524288 e3 m3]) (use assms e1 e2 e3 in simp_all)
  have a1: "all_free 16 m4 s1" by (rule all_free_cong [OF f1(2,1)]) (use e1 e2 e3 s1 in \<open>simp add: m2 m3 m4\<close>)
  have a2: "all_free 32 m4 s2" by (rule all_free_cong [OF f2(2,1)]) (use e1 e2 e3 s2 in \<open>simp add: m3 m4\<close>)
  have a3: "all_free 64 m4 s3" by (rule all_free_cong [OF f3(2,1)]) (use e3 s3 in \<open>simp add: m4\<close>)
  have init: "slab_alloc_init m e = Inr (m4, e4, s1, s2, s3, s4)" by (simp add: slab_alloc_init_def 1 2 3 4)
  have "m4 x = m x" if "x < m_base s1 \<or> m_end s4 \<le> x" for x
  proof -
    have "m4 x = m3 x" "m3 x = m2 x" "m2 x = m1 x" "m1 x = m x"
      by (rule m4 m3 m2 m1, use that s1 s4 e1 e2 e3 in linarith)+
    then show ?thesis by simp
  qed
  then have frame: "\<forall>x. x < m_base s1 \<or> m_end s4 \<le> x \<longrightarrow> m4 x = m x" by blast
  show ?thesis
    by (intro exI conjI, rule init) (rule a1 a2 a3 f4 frame | simp add: e1 e2 e3 e4 s1 s2 s3 s4)+
qed

theorem slab_alloc_init_correct_witness:
  "\<exists>m' e' s16 s32 s64 s128. slab_alloc_init (\<lambda>_. 0)
      \<lparr>s_next_eternal_ptr = 0xc0200000, s_end_of_eternal_range = 0xc0500000, g_kmalloc_bytes_eternal = 0\<rparr> =
        Inr (m', e', s16, s32, s64, s128) \<and> m_base s16 = 0xc0200000 \<and> all_free 16 m' s16 \<and> all_free 128 m' s128"
  using slab_alloc_init_correct [of "\<lparr>s_next_eternal_ptr = 0xc0200000, s_end_of_eternal_range = 0xc0500000,
    g_kmalloc_bytes_eternal = 0\<rparr>" "\<lambda>_. 0"] by auto

end
