(* ===== verification/Expandable_Heap.thy ===== *)
theory Expandable_Heap
  imports KHeap "HOL-Library.Multiset"
begin

text \<open>
  \<^verbatim>\<open>ExpandableHeap\<close> of \<^verbatim>\<open>Kernel/Heap/Heap.h\<close>: a main heap and a list of further heaps, each in a block of
  memory of its own, which a policy \<^verbatim>\<open>ExpandHeap\<close> adds when a request finds no room and takes back when a
  heap is empty.  The policy is a template argument of the class; here its two operations are
  arguments of the definitions and its contract is the locale \<open>heap_expansion\<close>.
\<close>

section \<open>Operations\<close>

text \<open>
  A \<^verbatim>\<open>SubHeap\<close> sits at the start of its block, at address \<open>sh_at\<close>, and its chunks follow it.  The pointers
  \<^verbatim>\<open>next\<close> that link the added heaps are the list \<open>added\<close>.
\<close>

record subheap =
  sh_heap :: heap
  memory_size :: nat
  sh_at :: nat

definition sizeof_SubHeap :: nat where
  "sizeof_SubHeap = 28"

record 'x expandable_heap =
  m_heaps :: subheap
  added :: "subheap list"
  m_expand :: 'x
  m_expanding :: bool

type_synonym 'x heap_state = "mem \<times> 'x expandable_heap"

definition all_subheaps :: "'x expandable_heap \<Rightarrow> subheap list" where
  "all_subheaps e = m_heaps e # added e"

definition with_subheaps :: "'x expandable_heap \<Rightarrow> subheap list \<Rightarrow> 'x expandable_heap" where
  "with_subheaps e shs = e\<lparr>m_heaps := hd shs, added := tl shs\<rparr>"

definition eh_construct :: "heap_config \<Rightarrow> nat \<Rightarrow> nat \<Rightarrow> nat \<Rightarrow> 'x \<Rightarrow> 'x expandable_heap res" where
  "eh_construct cfg this_at memory n expand =
     bind_res (heap_construct cfg memory n) (\<lambda>h.
       Inr \<lparr>m_heaps = \<lparr>sh_heap = h, memory_size = n, sh_at = this_at\<rparr>, added = [],
            m_expand = expand, m_expanding = False\<rparr>)"

definition eh_calculate_memory_for_bytes :: "heap_config \<Rightarrow> nat \<Rightarrow> nat" where
  "eh_calculate_memory_for_bytes cfg bytes = size_add sizeof_SubHeap (calculate_memory_for_bytes cfg bytes)"

definition expand_memory ::
  "(nat \<Rightarrow> 'x heap_state \<Rightarrow> ('x heap_state \<times> bool) res option) \<Rightarrow> nat \<Rightarrow> 'x heap_state \<Rightarrow>
    ('x heap_state \<times> bool) res option" where
  "expand_memory add_memory n = (\<lambda>(m, e).
     if m_expanding e then Some (Inr ((m, e), False))
     else bind_run (add_memory n (m, e\<lparr>m_expanding := True\<rparr>)) (\<lambda>((m, e), b).
            Some (Inr ((m, e\<lparr>m_expanding := False\<rparr>), b))))"

fun first_allocation :: "heap_config \<Rightarrow> nat \<Rightarrow> mem \<Rightarrow> subheap list \<Rightarrow> (mem \<times> subheap list \<times> nat) res option" where
  "first_allocation cfg n m [] = Some (Inr (m, [], 0))"
| "first_allocation cfg n m (sh # shs) =
     bind_run (heap_allocate cfg m (sh_heap sh) n) (\<lambda>(m, h, ptr).
       let sh = sh\<lparr>sh_heap := h\<rparr> in
       if ptr \<noteq> 0 then Some (Inr (m, sh # shs, ptr))
       else bind_run (first_allocation cfg n m shs) (\<lambda>(m, shs, ptr). Some (Inr (m, sh # shs, ptr))))"

function eh_allocate_loop ::
  "heap_config \<Rightarrow> (nat \<Rightarrow> 'x heap_state \<Rightarrow> ('x heap_state \<times> bool) res option) \<Rightarrow> nat \<Rightarrow> nat \<Rightarrow> 'x heap_state \<Rightarrow>
    ('x heap_state \<times> nat) res option" where
  "eh_allocate_loop cfg add_memory n attempt st =
     bind_run (first_allocation cfg n (fst st) (all_subheaps (snd st))) (\<lambda>(m, shs, ptr).
       let e = with_subheaps (snd st) shs in
       if ptr \<noteq> 0 then Some (Inr ((m, e), ptr))
       else if 2 \<le> attempt then Some (Inr ((m, e), 0))
       else bind_run (expand_memory add_memory n (m, e)) (\<lambda>(st, b).
              if b then eh_allocate_loop cfg add_memory n (attempt + 1) st else Some (Inr (st, 0))))"
  by pat_completeness auto
termination
  by (relation "measure (\<lambda>(_, _, _, attempt, _). 3 - attempt)") auto

declare eh_allocate_loop.simps [simp del]

definition eh_allocate where
  "eh_allocate cfg add_memory n st = eh_allocate_loop cfg add_memory n 0 st"

fun find_containing :: "heap_config \<Rightarrow> nat \<Rightarrow> subheap list \<Rightarrow> nat option" where
  "find_containing cfg ptr [] = None"
| "find_containing cfg ptr (sh # shs) =
     (if heap_contains cfg (sh_heap sh) ptr then Some 0 else map_option Suc (find_containing cfg ptr shs))"

definition eh_contains :: "heap_config \<Rightarrow> nat \<Rightarrow> 'x expandable_heap \<Rightarrow> bool" where
  "eh_contains cfg ptr e \<longleftrightarrow> find_containing cfg ptr (all_subheaps e) \<noteq> None"

fun link_subheap :: "subheap \<Rightarrow> subheap list \<Rightarrow> subheap list" where
  "link_subheap new [] = [new]"
| "link_subheap new (sh # shs) =
     (if m_chunks (sh_heap new) < m_chunks (sh_heap sh) then new # sh # shs else sh # link_subheap new shs)"

definition add_subheap :: "heap_config \<Rightarrow> nat \<Rightarrow> nat \<Rightarrow> 'x expandable_heap \<Rightarrow> 'x expandable_heap res" where
  "add_subheap cfg memory n e =
     verify (sizeof_SubHeap < n)
       (let n = n - sizeof_SubHeap in
        bind_res (heap_construct cfg (memory + sizeof_SubHeap) n) (\<lambda>h.
          Inr (e\<lparr>added := link_subheap \<lparr>sh_heap = h, memory_size = n, sh_at = memory\<rparr> (added e)\<rparr>)))"

fun unlink_subheap :: "nat \<Rightarrow> subheap list \<Rightarrow> subheap list" where
  "unlink_subheap a [] = []"
| "unlink_subheap a (sh # shs) = (if sh_at sh = a then shs else sh # unlink_subheap a shs)"

definition eh_deallocate ::
  "heap_config \<Rightarrow> (nat \<Rightarrow> 'x heap_state \<Rightarrow> ('x heap_state \<times> bool) res option) \<Rightarrow> nat \<Rightarrow> 'x heap_state \<Rightarrow>
    'x heap_state res option" where
  "eh_deallocate cfg remove_memory ptr = (\<lambda>(m, e).
     if ptr = 0 then Some (Inr (m, e))
     else
       (case find_containing cfg ptr (all_subheaps e) of
          None \<Rightarrow> Some (Inl Not_reached)
        | Some i \<Rightarrow>
            (let sh = all_subheaps e ! i in
             bind_run (Some (heap_deallocate cfg m (sh_heap sh) ptr)) (\<lambda>(m, h).
               let e = with_subheaps e ((all_subheaps e)[i := sh\<lparr>sh_heap := h\<rparr>]) in
               if m_allocated_chunks h = 0 \<and> i \<noteq> 0 \<and> \<not> m_expanding e
               then
                 (let e = e\<lparr>added := unlink_subheap (sh_at sh) (added e)\<rparr> in
                  bind_run (remove_memory (sh_at sh) (m, e)) (\<lambda>((m, e), b).
                    if b then Some (Inr (m, e))
                    else bind_run (Some (add_subheap cfg (sh_at sh) (memory_size sh) e)) (\<lambda>e. Some (Inr (m, e)))))
               else Some (Inr (m, e))))))"

text \<open>
  \<^verbatim>\<open>reallocate\<close> lets the heap of the block allocate in the whole list and release the block itself: the
  list may have changed in between, and the heap is found again by its address.
\<close>

definition release_in :: "heap_config \<Rightarrow> nat \<Rightarrow> nat \<Rightarrow> 'x heap_state \<Rightarrow> 'x heap_state res" where
  "release_in cfg sh_addr ptr = (\<lambda>(m, e).
     (case List.find (\<lambda>sh. sh_at sh = sh_addr) (all_subheaps e) of
        None \<Rightarrow> Inl Null_deref
      | Some sh \<Rightarrow> bind_res (heap_deallocate cfg m (sh_heap sh) ptr) (\<lambda>(m, h).
          Inr (m, with_subheaps e (map (\<lambda>s. if sh_at s = sh_addr then s\<lparr>sh_heap := h\<rparr> else s) (all_subheaps e))))))"

definition eh_reallocate ::
  "heap_config \<Rightarrow> (nat \<Rightarrow> 'x heap_state \<Rightarrow> ('x heap_state \<times> bool) res option) \<Rightarrow> nat \<Rightarrow> nat \<Rightarrow> 'x heap_state \<Rightarrow>
    ('x heap_state \<times> nat) res option" where
  "eh_reallocate cfg add_memory ptr new_size = (\<lambda>(m, e).
     if ptr = 0 then eh_allocate cfg add_memory new_size (m, e)
     else
       (case find_containing cfg ptr (all_subheaps e) of
          None \<Rightarrow> Some (Inl Not_reached)
        | Some i \<Rightarrow>
            (let sh = all_subheaps e ! i;
                 h = sh_heap sh;
                 a = size_sub ptr header_size;
                 old_size = size_mul (unat (load32 m a)) (CHUNK_SIZE cfg) in
             if \<not> (m_chunks h \<le> a \<and> ptr < heap_end cfg h \<and> size_add a old_size \<le> heap_end cfg h)
             then Some (Inl Verify_failed)
             else if old_size = new_size then Some (Inr ((m, e), ptr))
             else
               bind_run (eh_allocate cfg add_memory new_size (m, e)) (\<lambda>((m, e), new_ptr).
                 let m = (if new_ptr \<noteq> 0 then memcpy m new_ptr ptr (min old_size new_size) else m) in
                 bind_run (Some (release_in cfg (sh_at sh) ptr (m, e))) (\<lambda>st. Some (Inr (st, new_ptr)))))))"

definition eh_total_chunks :: "'x expandable_heap \<Rightarrow> nat" where
  "eh_total_chunks e = foldl size_add 0 (map (m_total_chunks \<circ> sh_heap) (all_subheaps e))"

definition eh_free_chunks :: "'x expandable_heap \<Rightarrow> nat" where
  "eh_free_chunks e = foldl size_add 0 (map (free_chunks \<circ> sh_heap) (all_subheaps e))"

definition eh_allocated_chunks :: "'x expandable_heap \<Rightarrow> nat" where
  "eh_allocated_chunks e = foldl size_add 0 (map (m_allocated_chunks \<circ> sh_heap) (all_subheaps e))"

text \<open>The destructor hands the added heaps to the policy, whatever it answers.\<close>

fun remove_all :: "(nat \<Rightarrow> 'x heap_state \<Rightarrow> ('x heap_state \<times> bool) res option) \<Rightarrow> subheap list \<Rightarrow> 'x heap_state \<Rightarrow>
    'x heap_state res option" where
  "remove_all remove_memory [] st = Some (Inr st)"
| "remove_all remove_memory (sh # shs) st =
     bind_run (remove_memory (sh_at sh) st) (\<lambda>(st, _). remove_all remove_memory shs st)"

definition eh_destruct :: "(nat \<Rightarrow> 'x heap_state \<Rightarrow> ('x heap_state \<times> bool) res option) \<Rightarrow> 'x heap_state \<Rightarrow> 'x heap_state res option" where
  "eh_destruct remove_memory st = remove_all remove_memory (added (snd st)) st"

text \<open>The policy \<^verbatim>\<open>DefaultExpandHeap\<close>, which never adds nor removes memory.\<close>

definition default_add_memory :: "nat \<Rightarrow> 'x heap_state \<Rightarrow> ('x heap_state \<times> bool) res option" where
  "default_add_memory n st = Some (Inr (st, False))"

definition default_remove_memory :: "nat \<Rightarrow> 'x heap_state \<Rightarrow> ('x heap_state \<times> bool) res option" where
  "default_remove_memory a st = Some (Inr (st, False))"

section \<open>The live blocks of all heaps\<close>

text \<open>
  One map for all heaps: from the address of a block (that of its header) to its number of chunks.
  Each heap sees the part of it that lies in its chunks.
\<close>

definition footprint :: "heap_config \<Rightarrow> heap \<Rightarrow> nat set" where
  "footprint cfg h = {m_chunks h ..< heap_end cfg h + (m_total_chunks h + 7) div 8}"

definition live_in :: "heap_config \<Rightarrow> heap \<Rightarrow> live_map \<Rightarrow> live_map" where
  "live_in cfg h blocks c = (if c < m_total_chunks h then blocks (chunk_addr cfg h c) else None)"

definition heaps_ok :: "heap_config \<Rightarrow> mem \<Rightarrow> subheap list \<Rightarrow> live_map \<Rightarrow> bool" where
  "heaps_ok cfg m shs blocks \<longleftrightarrow>
     (\<forall>sh \<in> set shs. 0 < m_chunks (sh_heap sh) \<and> heap_ok cfg m (sh_heap sh) (live_in cfg (sh_heap sh) blocks)) \<and>
     distinct (map sh_at shs) \<and>
     (\<forall>s \<in> set shs. \<forall>t \<in> set shs. sh_at s \<noteq> sh_at t \<longrightarrow> footprint cfg (sh_heap s) \<inter> footprint cfg (sh_heap t) = {}) \<and>
     (\<forall>a k. blocks a = Some k \<longrightarrow>
        (\<exists>sh \<in> set shs. \<exists>c < m_total_chunks (sh_heap sh). a = chunk_addr cfg (sh_heap sh) c))"

text \<open>The bytes of the given blocks are as before.\<close>

definition keeps :: "heap_config \<Rightarrow> live_map \<Rightarrow> mem \<Rightarrow> mem \<Rightarrow> bool" where
  "keeps cfg blocks m m' \<longleftrightarrow> (\<forall>a k x. blocks a = Some k \<longrightarrow> a \<le> x \<longrightarrow> x < a + k * CHUNK_SIZE cfg \<longrightarrow> m' x = m x)"

lemma keeps_refl [simp]: "keeps cfg blocks m m"
  by (simp add: keeps_def)

lemma keeps_trans: "keeps cfg blocks m m' \<Longrightarrow> keeps cfg blocks m' m'' \<Longrightarrow> keeps cfg blocks m m''"
  by (simp add: keeps_def)

lemma keeps_mono: "keeps cfg blocks' m m' \<Longrightarrow> blocks \<subseteq>\<^sub>m blocks' \<Longrightarrow> keeps cfg blocks m m'"
  unfolding keeps_def map_le_def by (metis domI)

lemma count_update_simps [simp]:
  "footprint cfg (h\<lparr>m_allocated_chunks := k\<rparr>) = footprint cfg h"
  "live_in cfg (h\<lparr>m_allocated_chunks := k\<rparr>) blocks = live_in cfg h blocks"
  by (simp_all add: footprint_def live_in_def fun_eq_iff)

lemma chunk_in_footprint:
  assumes "heap_shape cfg h" and "c < m_total_chunks h"
  shows "chunk_addr cfg h c \<in> footprint cfg h" and "chunk_addr cfg h c < heap_end cfg h"
proof -
  have "chunk_addr cfg h c + header_size \<le> heap_end cfg h"
    using header_in_chunk [OF assms] by (simp add: chunk_addr_end)
  then show "chunk_addr cfg h c < heap_end cfg h" by (simp add: header_size_def)
  then show "chunk_addr cfg h c \<in> footprint cfg h" by (simp add: footprint_def chunk_addr_def)
qed

text \<open>The invariant of a heap reads only the bytes of its own chunks and bitmap.\<close>

lemma heap_ok_footprint:
  assumes ok: "heap_ok cfg m h live" and same: "\<And>x. x \<in> footprint cfg h \<Longrightarrow> m' x = m x"
  shows "heap_ok cfg m' h live"
proof -
  have shape: "heap_shape cfg h" and live: "live_ok cfg m h live" and bm: "bitmap_ok m h live"
    using ok by (simp_all add: heap_ok_def)
  have "load32 m' (chunk_addr cfg h c) = load32 m (chunk_addr cfg h c)" if "live c = Some n" for c n
  proof (rule load32_cong, rule same)
    fix x assume x: "chunk_addr cfg h c \<le> x" "x < chunk_addr cfg h c + 4"
    have "0 < n \<and> c + n \<le> m_total_chunks h" using live that by (simp add: live_ok_def)
    then have "c < m_total_chunks h" by linarith
    then have "chunk_addr cfg h c + header_size \<le> heap_end cfg h"
      using header_in_chunk [OF shape] by (simp add: chunk_addr_end [symmetric])
    then show "x \<in> footprint cfg h" using x by (simp add: footprint_def header_size_def chunk_addr_def)
  qed
  then have "live_ok cfg m' h live" using live by (simp add: live_ok_def)
  moreover have "bit_at m' (m_bitmap h) i = bit_at m (m_bitmap h) i" if "i < m_total_chunks h" for i
  proof -
    have "i div 8 < (m_total_chunks h + 7) div 8" using that by linarith
    moreover have "m_chunks h \<le> heap_end cfg h" by (simp add: heap_end_def)
    ultimately have "heap_end cfg h + i div 8 \<in> footprint cfg h" by (simp add: footprint_def)
    then show ?thesis using same heap_bitmap [OF shape] by (simp add: bit_at_def)
  qed
  ultimately show ?thesis using shape bm by (simp add: heap_ok_def bitmap_ok_def)
qed

lemma heaps_okD:
  assumes "heaps_ok cfg m shs blocks" and "sh \<in> set shs"
  shows "heap_ok cfg m (sh_heap sh) (live_in cfg (sh_heap sh) blocks)" and "heap_shape cfg (sh_heap sh)"
    and "0 < m_chunks (sh_heap sh)"
    and "sh' \<in> set shs \<Longrightarrow> sh_at sh' \<noteq> sh_at sh \<Longrightarrow> footprint cfg (sh_heap sh') \<inter> footprint cfg (sh_heap sh) = {}"
  using assms by (auto simp: heaps_ok_def heap_ok_def)

lemma heaps_ok_same_place:
  assumes "heaps_ok cfg m shs blocks" and "s \<in> set shs" and "t \<in> set shs" and "sh_at s = sh_at t"
  shows "s = t"
  using assms by (auto simp: heaps_ok_def distinct_map inj_on_def)

lemma heaps_ok_distinct_at:
  assumes "heaps_ok cfg m shs blocks" and "i < length shs" and "j < length shs" and "i \<noteq> j"
  shows "sh_at (shs ! i) \<noteq> sh_at (shs ! j)"
proof -
  have "distinct (map sh_at shs)" using assms(1) by (simp add: heaps_ok_def)
  then show ?thesis using assms(2-4) nth_eq_iff_index_eq [of "map sh_at shs" i j] by simp
qed

text \<open>A block belongs to one heap only.\<close>

lemma block_home:
  assumes ok: "heaps_ok cfg m shs blocks" and s: "s \<in> set shs" "t \<in> set shs"
    and c: "c < m_total_chunks (sh_heap s)" "d < m_total_chunks (sh_heap t)"
    and eq: "chunk_addr cfg (sh_heap s) c = chunk_addr cfg (sh_heap t) d"
  shows "s = t \<and> c = d"
proof -
  have "chunk_addr cfg (sh_heap s) c \<in> footprint cfg (sh_heap s) \<inter> footprint cfg (sh_heap t)"
    using chunk_in_footprint heaps_okD(2) [OF ok] s c eq by (metis IntI)
  then have "sh_at s = sh_at t" using heaps_okD(4) [OF ok s(2,1)] by blast
  then have "s = t" by (rule heaps_ok_same_place [OF ok s])
  then show ?thesis using eq chunk_addr_inj heaps_okD(2) [OF ok s(1)] by blast
qed

text \<open>One heap works within its own bytes and blocks: the others do not notice.\<close>

lemma heaps_ok_update:
  assumes ok: "heaps_ok cfg m shs blocks" and i: "i < length shs" and h: "h = sh_heap (shs ! i)"
    and new: "heap_ok cfg m' (h\<lparr>m_allocated_chunks := n\<rparr>) (live_in cfg h blocks')"
    and mem: "\<And>x. x \<notin> footprint cfg h \<Longrightarrow> m' x = m x"
    and other: "\<And>a. (\<And>c. c < m_total_chunks h \<Longrightarrow> a \<noteq> chunk_addr cfg h c) \<Longrightarrow> blocks' a = blocks a"
  shows "heaps_ok cfg m' (shs[i := (shs ! i)\<lparr>sh_heap := h\<lparr>m_allocated_chunks := n\<rparr>\<rparr>]) blocks'"
proof -
  let ?new = "(shs ! i)\<lparr>sh_heap := h\<lparr>m_allocated_chunks := n\<rparr>\<rparr>" and ?shs = "shs[i := (shs ! i)\<lparr>sh_heap := h\<lparr>m_allocated_chunks := n\<rparr>\<rparr>]"
  have si: "shs ! i \<in> set shs" using i by simp
  have at: "map sh_at ?shs = map sh_at shs" using i by (simp add: map_update list_update_same_conv)
  have cases: "s = ?new \<or> s \<in> set shs \<and> sh_at s \<noteq> sh_at (shs ! i)" if s: "s \<in> set ?shs" for s
  proof -
    obtain j where j: "j < length shs" "s = ?shs ! j" using s by (auto simp: in_set_conv_nth)
    have "j \<noteq> i \<Longrightarrow> sh_at (shs ! j) \<noteq> sh_at (shs ! i)" using heaps_ok_distinct_at [OF ok j(1) i] by simp
    then show ?thesis using i j by (cases "j = i") auto
  qed
  have rest: "heap_ok cfg m' (sh_heap s) (live_in cfg (sh_heap s) blocks')"
    if s: "s \<in> set shs" "sh_at s \<noteq> sh_at (shs ! i)" for s
  proof -
    have "footprint cfg (sh_heap s) \<inter> footprint cfg h = {}" using heaps_okD(4) [OF ok si s] h by blast
    then have "heap_ok cfg m' (sh_heap s) (live_in cfg (sh_heap s) blocks)"
      using heap_ok_footprint [OF heaps_okD(1) [OF ok s(1)]] mem by blast
    moreover have "live_in cfg (sh_heap s) blocks' = live_in cfg (sh_heap s) blocks"
    proof
      fix c
      have "chunk_addr cfg (sh_heap s) c \<noteq> chunk_addr cfg h d" if "c < m_total_chunks (sh_heap s)" "d < m_total_chunks h" for d
        using block_home [OF ok s(1) si that(1), of d] that(2) s(2) h by auto
      then show "live_in cfg (sh_heap s) blocks' c = live_in cfg (sh_heap s) blocks c"
        using other by (auto simp: live_in_def)
    qed
    ultimately show ?thesis by simp
  qed
  have "\<exists>sh \<in> set ?shs. \<exists>c < m_total_chunks (sh_heap sh). a = chunk_addr cfg (sh_heap sh) c" if "blocks' a = Some k" for a k
  proof (cases "\<exists>c < m_total_chunks h. a = chunk_addr cfg h c")
    case True
    then show ?thesis using set_update_memI [OF i, of ?new] by (intro bexI [of _ ?new]) simp_all
  next
    case False
    then have "blocks a = Some k" using other that by metis
    then obtain sh c where sh: "sh \<in> set shs" "c < m_total_chunks (sh_heap sh)" "a = chunk_addr cfg (sh_heap sh) c"
      using ok by (auto simp: heaps_ok_def)
    then have "sh \<noteq> shs ! i" using False h by auto
    then have "sh \<in> set ?shs" using sh(1) i by (metis in_set_conv_nth length_list_update nth_list_update_neq)
    then show ?thesis using sh by blast
  qed
  moreover have orig: "\<exists>s' \<in> set shs. sh_at s' = sh_at s \<and> footprint cfg (sh_heap s') = footprint cfg (sh_heap s)"
    if "s \<in> set ?shs" for s
    using cases [OF that] si h by (elim disjE; force)
  have "footprint cfg (sh_heap s) \<inter> footprint cfg (sh_heap t) = {}"
    if "s \<in> set ?shs" "t \<in> set ?shs" "sh_at s \<noteq> sh_at t" for s t
    using orig [OF that(1)] orig [OF that(2)] that(3) heaps_okD(4) [OF ok] by metis
  moreover have "0 < m_chunks (sh_heap s) \<and> heap_ok cfg m' (sh_heap s) (live_in cfg (sh_heap s) blocks')" if "s \<in> set ?shs" for s
    using cases [OF that] rest new heaps_okD(3) [OF ok] si h by auto
  moreover have "distinct (map sh_at ?shs)" using at ok by (simp add: heaps_ok_def)
  ultimately show ?thesis unfolding heaps_ok_def by blast
qed

section \<open>Allocating in a list of heaps\<close>

lemma live_bounds: "heap_ok cfg m h live \<Longrightarrow> live c = Some n \<Longrightarrow> 0 < n \<and> c + n \<le> m_total_chunks h"
  by (simp add: heap_ok_def live_ok_def)

text \<open>The blocks of a heap lie in its chunks; those of the others do not touch its footprint.\<close>

lemma block_in_home:
  assumes ok: "heaps_ok cfg m shs blocks" and sh: "sh \<in> set shs" and c: "c < m_total_chunks (sh_heap sh)"
    and b: "blocks (chunk_addr cfg (sh_heap sh) c) = Some k"
  shows "0 < k" and "c + k \<le> m_total_chunks (sh_heap sh)"
    and "chunk_addr cfg (sh_heap sh) c + k * CHUNK_SIZE cfg \<le> heap_end cfg (sh_heap sh)"
proof -
  show "0 < k" "c + k \<le> m_total_chunks (sh_heap sh)"
    using live_bounds [of cfg m "sh_heap sh" "live_in cfg (sh_heap sh) blocks" c k] heaps_okD(1) [OF ok sh] b c
    by (simp_all add: live_in_def)
  then show "chunk_addr cfg (sh_heap sh) c + k * CHUNK_SIZE cfg \<le> heap_end cfg (sh_heap sh)"
    using chunk_below_end by blast
qed

lemma block_elsewhere:
  assumes ok: "heaps_ok cfg m shs blocks" and sh: "sh \<in> set shs" and b: "blocks a = Some k"
    and x: "a \<le> x" "x < a + k * CHUNK_SIZE cfg"
    and away: "\<And>c. c < m_total_chunks (sh_heap sh) \<Longrightarrow> a \<noteq> chunk_addr cfg (sh_heap sh) c"
  shows "x \<notin> footprint cfg (sh_heap sh)"
proof -
  obtain t c where t: "t \<in> set shs" "c < m_total_chunks (sh_heap t)" "a = chunk_addr cfg (sh_heap t) c"
    using ok b by (auto simp: heaps_ok_def)
  then have "x < heap_end cfg (sh_heap t)" using block_in_home(3) [OF ok t(1,2)] b x by auto
  then have "x \<in> footprint cfg (sh_heap t)" using x t(3) by (simp add: footprint_def chunk_addr_def)
  moreover have "sh_at t \<noteq> sh_at sh" using away t heaps_ok_same_place [OF ok t(1) sh] by blast
  ultimately show ?thesis using heaps_okD(4) [OF ok sh t(1)] by blast
qed

lemma keeps_in_heap:
  assumes ok: "heaps_ok cfg m shs blocks" and sh: "sh \<in> set shs"
    and mem: "\<And>x. x \<notin> footprint cfg (sh_heap sh) \<Longrightarrow> m' x = m x"
    and own: "\<And>c k x. c < m_total_chunks (sh_heap sh) \<Longrightarrow> blocks (chunk_addr cfg (sh_heap sh) c) = Some k \<Longrightarrow>
      chunk_addr cfg (sh_heap sh) c \<le> x \<Longrightarrow> x < chunk_addr cfg (sh_heap sh) (c + k) \<Longrightarrow> m' x = m x"
  shows "keeps cfg blocks m m'"
  unfolding keeps_def
proof (intro allI impI)
  fix a k x assume b: "blocks a = Some k" and x: "a \<le> x" "x < a + k * CHUNK_SIZE cfg"
  show "m' x = m x"
  proof (cases "\<exists>c < m_total_chunks (sh_heap sh). a = chunk_addr cfg (sh_heap sh) c")
    case True
    then show ?thesis using own b x by (auto simp: chunk_addr_add)
  next
    case False
    then show ?thesis using mem block_elsewhere [OF ok sh b x] by blast
  qed
qed

lemma live_in_insert:
  "heap_shape cfg h \<Longrightarrow> c < m_total_chunks h \<Longrightarrow>
    live_in cfg h (blocks(chunk_addr cfg h c := v)) = (live_in cfg h blocks)(c := v)"
  by (auto simp: live_in_def fun_eq_iff chunk_addr_inj)

lemma allocate_in_list:
  assumes ok: "heaps_ok cfg m shs blocks" and i: "i < length shs" and small: "n + header_size + CHUNK_SIZE cfg < 2 ^ 32"
    and alloc: "heap_allocate cfg m (sh_heap (shs ! i)) n = Some (Inr (m', h', ptr))" and ptr: "ptr \<noteq> 0"
  obtains k where "k = chunks_needed cfg n" and "blocks (ptr - header_size) = None" and "header_size \<le> ptr" and "n + header_size \<le> k * CHUNK_SIZE cfg"
    and "heaps_ok cfg m' (shs[i := (shs ! i)\<lparr>sh_heap := h'\<rparr>]) (blocks(ptr - header_size \<mapsto> k))"
    and "keeps cfg blocks m m'" and "h' = (sh_heap (shs ! i))\<lparr>m_allocated_chunks := m_allocated_chunks h'\<rparr>"
    and "\<And>x. x \<notin> footprint cfg (sh_heap (shs ! i)) \<Longrightarrow> m' x = m x"
proof -
  define h where "h = sh_heap (shs ! i)"
  have si: "shs ! i \<in> set shs" using i by simp
  note hok = heaps_okD(1,2) [OF ok si, folded h_def]
  define k where "k = chunks_needed cfg n"
  have CS: "0 < CHUNK_SIZE cfg" using hok(2) by (simp add: heap_shape_def header_size_def)
  obtain c where c: "ptr = chunk_addr cfg h c + header_size" "c + k \<le> m_total_chunks h"
    "\<forall>i. c \<le> i \<and> i < c + k \<longrightarrow> \<not> chunk_used (live_in cfg h blocks) i"
    and h': "h' = h\<lparr>m_allocated_chunks := m_allocated_chunks h + k\<rparr>" "heap_ok cfg m' h' ((live_in cfg h blocks)(c \<mapsto> k))"
    and mem: "\<forall>x. x < chunk_addr cfg h c \<or> chunk_addr cfg h (c + k) \<le> x \<and> x < heap_end cfg h \<longrightarrow> m' x = m x"
      "\<forall>x. heap_end cfg h + (m_total_chunks h + 7) div 8 \<le> x \<longrightarrow> m' x = m x"
    using allocate_result [OF hok(1) small] alloc ptr unfolding h_def [symmetric] k_def by auto
  note k = chunks_needed_bounds [OF small CS, folded k_def]
  have cT: "c < m_total_chunks h" using c(2) k(3) by simp
  have out: "m' x = m x" if "x \<notin> footprint cfg h" for x
  proof -
    have "x < chunk_addr cfg h c \<or> heap_end cfg h + (m_total_chunks h + 7) div 8 \<le> x"
      using that by (auto simp: footprint_def chunk_addr_def)
    then show ?thesis using mem by blast
  qed
  have new: "heap_ok cfg m' (h\<lparr>m_allocated_chunks := m_allocated_chunks h + k\<rparr>) (live_in cfg h (blocks(ptr - header_size \<mapsto> k)))"
    using h' live_in_insert [OF hok(2) cT, of blocks "Some k"] c(1) by simp
  have "heaps_ok cfg m' (shs[i := (shs ! i)\<lparr>sh_heap := h'\<rparr>]) (blocks(ptr - header_size \<mapsto> k))"
    unfolding h'(1) by (rule heaps_ok_update [OF ok i h_def new out]) (use cT c(1) in auto)
  moreover have free: "live_in cfg h blocks c = None"
    using c(3) k(3) live_used [of cfg m h "live_in cfg h blocks" c] hok(1) by (fastforce simp: heap_ok_def)
  then have "blocks (ptr - header_size) = None" using cT c(1) by (simp add: live_in_def)
  moreover have "keeps cfg blocks m m'"
  proof (rule keeps_in_heap [OF ok si])
    show "m' x = m x" if "x \<notin> footprint cfg (sh_heap (shs ! i))" for x using out that h_def by simp
    fix d j x assume d: "d < m_total_chunks (sh_heap (shs ! i))" "blocks (chunk_addr cfg (sh_heap (shs ! i)) d) = Some j"
      "chunk_addr cfg (sh_heap (shs ! i)) d \<le> x" "x < chunk_addr cfg (sh_heap (shs ! i)) (d + j)"
    have "((live_in cfg h blocks)(c \<mapsto> k)) d = Some j" "d \<noteq> c" using d(1,2) free by (auto simp: live_in_def h_def)
    with payload_apart [OF h'(2) this(1), of c k] have
      "{chunk_addr cfg h d..<chunk_addr cfg h (d + j)} \<inter> {chunk_addr cfg h c..<chunk_addr cfg h (c + k)} = {}"
      by (simp add: h'(1))
    then have "x < chunk_addr cfg h c \<or> chunk_addr cfg h (c + k) \<le> x" using d(3,4) by (auto simp: h_def)
    moreover have "x < heap_end cfg h"
      using block_in_home(3) [OF ok si d(1,2)] d(4) by (simp add: chunk_addr_add h_def)
    ultimately show "m' x = m x" using mem(1) by blast
  qed
  ultimately show thesis using that [OF k_def] c(1) k(1) h'(1) out h_def by simp
qed

lemma first_allocation_result:
  assumes "\<forall>sh \<in> set shs. heap_ok cfg m (sh_heap sh) (live_in cfg (sh_heap sh) blocks)"
    and "n + header_size + CHUNK_SIZE cfg < 2 ^ 32"
  shows "first_allocation cfg n m shs = Some (Inr (m, shs, 0)) \<and>
      (\<forall>sh \<in> set shs. no_room (sh_heap sh) (live_in cfg (sh_heap sh) blocks) (chunks_needed cfg n)) \<or>
    (\<exists>i m' h' ptr. i < length shs \<and> heap_allocate cfg m (sh_heap (shs ! i)) n = Some (Inr (m', h', ptr)) \<and> ptr \<noteq> 0 \<and>
      first_allocation cfg n m shs = Some (Inr (m', shs[i := (shs ! i)\<lparr>sh_heap := h'\<rparr>], ptr)))"
  using assms(1)
proof (induction shs)
  case (Cons sh shs)
  obtain m' h' ptr where a: "heap_allocate cfg m (sh_heap sh) n = Some (Inr (m', h', ptr))"
    and r: "ptr \<noteq> 0 \<or> m' = m \<and> h' = sh_heap sh \<and> no_room (sh_heap sh) (live_in cfg (sh_heap sh) blocks) (chunks_needed cfg n)"
    using allocate_result [of cfg m "sh_heap sh" "live_in cfg (sh_heap sh) blocks" n] Cons.prems assms(2) by (auto simp: header_size_def)
  show ?case
  proof (cases "ptr = 0")
    case False
    then show ?thesis using a by (intro disjI2 exI [of _ 0]) auto
  next
    case True
    then have fail: "m' = m" "h' = sh_heap sh"
      "no_room (sh_heap sh) (live_in cfg (sh_heap sh) blocks) (chunks_needed cfg n)" using r by auto
    have "\<forall>sh \<in> set shs. heap_ok cfg m (sh_heap sh) (live_in cfg (sh_heap sh) blocks)" using Cons.prems by simp
    from Cons.IH [OF this] show ?thesis
    proof (elim disjE exE conjE)
      fix i m2 h2 p assume "i < length shs" "heap_allocate cfg m (sh_heap (shs ! i)) n = Some (Inr (m2, h2, p))" "p \<noteq> 0"
        "first_allocation cfg n m shs = Some (Inr (m2, shs[i := (shs ! i)\<lparr>sh_heap := h2\<rparr>], p))"
      then show ?thesis using a True fail by (intro disjI2 exI [of _ "Suc i"]) auto
    qed (use a True fail in simp_all)
  qed
qed simp

text \<open>Heaps in the same places, up to their counters.\<close>

definition same_places :: "subheap list \<Rightarrow> subheap list \<Rightarrow> bool" where
  "same_places shs shs' \<longleftrightarrow> length shs' = length shs \<and>
     (\<forall>i < length shs. \<exists>k. shs' ! i = (shs ! i)\<lparr>sh_heap := (sh_heap (shs ! i))\<lparr>m_allocated_chunks := k\<rparr>\<rparr>)"

lemma same_places_refl [simp]: "same_places shs shs"
  unfolding same_places_def by (metis heap.surjective heap.update_convs(2) subheap.surjective subheap.update_convs(1))

lemma same_places_update:
  assumes "i < length shs" and "h = (sh_heap (shs ! i))\<lparr>m_allocated_chunks := k\<rparr>"
  shows "same_places shs (shs[i := (shs ! i)\<lparr>sh_heap := h\<rparr>])"
  unfolding same_places_def
proof (intro conjI allI impI)
  fix j assume "j < length shs"
  then show "\<exists>k. shs[i := (shs ! i)\<lparr>sh_heap := h\<rparr>] ! j = (shs ! j)\<lparr>sh_heap := (sh_heap (shs ! j))\<lparr>m_allocated_chunks := k\<rparr>\<rparr>"
    using assms same_places_refl [of shs, unfolded same_places_def] by (cases "j = i") auto
qed simp

lemma same_places_trans:
  assumes "same_places xs ys" and "same_places ys zs"
  shows "same_places xs zs"
  unfolding same_places_def
proof (intro conjI allI impI)
  fix i assume i: "i < length xs"
  obtain k where k: "ys ! i = (xs ! i)\<lparr>sh_heap := (sh_heap (xs ! i))\<lparr>m_allocated_chunks := k\<rparr>\<rparr>"
    using assms(1) i by (auto simp: same_places_def)
  obtain l where "zs ! i = (ys ! i)\<lparr>sh_heap := (sh_heap (ys ! i))\<lparr>m_allocated_chunks := l\<rparr>\<rparr>"
    using assms i by (auto simp: same_places_def)
  then show "\<exists>k. zs ! i = (xs ! i)\<lparr>sh_heap := (sh_heap (xs ! i))\<lparr>m_allocated_chunks := k\<rparr>\<rparr>"
    unfolding k by (intro exI [of _ l]) simp
qed (use assms in \<open>simp add: same_places_def\<close>)

definition all_bytes :: "heap_config \<Rightarrow> subheap list \<Rightarrow> nat set" where
  "all_bytes cfg shs = (\<Union>sh \<in> set shs. footprint cfg (sh_heap sh))"

lemma all_bytes_same:
  assumes "same_places shs shs'"
  shows "all_bytes cfg shs' = all_bytes cfg shs"
proof -
  have "footprint cfg (sh_heap (shs' ! i)) = footprint cfg (sh_heap (shs ! i))" if "i < length shs" for i
    using assms that by (auto simp: same_places_def)
  moreover have "all_bytes cfg xs = (\<Union>i < length xs. footprint cfg (sh_heap (xs ! i)))" for xs
    by (auto simp: all_bytes_def set_conv_nth)
  moreover have "length shs' = length shs" using assms by (simp add: same_places_def)
  ultimately show ?thesis by simp
qed

lemma try_allocate:
  assumes ok: "heaps_ok cfg m shs blocks" and small: "n + header_size + CHUNK_SIZE cfg < 2 ^ 32"
  obtains m' shs' ptr where "first_allocation cfg n m shs = Some (Inr (m', shs', ptr))"
    and "same_places shs shs'" and "keeps cfg blocks m m'" and "\<And>x. x \<notin> all_bytes cfg shs \<Longrightarrow> m' x = m x"
    and "ptr = 0 \<and> m' = m \<and> shs' = shs \<and>
        (\<forall>sh \<in> set shs. no_room (sh_heap sh) (live_in cfg (sh_heap sh) blocks) (chunks_needed cfg n)) \<or>
      (\<exists>k. k = chunks_needed cfg n \<and> header_size \<le> ptr \<and> blocks (ptr - header_size) = None \<and>
        n + header_size \<le> k * CHUNK_SIZE cfg \<and> heaps_ok cfg m' shs' (blocks(ptr - header_size \<mapsto> k)))"
proof -
  have "\<forall>sh \<in> set shs. heap_ok cfg m (sh_heap sh) (live_in cfg (sh_heap sh) blocks)" using ok by (simp add: heaps_ok_def)
  from first_allocation_result [OF this small] show thesis
  proof (elim disjE exE conjE)
    assume "first_allocation cfg n m shs = Some (Inr (m, shs, 0))"
      "\<forall>sh \<in> set shs. no_room (sh_heap sh) (live_in cfg (sh_heap sh) blocks) (chunks_needed cfg n)"
    then show thesis using that [of m shs 0] by simp
  next
    fix i m' h' ptr
    assume i: "i < length shs" and a: "heap_allocate cfg m (sh_heap (shs ! i)) n = Some (Inr (m', h', ptr))" "ptr \<noteq> 0"
      and f: "first_allocation cfg n m shs = Some (Inr (m', shs[i := (shs ! i)\<lparr>sh_heap := h'\<rparr>], ptr))"
    from allocate_in_list [OF ok i small a] obtain k where
      kn: "k = chunks_needed cfg n" and k: "blocks (ptr - header_size) = None" "header_size \<le> ptr" "n + header_size \<le> k * CHUNK_SIZE cfg"
        "heaps_ok cfg m' (shs[i := (shs ! i)\<lparr>sh_heap := h'\<rparr>]) (blocks(ptr - header_size \<mapsto> k))" "keeps cfg blocks m m'"
        "h' = (sh_heap (shs ! i))\<lparr>m_allocated_chunks := m_allocated_chunks h'\<rparr>"
      and out: "\<And>x. x \<notin> footprint cfg (sh_heap (shs ! i)) \<Longrightarrow> m' x = m x" by blast
    show thesis
    proof (rule that [OF f])
      show "same_places shs (shs[i := (shs ! i)\<lparr>sh_heap := h'\<rparr>])" by (rule same_places_update [OF i k(6)])
      show "m' x = m x" if "x \<notin> all_bytes cfg shs" for x
        using that i by (intro out) (auto simp: all_bytes_def)
    qed (use k kn in auto)
  qed
qed

text \<open>Blocks do not overlap, wherever they are.\<close>

lemma blocks_apart:
  assumes ok: "heaps_ok cfg m shs blocks" and a: "blocks a = Some k" and b: "blocks b = Some j" and "a \<noteq> b"
  shows "\<not> (a \<le> x \<and> x < a + k * CHUNK_SIZE cfg \<and> b \<le> x \<and> x < b + j * CHUNK_SIZE cfg)"
proof
  assume x: "a \<le> x \<and> x < a + k * CHUNK_SIZE cfg \<and> b \<le> x \<and> x < b + j * CHUNK_SIZE cfg"
  obtain s c where s: "s \<in> set shs" "c < m_total_chunks (sh_heap s)" "a = chunk_addr cfg (sh_heap s) c"
    using ok a unfolding heaps_ok_def by blast
  have "x < heap_end cfg (sh_heap s)" using block_in_home(3) [OF ok s(1,2)] a s(3) x by auto
  then have "x \<in> footprint cfg (sh_heap s)" using x s(3) by (simp add: footprint_def chunk_addr_def)
  then obtain d where d: "d < m_total_chunks (sh_heap s)" "b = chunk_addr cfg (sh_heap s) d"
    using block_elsewhere [OF ok s(1) b] x by blast
  have "live_in cfg (sh_heap s) blocks c = Some k" "live_in cfg (sh_heap s) blocks d = Some j" "c \<noteq> d"
    using s d a b assms(4) by (auto simp: live_in_def)
  from payload_apart [OF heaps_okD(1) [OF ok s(1)] this] show False using x s(3) d(2) by (auto simp: chunk_addr_add)
qed

section \<open>Releasing in a list of heaps\<close>

lemma find_containing_first:
  "i < length shs \<Longrightarrow> heap_contains cfg (sh_heap (shs ! i)) ptr \<Longrightarrow>
    (\<And>j. j < i \<Longrightarrow> \<not> heap_contains cfg (sh_heap (shs ! j)) ptr) \<Longrightarrow> find_containing cfg ptr shs = Some i"
proof (induction shs arbitrary: i)
  case (Cons sh shs)
  show ?case
  proof (cases i)
    case 0
    then show ?thesis using Cons.prems by simp
  next
    case (Suc j)
    have "\<not> heap_contains cfg (sh_heap (shs ! l)) ptr" if "l < j" for l using Cons.prems(3) [of "Suc l"] that Suc by simp
    then have "find_containing cfg ptr shs = Some j" using Cons.prems(1,2) Suc by (intro Cons.IH) simp_all
    then show ?thesis using Cons.prems(3) [of 0] Suc by simp
  qed
qed simp

lemma find_home:
  assumes ok: "heaps_ok cfg m shs blocks" and b: "blocks a = Some k"
  obtains i c where "i < length shs" and "c < m_total_chunks (sh_heap (shs ! i))"
    and "a = chunk_addr cfg (sh_heap (shs ! i)) c" and "find_containing cfg (a + header_size) shs = Some i"
    and "a + k * CHUNK_SIZE cfg < 2 ^ 32"
proof -
  obtain i c where i: "i < length shs" and c: "c < m_total_chunks (sh_heap (shs ! i))" "a = chunk_addr cfg (sh_heap (shs ! i)) c"
    using ok b unfolding heaps_ok_def by (metis in_set_conv_nth)
  have si: "shs ! i \<in> set shs" using i by simp
  have shape: "heap_shape cfg (sh_heap (shs ! i))" by (rule heaps_okD(2) [OF ok si])
  have hd: "a + header_size < heap_end cfg (sh_heap (shs ! i))"
  proof -
    have "CHUNK_SIZE cfg \<le> k * CHUNK_SIZE cfg" using block_in_home(1) [OF ok si c(1)] b c(2) by simp
    moreover have "header_size < CHUNK_SIZE cfg" using shape by (simp add: heap_shape_def)
    moreover have "a + k * CHUNK_SIZE cfg \<le> heap_end cfg (sh_heap (shs ! i))" using block_in_home(3) [OF ok si c(1)] b c(2) by simp
    ultimately show ?thesis by linarith
  qed
  then have ptr: "size_sub (a + header_size) header_size = a" using shape by (simp add: size_sub_id heap_shape_def)
  have contains: "heap_contains cfg (sh_heap sh) (a + header_size) \<Longrightarrow> a \<in> footprint cfg (sh_heap sh)" for sh
    using ptr by (auto simp: heap_contains_def footprint_def Let_def split: if_splits)
  have "heap_contains cfg (sh_heap (shs ! i)) (a + header_size)"
    using hd ptr c(2) by (simp add: heap_contains_def chunk_addr_def)
  moreover have "\<not> heap_contains cfg (sh_heap (shs ! j)) (a + header_size)" if "j < i" for j
  proof
    assume "heap_contains cfg (sh_heap (shs ! j)) (a + header_size)"
    then have "a \<in> footprint cfg (sh_heap (shs ! j)) \<inter> footprint cfg (sh_heap (shs ! i))"
      using contains chunk_in_footprint(1) [OF shape c(1)] c(2) by blast
    moreover have "sh_at (shs ! j) \<noteq> sh_at (shs ! i)"
      using heaps_ok_distinct_at [OF ok, of j i] that i by simp
    moreover have "shs ! j \<in> set shs" using that i by simp
    ultimately show False using heaps_okD(4) [OF ok si] by blast
  qed
  ultimately have "find_containing cfg (a + header_size) shs = Some i" by (rule find_containing_first [OF i])
  moreover have "a + k * CHUNK_SIZE cfg < 2 ^ 32"
    using block_in_home(3) [OF ok si c(1)] b c(2) shape by (simp add: heap_shape_def)
  ultimately show thesis using that i c by blast
qed

lemma release_in_list:
  assumes ok: "heaps_ok cfg m shs blocks" and i: "i < length shs" and c: "c < m_total_chunks (sh_heap (shs ! i))"
    and a: "a = chunk_addr cfg (sh_heap (shs ! i)) c" and b: "blocks a = Some k"
  obtains m' h' where "heap_deallocate cfg m (sh_heap (shs ! i)) (a + header_size) = Inr (m', h')"
    and "heaps_ok cfg m' (shs[i := (shs ! i)\<lparr>sh_heap := h'\<rparr>]) (blocks(a := None))"
    and "keeps cfg (blocks(a := None)) m m'" and "h' = (sh_heap (shs ! i))\<lparr>m_allocated_chunks := m_allocated_chunks h'\<rparr>"
    and "\<And>x. x \<notin> footprint cfg (sh_heap (shs ! i)) \<Longrightarrow> m' x = m x"
proof -
  define h where "h = sh_heap (shs ! i)"
  have si: "shs ! i \<in> set shs" using i by simp
  note hok = heaps_okD(1,2) [OF ok si, folded h_def]
  have l: "live_in cfg h blocks c = Some k" using c a b by (simp add: live_in_def h_def)
  obtain m' where d: "heap_deallocate cfg m h (a + header_size) = Inr (m', h\<lparr>m_allocated_chunks := m_allocated_chunks h - k\<rparr>)"
    and new: "heap_ok cfg m' (h\<lparr>m_allocated_chunks := m_allocated_chunks h - k\<rparr>) ((live_in cfg h blocks)(c := None))"
    and mem: "\<forall>x. x < chunk_addr cfg h c \<or> chunk_addr cfg h (c + k) \<le> x \<and> x < heap_end cfg h \<longrightarrow> m' x = m x"
      "\<forall>x. heap_end cfg h + (m_total_chunks h + 7) div 8 \<le> x \<longrightarrow> m' x = m x"
    using deallocate_result [OF hok(1) l] a h_def by blast
  have out: "m' x = m x" if "x \<notin> footprint cfg h" for x
  proof -
    have "x < chunk_addr cfg h c \<or> heap_end cfg h + (m_total_chunks h + 7) div 8 \<le> x"
      using that by (auto simp: footprint_def chunk_addr_def)
    then show ?thesis using mem by blast
  qed
  have "(live_in cfg h blocks)(c := None) = live_in cfg h (blocks(a := None))"
    using live_in_insert [OF hok(2), of c blocks None] c a h_def by simp
  then have "heaps_ok cfg m' (shs[i := (shs ! i)\<lparr>sh_heap := h\<lparr>m_allocated_chunks := m_allocated_chunks h - k\<rparr>\<rparr>]) (blocks(a := None))"
    using new c a h_def by (intro heaps_ok_update [OF ok i h_def _ out]) auto
  moreover have "keeps cfg (blocks(a := None)) m m'"
    unfolding keeps_def
  proof (intro allI impI)
    fix b' j x assume b': "(blocks(a := None)) b' = Some j" and x: "b' \<le> x" "x < b' + j * CHUNK_SIZE cfg"
    then have bj: "blocks b' = Some j" "b' \<noteq> a" by (auto split: if_splits)
    show "m' x = m x"
    proof (cases "\<exists>e < m_total_chunks h. b' = chunk_addr cfg h e")
      case True
      then obtain e where e: "e < m_total_chunks h" "b' = chunk_addr cfg h e" by blast
      then have "live_in cfg h blocks e = Some j" "e \<noteq> c" using bj a h_def by (auto simp: live_in_def)
      with payload_apart [OF hok(1) this(1) l] have
        "{chunk_addr cfg h e..<chunk_addr cfg h (e + j)} \<inter> {chunk_addr cfg h c..<chunk_addr cfg h (c + k)} = {}" by simp
      then have "x < chunk_addr cfg h c \<or> chunk_addr cfg h (c + k) \<le> x" using x e(2) by (auto simp: chunk_addr_add)
      moreover have "x < heap_end cfg h"
        using block_in_home(3) [OF ok si, folded h_def, OF e(1)] bj e x by simp
      ultimately show ?thesis using mem(1) by blast
    next
      case False
      then have "x \<notin> footprint cfg h" using block_elsewhere [OF ok si bj(1) x] h_def by blast
      then show ?thesis by (rule out)
    qed
  qed
  ultimately show thesis using that [OF d [unfolded h_def]] out by (simp add: h_def)
qed

lemma unused_heap:
  assumes ok: "heaps_ok cfg m shs blocks" and sh: "sh \<in> set shs" and "m_allocated_chunks (sh_heap sh) = 0"
    and "c < m_total_chunks (sh_heap sh)"
  shows "blocks (chunk_addr cfg (sh_heap sh) c) = None"
proof (rule ccontr)
  let ?live = "live_in cfg (sh_heap sh) blocks"
  assume "blocks (chunk_addr cfg (sh_heap sh) c) \<noteq> None"
  then obtain k where "?live c = Some k" using assms(4) by (auto simp: live_in_def)
  then have "chunk_used ?live c" using live_used heaps_okD(1) [OF ok sh] by (auto simp: heap_ok_def)
  moreover have "card {i. i < m_total_chunks (sh_heap sh) \<and> chunk_used ?live i} = 0"
    using heaps_okD(1) [OF ok sh] assms(3) by (simp add: heap_ok_def bitmap_ok_def)
  then have "{i. i < m_total_chunks (sh_heap sh) \<and> chunk_used ?live i} = {}" by simp
  ultimately show False using assms(4) by blast
qed

lemma heaps_ok_written:
  assumes ok: "heaps_ok cfg m shs blocks" and b: "blocks a = Some k"
    and w: "\<And>x. x < a + header_size \<or> a + k * CHUNK_SIZE cfg \<le> x \<Longrightarrow> m' x = m x"
  shows "heaps_ok cfg m' shs blocks" and "keeps cfg (blocks(a := None)) m m'" and "x \<notin> all_bytes cfg shs \<Longrightarrow> m' x = m x"
proof -
  from find_home [OF ok b] obtain i c where i: "i < length shs" and c: "c < m_total_chunks (sh_heap (shs ! i))"
    "a = chunk_addr cfg (sh_heap (shs ! i)) c" by blast
  define h where "h = sh_heap (shs ! i)"
  have si: "shs ! i \<in> set shs" using i by simp
  have end': "a + k * CHUNK_SIZE cfg \<le> heap_end cfg h" using block_in_home(3) [OF ok si c(1)] b c(2) h_def by simp
  have out: "m' x = m x" if "x \<notin> footprint cfg h" for x
    using that end' c(2) by (intro w) (auto simp: footprint_def h_def chunk_addr_def)
  have lc: "live_in cfg h blocks c = Some k" using b c by (simp add: live_in_def h_def)
  have "heap_ok cfg m' h (live_in cfg h blocks)"
    by (rule heap_ok_writes [OF heaps_okD(1) [OF ok si, folded h_def] lc])
      (use c(2) in \<open>auto simp: payload_def chunk_addr_add h_def intro!: w\<close>)
  then have "heaps_ok cfg m' (shs[i := (shs ! i)\<lparr>sh_heap := h\<lparr>m_allocated_chunks := m_allocated_chunks h\<rparr>\<rparr>]) blocks"
    by (intro heaps_ok_update [OF ok i h_def _ out]) auto
  then show "heaps_ok cfg m' shs blocks" by (simp add: h_def)
  show "m' x = m x" if "x \<notin> all_bytes cfg shs" for x using that i by (intro out) (auto simp: all_bytes_def h_def)
  show "keeps cfg (blocks(a := None)) m m'"
    unfolding keeps_def
  proof (intro allI impI)
    fix d j x assume d: "(blocks(a := None)) d = Some j" and x: "d \<le> x" "x < d + j * CHUNK_SIZE cfg"
    show "m' x = m x"
    proof (rule w, rule ccontr)
      assume "\<not> (x < a + header_size \<or> a + k * CHUNK_SIZE cfg \<le> x)"
      then have "a \<le> x" "x < a + k * CHUNK_SIZE cfg" by auto
      then show False using blocks_apart [OF ok b, of d j] d x by (auto split: if_splits)
    qed
  qed
qed

text \<open>The checks of \<^verbatim>\<open>reallocate\<close> pass for a block, and the header gives its size.\<close>

lemma block_checks:
  assumes ok: "heaps_ok cfg m shs blocks" and sh: "sh \<in> set shs"
    and c: "c < m_total_chunks (sh_heap sh)" "a = chunk_addr cfg (sh_heap sh) c" and b: "blocks a = Some k"
  shows "size_sub (a + header_size) header_size = a"
    and "size_mul (unat (load32 m a)) (CHUNK_SIZE cfg) = k * CHUNK_SIZE cfg"
    and "size_add a (k * CHUNK_SIZE cfg) \<le> heap_end cfg (sh_heap sh)"
    and "a + header_size < heap_end cfg (sh_heap sh)" and "m_chunks (sh_heap sh) \<le> a" and "header_size \<noteq> 0"
proof -
  let ?h = "sh_heap sh"
  have shape: "heap_shape cfg ?h" by (rule heaps_okD(2) [OF ok sh])
  have k: "0 < k" "a + k * CHUNK_SIZE cfg \<le> heap_end cfg ?h" using block_in_home [OF ok sh c(1)] b c(2) by auto
  have CS: "header_size < CHUNK_SIZE cfg" "CHUNK_SIZE cfg \<le> k * CHUNK_SIZE cfg" "k \<le> k * CHUNK_SIZE cfg" "heap_end cfg ?h < 2 ^ 32"
    using shape k(1) by (simp_all add: heap_shape_def)
  show below: "a + header_size < heap_end cfg ?h" using CS(1,2) k(2) by linarith
  then show "size_sub (a + header_size) header_size = a" using CS(4) by (intro size_sub_id [THEN trans]) simp_all
  have "k < 2 ^ 32" using CS(3,4) k(2) by linarith
  then have "unat (load32 m a) = k"
    using heaps_okD(1) [OF ok sh] b c by (auto simp: heap_ok_def live_ok_def live_in_def unat_of_nat_32)
  then show "size_mul (unat (load32 m a)) (CHUNK_SIZE cfg) = k * CHUNK_SIZE cfg" using k(2) CS(4) by (simp add: size_mul_id)
  show "size_add a (k * CHUNK_SIZE cfg) \<le> heap_end cfg ?h" using k(2) CS(4) by (simp add: size_add_id)
  show "m_chunks ?h \<le> a" "header_size \<noteq> 0" using c(2) by (simp_all add: chunk_addr_def header_size_def)
qed

lemma find_at: "distinct (map sh_at shs) \<Longrightarrow> j < length shs \<Longrightarrow> List.find (\<lambda>sh. sh_at sh = sh_at (shs ! j)) shs = Some (shs ! j)"
  by (induction shs arbitrary: j) (auto simp: nth_Cons split: nat.splits)

lemma map_at:
  "distinct (map sh_at shs) \<Longrightarrow> j < length shs \<Longrightarrow>
    map (\<lambda>s. if sh_at s = sh_at (shs ! j) then f s else s) shs = shs[j := f (shs ! j)]"
  by (rule nth_equalityI) (auto simp: nth_list_update distinct_conv_nth)

section \<open>Adding and removing heaps\<close>

lemma heaps_ok_set:
  "heaps_ok cfg m shs blocks \<Longrightarrow> set shs' = set shs \<Longrightarrow> distinct (map sh_at shs') \<Longrightarrow> heaps_ok cfg m shs' blocks"
  by (simp add: heaps_ok_def)

lemma set_link_subheap: "set (link_subheap new shs) = insert new (set shs)"
  by (induction shs) auto

lemma mset_link_subheap: "mset (map sh_at (link_subheap new shs)) = mset (sh_at new # map sh_at shs)"
  by (induction shs) auto

lemma set_unlink_subheap:
  "distinct (map sh_at shs) \<Longrightarrow> set (unlink_subheap a shs) = {sh \<in> set shs. sh_at sh \<noteq> a}"
  by (induction shs) (auto simp: rev_image_eqI)

lemma unlink_at: "map sh_at (unlink_subheap a shs) = remove1 a (map sh_at shs)"
  by (induction shs) auto

lemma heaps_ok_link:
  assumes ok: "heaps_ok cfg m (main # shs) blocks" and pos: "0 < m_chunks (sh_heap new)"
    and new: "heap_ok cfg m (sh_heap new) (\<lambda>_. None)" and at: "sh_at new \<notin> sh_at ` set (main # shs)"
    and apart: "footprint cfg (sh_heap new) \<inter> all_bytes cfg (main # shs) = {}"
  shows "heaps_ok cfg m (main # link_subheap new shs) blocks"
proof -
  have none: "blocks (chunk_addr cfg (sh_heap new) c) = None" if "c < m_total_chunks (sh_heap new)" for c
  proof (rule ccontr)
    assume "blocks (chunk_addr cfg (sh_heap new) c) \<noteq> None"
    then obtain sh d where sh: "sh \<in> set (main # shs)" "d < m_total_chunks (sh_heap sh)"
      "chunk_addr cfg (sh_heap new) c = chunk_addr cfg (sh_heap sh) d"
      using ok unfolding heaps_ok_def by (meson not_None_eq)
    then have "chunk_addr cfg (sh_heap new) c \<in> all_bytes cfg (main # shs)"
      using chunk_in_footprint(1) [OF heaps_okD(2) [OF ok sh(1)] sh(2)] unfolding all_bytes_def by (metis UN_I)
    moreover have "chunk_addr cfg (sh_heap new) c \<in> footprint cfg (sh_heap new)"
      using chunk_in_footprint(1) that new by (simp add: heap_ok_def)
    ultimately show False using apart by blast
  qed
  have "live_in cfg (sh_heap new) blocks = (\<lambda>_. None)" using none by (auto simp: live_in_def)
  then have "heap_ok cfg m (sh_heap new) (live_in cfg (sh_heap new) blocks)" using new by simp
  moreover have "distinct (map sh_at (new # main # shs))" using ok at by (auto simp: heaps_ok_def)
  moreover have "footprint cfg (sh_heap s) \<inter> footprint cfg (sh_heap t) = {}"
    if st: "s \<in> set (new # main # shs)" "t \<in> set (new # main # shs)" "sh_at s \<noteq> sh_at t" for s t
  proof -
    have sub: "footprint cfg (sh_heap r) \<subseteq> all_bytes cfg (main # shs)" if "r \<in> set (main # shs)" for r
      using that unfolding all_bytes_def by blast
    consider "s = new" "t = new" | "s = new" "t \<in> set (main # shs)" | "s \<in> set (main # shs)" "t = new"
      | "s \<in> set (main # shs)" "t \<in> set (main # shs)" using st(1,2) by auto
    then show ?thesis
    proof cases
      case 4
      then show ?thesis using heaps_okD(4) [OF ok 4(2) 4(1)] st(3) by simp
    qed (use st(3) sub [of s] sub [of t] apart in blast)+
  qed
  moreover have "\<exists>sh \<in> set (new # main # shs). \<exists>c < m_total_chunks (sh_heap sh). a = chunk_addr cfg (sh_heap sh) c"
    if "blocks a = Some k" for a k
    using that ok unfolding heaps_ok_def by (meson list.set_intros(2))
  moreover have "\<forall>sh \<in> set (main # shs). 0 < m_chunks (sh_heap sh) \<and> heap_ok cfg m (sh_heap sh) (live_in cfg (sh_heap sh) blocks)"
    using ok by (simp add: heaps_ok_def)
  ultimately have "heaps_ok cfg m (new # main # shs) blocks"
    using pos unfolding heaps_ok_def by (metis (no_types, lifting) set_ConsD)
  then show ?thesis
  proof (rule heaps_ok_set)
    have "mset (map sh_at (main # link_subheap new shs)) = mset (map sh_at (new # main # shs))"
      using mset_link_subheap [of new shs] by simp
    then show "distinct (map sh_at (main # link_subheap new shs))"
      using \<open>distinct (map sh_at (new # main # shs))\<close> mset_eq_imp_distinct_iff by blast
  qed (auto simp: set_link_subheap)
qed

lemma heaps_ok_unlink:
  assumes ok: "heaps_ok cfg m (main # shs) blocks" and sh: "sh \<in> set shs"
    and empty: "\<And>c. c < m_total_chunks (sh_heap sh) \<Longrightarrow> blocks (chunk_addr cfg (sh_heap sh) c) = None"
  shows "heaps_ok cfg m (main # unlink_subheap (sh_at sh) shs) blocks"
proof -
  have d: "distinct (map sh_at (main # shs))" using ok by (simp add: heaps_ok_def)
  then have set: "set (unlink_subheap (sh_at sh) shs) = {s \<in> set shs. sh_at s \<noteq> sh_at sh}" by (simp add: set_unlink_subheap)
  have "\<exists>s \<in> set (main # unlink_subheap (sh_at sh) shs). \<exists>c < m_total_chunks (sh_heap s). a = chunk_addr cfg (sh_heap s) c"
    if b: "blocks a = Some k" for a k
  proof -
    obtain s c where s: "s \<in> set (main # shs)" "c < m_total_chunks (sh_heap s)" "a = chunk_addr cfg (sh_heap s) c"
      using ok b unfolding heaps_ok_def by blast
    then have "sh_at s \<noteq> sh_at sh" using empty b heaps_ok_same_place [OF ok s(1), of sh] sh by auto
    then show ?thesis using s set by auto
  qed
  moreover have "distinct (map sh_at (main # unlink_subheap (sh_at sh) shs))"
    using d by (auto simp: unlink_at dest: notin_set_remove1)
  ultimately show ?thesis using ok set unfolding heaps_ok_def by simp
qed

section \<open>The contract of the policy\<close>

text \<open>
  The policy may own blocks of the heap itself, in addition to those of the callers.  What it keeps
  track of must not depend on the bytes in the heaps or on their counters.  Its two operations keep
  the state consistent and the callers' blocks unchanged.
\<close>

definition state_ok :: "heap_config \<Rightarrow> ('x \<Rightarrow> live_map) \<Rightarrow> (mem \<Rightarrow> 'x expandable_heap \<Rightarrow> bool) \<Rightarrow> mem \<Rightarrow>
    'x expandable_heap \<Rightarrow> live_map \<Rightarrow> bool" where
  "state_ok cfg own policy_ok m e blocks \<longleftrightarrow>
     heaps_ok cfg m (all_subheaps e) (blocks ++ own (m_expand e)) \<and>
     dom blocks \<inter> dom (own (m_expand e)) = {} \<and> policy_ok m e"

text \<open>The callers' blocks after a request: unchanged for a null pointer, else with one new block.\<close>

definition handed_out :: "heap_config \<Rightarrow> live_map \<Rightarrow> nat \<Rightarrow> nat \<Rightarrow> live_map \<Rightarrow> bool" where
  "handed_out cfg blocks n ptr blocks' \<longleftrightarrow>
     ptr = 0 \<and> blocks' = blocks \<or>
     (\<exists>k. k = chunks_needed cfg n \<and> header_size \<le> ptr \<and> blocks (ptr - header_size) = None \<and>
        n + header_size \<le> k * CHUNK_SIZE cfg \<and> blocks' = blocks(ptr - header_size \<mapsto> k))"

lemma all_with_subheaps [simp]: "shs \<noteq> [] \<Longrightarrow> all_subheaps (with_subheaps e shs) = shs"
  by (simp add: all_subheaps_def with_subheaps_def)

lemma with_all_subheaps [simp]: "with_subheaps e (all_subheaps e) = e"
  by (simp add: all_subheaps_def with_subheaps_def)

lemma all_subheaps_not_Nil [simp]: "all_subheaps e \<noteq> []" "0 < length (all_subheaps e)"
  by (simp_all add: all_subheaps_def)

lemma with_subheaps_fields [simp]:
  "m_expand (with_subheaps e shs) = m_expand e" "m_expanding (with_subheaps e shs) = m_expanding e"
  "all_subheaps (e\<lparr>m_expanding := b\<rparr>) = all_subheaps e"
  by (simp_all add: with_subheaps_def all_subheaps_def)

lemma nth_in_tl: "0 < i \<Longrightarrow> i < length xs \<Longrightarrow> xs ! i \<in> set (tl xs)"
  by (cases xs; cases i) auto

text \<open>Every heap is still there, in its place.\<close>

definition grown :: "subheap list \<Rightarrow> subheap list \<Rightarrow> bool" where
  "grown shs shs' \<longleftrightarrow> (\<forall>s \<in> set shs. \<exists>t \<in> set shs'. sh_at t = sh_at s \<and> (\<exists>k. sh_heap t = (sh_heap s)\<lparr>m_allocated_chunks := k\<rparr>))"

lemma same_places_grown: "same_places shs shs' \<Longrightarrow> grown shs shs'"
  unfolding same_places_def grown_def
proof (elim conjE, intro ballI)
  fix s assume len: "length shs' = length shs" and all: "\<forall>i < length shs. \<exists>k. shs' ! i = (shs ! i)\<lparr>sh_heap := (sh_heap (shs ! i))\<lparr>m_allocated_chunks := k\<rparr>\<rparr>"
    and "s \<in> set shs"
  then obtain i where i: "i < length shs" "s = shs ! i" by (auto simp: in_set_conv_nth)
  with all obtain k where "shs' ! i = s\<lparr>sh_heap := (sh_heap s)\<lparr>m_allocated_chunks := k\<rparr>\<rparr>" by blast
  moreover have "shs' ! i \<in> set shs'" using i len by simp
  ultimately show "\<exists>t \<in> set shs'. sh_at t = sh_at s \<and> (\<exists>k. sh_heap t = (sh_heap s)\<lparr>m_allocated_chunks := k\<rparr>)"
    by (intro bexI [of _ "shs' ! i"]) auto
qed

lemma grown_refl [simp]: "grown shs shs"
  by (rule same_places_grown) simp

lemma grown_trans: "grown xs ys \<Longrightarrow> grown ys zs \<Longrightarrow> grown xs zs"
  unfolding grown_def
proof
  fix s assume xy: "\<forall>s \<in> set xs. \<exists>t \<in> set ys. sh_at t = sh_at s \<and> (\<exists>k. sh_heap t = (sh_heap s)\<lparr>m_allocated_chunks := k\<rparr>)"
    and yz: "\<forall>s \<in> set ys. \<exists>t \<in> set zs. sh_at t = sh_at s \<and> (\<exists>k. sh_heap t = (sh_heap s)\<lparr>m_allocated_chunks := k\<rparr>)" and "s \<in> set xs"
  then obtain t k where "t \<in> set ys" "sh_at t = sh_at s" "sh_heap t = (sh_heap s)\<lparr>m_allocated_chunks := k\<rparr>" by blast
  with yz show "\<exists>t \<in> set zs. sh_at t = sh_at s \<and> (\<exists>k. sh_heap t = (sh_heap s)\<lparr>m_allocated_chunks := k\<rparr>)" by fastforce
qed

lemma same_places_Nil: "same_places shs shs' \<Longrightarrow> shs \<noteq> [] \<Longrightarrow> shs' \<noteq> []"
  by (auto simp: same_places_def)

locale heap_expansion =
  fixes cfg :: heap_config
    and add_memory :: "nat \<Rightarrow> 'x heap_state \<Rightarrow> ('x heap_state \<times> bool) res option"
    and remove_memory :: "nat \<Rightarrow> 'x heap_state \<Rightarrow> ('x heap_state \<times> bool) res option"
    and own :: "'x \<Rightarrow> live_map"
    and policy_ok :: "mem \<Rightarrow> 'x expandable_heap \<Rightarrow> bool"
    and limit :: nat
  assumes limit: "limit + header_size + CHUNK_SIZE cfg < 2 ^ 32"
    and policy_frame: "policy_ok m e \<Longrightarrow> same_places (all_subheaps e) (all_subheaps e') \<Longrightarrow> m_expand e' = m_expand e \<Longrightarrow>
      (\<And>x. x \<notin> all_bytes cfg (all_subheaps e) \<Longrightarrow> m' x = m x) \<Longrightarrow> policy_ok m' e'"
    and add_memory_ok: "state_ok cfg own policy_ok m e blocks \<Longrightarrow> m_expanding e \<Longrightarrow> n \<le> limit \<Longrightarrow>
      \<exists>m' e' b. add_memory n (m, e) = Some (Inr ((m', e'), b)) \<and> m_expanding e' \<and>
        state_ok cfg own policy_ok m' e' blocks \<and> keeps cfg blocks m m' \<and> grown (all_subheaps e) (all_subheaps e')"
    and remove_memory_ok: "state_ok cfg own policy_ok m e blocks \<Longrightarrow> \<not> m_expanding e \<Longrightarrow> sh \<in> set (added e) \<Longrightarrow>
      m_allocated_chunks (sh_heap sh) = 0 \<Longrightarrow>
      \<exists>m' e'. remove_memory (sh_at sh) (m, e\<lparr>added := unlink_subheap (sh_at sh) (added e)\<rparr>) = Some (Inr ((m', e'), True)) \<and>
        \<not> m_expanding e' \<and> state_ok cfg own policy_ok m' e' blocks \<and> keeps cfg blocks m m'"
begin

abbreviation ok :: "mem \<Rightarrow> 'x expandable_heap \<Rightarrow> live_map \<Rightarrow> bool" where
  "ok \<equiv> state_ok cfg own policy_ok"

lemma expanding_irrelevant: "ok m e blocks \<Longrightarrow> ok m (e\<lparr>m_expanding := b\<rparr>) blocks"
  using policy_frame [of m e "e\<lparr>m_expanding := b\<rparr>" m] by (simp add: state_ok_def)

lemma search_ok:
  assumes st: "ok m e blocks" and n: "n \<le> limit"
  obtains m' shs ptr blocks' where "first_allocation cfg n m (all_subheaps e) = Some (Inr (m', shs, ptr))"
    and "keeps cfg blocks m m'" and "handed_out cfg blocks n ptr blocks'" and "ok m' (with_subheaps e shs) blocks'"
    and "grown (all_subheaps e) (all_subheaps (with_subheaps e shs))"
proof -
  have hok: "heaps_ok cfg m (all_subheaps e) (blocks ++ own (m_expand e))" and small: "n + header_size + CHUNK_SIZE cfg < 2 ^ 32"
    using st n limit by (simp_all add: state_ok_def)
  obtain m' shs ptr where f: "first_allocation cfg n m (all_subheaps e) = Some (Inr (m', shs, ptr))"
    and same: "same_places (all_subheaps e) shs" and keep: "keeps cfg (blocks ++ own (m_expand e)) m m'"
    and out: "\<And>x. x \<notin> all_bytes cfg (all_subheaps e) \<Longrightarrow> m' x = m x"
    and r: "ptr = 0 \<and> m' = m \<and> shs = all_subheaps e \<or>
      (\<exists>k. k = chunks_needed cfg n \<and> header_size \<le> ptr \<and> (blocks ++ own (m_expand e)) (ptr - header_size) = None \<and>
        n + header_size \<le> k * CHUNK_SIZE cfg \<and> heaps_ok cfg m' shs ((blocks ++ own (m_expand e))(ptr - header_size \<mapsto> k)))"
    by (rule try_allocate [OF hok small]) blast
  have nil: "shs \<noteq> []" using same_places_Nil [OF same] by simp
  have grow: "grown (all_subheaps e) (all_subheaps (with_subheaps e shs))" using same_places_grown [OF same] nil by simp
  have keep': "keeps cfg blocks m m'"
    by (rule keeps_mono [OF keep]) (use st in \<open>auto simp: state_ok_def map_le_def map_add_def split: option.splits\<close>)
  have pol: "policy_ok m' (with_subheaps e shs)"
    using policy_frame [of m e "with_subheaps e shs" m'] st same out nil by (simp add: state_ok_def)
  from r show thesis
  proof (elim disjE exE conjE)
    assume "ptr = 0" "m' = m" "shs = all_subheaps e"
    then show thesis using that [OF f keep', of blocks] st grow by (simp add: handed_out_def)
  next
    fix k assume kn: "k = chunks_needed cfg n" and k: "header_size \<le> ptr" "(blocks ++ own (m_expand e)) (ptr - header_size) = None"
      "n + header_size \<le> k * CHUNK_SIZE cfg" "heaps_ok cfg m' shs ((blocks ++ own (m_expand e))(ptr - header_size \<mapsto> k))"
    then have free: "blocks (ptr - header_size) = None" "ptr - header_size \<notin> dom (own (m_expand e))" by auto
    then have "(blocks(ptr - header_size \<mapsto> k)) ++ own (m_expand e) = (blocks ++ own (m_expand e))(ptr - header_size \<mapsto> k)"
      by (simp add: map_add_upd_left)
    then have "ok m' (with_subheaps e shs) (blocks(ptr - header_size \<mapsto> k))"
      using k(4) st pol nil free(2) by (auto simp: state_ok_def)
    then show thesis using that [OF f keep' _ _ grow] k(1,3) kn free by (auto simp: handed_out_def)
  qed
qed

lemma handed_out_null: "handed_out cfg blocks n 0 blocks' \<Longrightarrow> blocks' = blocks"
  by (auto simp: handed_out_def header_size_def)

lemma expand_ok:
  assumes "ok m e blocks" and "n \<le> limit"
  obtains m' e' b where "expand_memory add_memory n (m, e) = Some (Inr ((m', e'), b))"
    and "m_expanding e' = m_expanding e" and "ok m' e' blocks" and "keeps cfg blocks m m'"
    and "grown (all_subheaps e) (all_subheaps e')"
proof (cases "m_expanding e")
  case True
  then show thesis using that [of m e False] assms by (simp add: expand_memory_def)
next
  case False
  obtain m' e' b where "add_memory n (m, e\<lparr>m_expanding := True\<rparr>) = Some (Inr ((m', e'), b))"
    "ok m' e' blocks" "keeps cfg blocks m m'" "grown (all_subheaps e) (all_subheaps e')"
    using add_memory_ok [OF expanding_irrelevant [OF assms(1)], of True n] assms(2) by auto
  then show thesis using that [of m' "e'\<lparr>m_expanding := False\<rparr>" b] False expanding_irrelevant
    by (simp add: expand_memory_def)
qed

lemma allocate_loop_ok:
  assumes "ok m e blocks" and "n \<le> limit"
  shows "\<exists>m' e' ptr blocks'. eh_allocate_loop cfg add_memory n attempt (m, e) = Some (Inr ((m', e'), ptr)) \<and>
    m_expanding e' = m_expanding e \<and> keeps cfg blocks m m' \<and> handed_out cfg blocks n ptr blocks' \<and> ok m' e' blocks' \<and>
    grown (all_subheaps e) (all_subheaps e')"
  using assms(1)
proof (induction "3 - attempt" arbitrary: attempt m e rule: less_induct)
  case less
  obtain m1 shs ptr blocks1 where f: "first_allocation cfg n m (all_subheaps e) = Some (Inr (m1, shs, ptr))"
    and k1: "keeps cfg blocks m m1" and h1: "handed_out cfg blocks n ptr blocks1" and ok1: "ok m1 (with_subheaps e shs) blocks1"
    and g1: "grown (all_subheaps e) (all_subheaps (with_subheaps e shs))"
    using search_ok [OF less.prems assms(2)] by blast
  show ?case
  proof (cases "ptr \<noteq> 0 \<or> 2 \<le> attempt")
    case True
    then have "eh_allocate_loop cfg add_memory n attempt (m, e) = Some (Inr ((m1, with_subheaps e shs), ptr))"
      using f by (subst eh_allocate_loop.simps) (auto simp: Let_def)
    then show ?thesis using k1 h1 ok1 g1 by auto
  next
    case False
    then have ok0: "ok m1 (with_subheaps e shs) blocks" using ok1 h1 handed_out_null [of blocks n blocks1] by auto
    obtain m2 e2 b where x: "expand_memory add_memory n (m1, with_subheaps e shs) = Some (Inr ((m2, e2), b))"
      and e2: "m_expanding e2 = m_expanding e" and ok2: "ok m2 e2 blocks" and k2: "keeps cfg blocks m1 m2"
      and g2: "grown (all_subheaps (with_subheaps e shs)) (all_subheaps e2)"
      using expand_ok [OF ok0 assms(2)] by (metis with_subheaps_fields(2))
    have k12: "keeps cfg blocks m m2" by (rule keeps_trans [OF k1 k2])
    have step: "eh_allocate_loop cfg add_memory n attempt (m, e) =
        (if b then eh_allocate_loop cfg add_memory n (attempt + 1) (m2, e2) else Some (Inr ((m2, e2), 0)))"
      using f x False by (subst eh_allocate_loop.simps) (simp add: Let_def)
    show ?thesis
    proof (cases b)
      case True
      have "3 - (attempt + 1) < 3 - attempt" using False by linarith
      from less.hyps [OF this ok2] obtain m3 e3 p blocks3 where
        "eh_allocate_loop cfg add_memory n (attempt + 1) (m2, e2) = Some (Inr ((m3, e3), p))"
        "m_expanding e3 = m_expanding e2" "keeps cfg blocks m2 m3" "handed_out cfg blocks n p blocks3" "ok m3 e3 blocks3"
        "grown (all_subheaps e2) (all_subheaps e3)" by blast
      with step True e2 keeps_trans [OF k12] grown_trans [OF grown_trans [OF g1 g2]] show ?thesis by auto
    next
      case b: False
      with step ok2 e2 k12 grown_trans [OF g1 g2] show ?thesis by (auto simp: handed_out_def)
    qed
  qed
qed

lemma eh_allocate_ok:
  assumes "ok m e blocks" and "n \<le> limit"
  shows "\<exists>m' e' ptr blocks'. eh_allocate cfg add_memory n (m, e) = Some (Inr ((m', e'), ptr)) \<and>
    m_expanding e' = m_expanding e \<and> keeps cfg blocks m m' \<and> handed_out cfg blocks n ptr blocks' \<and> ok m' e' blocks' \<and>
    grown (all_subheaps e) (all_subheaps e')"
  unfolding eh_allocate_def by (rule allocate_loop_ok [OF assms])

lemma blocks_and_own:
  assumes "ok m e blocks" and "blocks a = Some k"
  shows "(blocks ++ own (m_expand e)) a = Some k"
    and "(blocks ++ own (m_expand e))(a := None) = blocks(a := None) ++ own (m_expand e)"
proof -
  have "own (m_expand e) a = None" using assms by (auto simp: state_ok_def)
  then show "(blocks ++ own (m_expand e)) a = Some k"
    "(blocks ++ own (m_expand e))(a := None) = blocks(a := None) ++ own (m_expand e)"
    using assms(2) by (auto simp: map_add_def fun_eq_iff split: option.splits)
qed

lemma release_ok:
  assumes st: "ok m e blocks" and b: "blocks a = Some k" and i: "i < length (all_subheaps e)"
    and c: "c < m_total_chunks (sh_heap (all_subheaps e ! i))" "a = chunk_addr cfg (sh_heap (all_subheaps e ! i)) c"
  obtains m' h' where "heap_deallocate cfg m (sh_heap (all_subheaps e ! i)) (a + header_size) = Inr (m', h')"
    and "keeps cfg (blocks(a := None)) m m'"
    and "ok m' (with_subheaps e ((all_subheaps e)[i := (all_subheaps e ! i)\<lparr>sh_heap := h'\<rparr>])) (blocks(a := None))"
proof -
  let ?B = "blocks ++ own (m_expand e)" and ?shs = "all_subheaps e"
  have hok: "heaps_ok cfg m ?shs ?B" and disj: "dom blocks \<inter> dom (own (m_expand e)) = {}" using st by (simp_all add: state_ok_def)
  note B = blocks_and_own [OF st b]
  obtain m' h' where d: "heap_deallocate cfg m (sh_heap (?shs ! i)) (a + header_size) = Inr (m', h')"
    and new: "heaps_ok cfg m' (?shs[i := (?shs ! i)\<lparr>sh_heap := h'\<rparr>]) (?B(a := None))"
    and keep: "keeps cfg (?B(a := None)) m m'" and h': "h' = (sh_heap (?shs ! i))\<lparr>m_allocated_chunks := m_allocated_chunks h'\<rparr>"
    and out: "\<And>x. x \<notin> footprint cfg (sh_heap (?shs ! i)) \<Longrightarrow> m' x = m x"
    using release_in_list [OF hok i c B(1)] by blast
  let ?e = "with_subheaps e (?shs[i := (?shs ! i)\<lparr>sh_heap := h'\<rparr>])"
  have "m' x = m x" if "x \<notin> all_bytes cfg ?shs" for x using that i by (intro out) (auto simp: all_bytes_def)
  then have "policy_ok m' ?e"
    using policy_frame [of m e ?e m'] st same_places_update [OF i h'] by (simp add: state_ok_def)
  then have "ok m' ?e (blocks(a := None))" using new disj unfolding B(2) by (auto simp: state_ok_def)
  moreover have "keeps cfg (blocks(a := None)) m m'"
    by (rule keeps_mono [OF keep]) (use disj in \<open>auto simp: B(2) map_le_def map_add_def split: option.splits\<close>)
  ultimately show thesis using that d by blast
qed

text \<open>A caller may write into its block.\<close>

lemma caller_write:
  assumes st: "ok m e blocks" and a: "blocks a = Some k"
    and w: "\<And>x. x < a + header_size \<or> a + k * CHUNK_SIZE cfg \<le> x \<Longrightarrow> m' x = m x"
  shows "ok m' e blocks \<and> keeps cfg (blocks(a := None)) m m'"
proof -
  let ?B = "blocks ++ own (m_expand e)"
  have hok: "heaps_ok cfg m (all_subheaps e) ?B" using st by (simp add: state_ok_def)
  from heaps_ok_written [OF hok blocks_and_own(1) [OF st a] w] have new: "heaps_ok cfg m' (all_subheaps e) ?B"
    and keep: "keeps cfg (?B(a := None)) m m'" and out: "\<And>x. x \<notin> all_bytes cfg (all_subheaps e) \<Longrightarrow> m' x = m x" by blast+
  have "policy_ok m' e" using policy_frame [of m e e m'] st out by (simp add: state_ok_def)
  moreover have "blocks(a := None) \<subseteq>\<^sub>m ?B(a := None)"
    using st by (auto simp: map_le_def map_add_def state_ok_def split: option.splits)
  ultimately show ?thesis using new st keeps_mono [OF keep] by (simp add: state_ok_def)
qed

lemma copy_into_new:
  assumes st: "ok m e blocks'" and h: "handed_out cfg blocks n ptr blocks'"
    and w: "\<And>x. ptr = 0 \<or> x < ptr \<or> ptr + n \<le> x \<Longrightarrow> m' x = m x"
  shows "ok m' e blocks' \<and> keeps cfg blocks m m'"
proof (cases "ptr = 0")
  case True
  then have "m' = m" using w by auto
  then show ?thesis using st by simp
next
  case False
  then obtain k where k: "header_size \<le> ptr" "blocks (ptr - header_size) = None" "n + header_size \<le> k * CHUNK_SIZE cfg"
    "blocks' = blocks(ptr - header_size \<mapsto> k)" using h by (auto simp: handed_out_def)
  let ?a = "ptr - header_size"
  have "blocks' ?a = Some k" using k(4) by simp
  moreover have "m' x = m x" if "x < ?a + header_size \<or> ?a + k * CHUNK_SIZE cfg \<le> x" for x
  proof (rule w)
    show "ptr = 0 \<or> x < ptr \<or> ptr + n \<le> x" using that k(1,3) by linarith
  qed
  ultimately have "ok m' e blocks' \<and> keeps cfg (blocks'(?a := None)) m m'" by (rule caller_write [OF st])
  moreover have "blocks \<subseteq>\<^sub>m blocks'(?a := None)" using k(2,4) by (auto simp: map_le_def)
  ultimately show ?thesis using keeps_mono by blast
qed

lemma eh_deallocate_ok:
  assumes st: "ok m e blocks" and a: "blocks a = Some k"
  shows "\<exists>m' e'. eh_deallocate cfg remove_memory (a + header_size) (m, e) = Some (Inr (m', e')) \<and>
    m_expanding e' = m_expanding e \<and> keeps cfg (blocks(a := None)) m m' \<and> ok m' e' (blocks(a := None))"
proof -
  let ?shs = "all_subheaps e"
  have "heaps_ok cfg m ?shs (blocks ++ own (m_expand e))" using st by (simp add: state_ok_def)
  from find_home [OF this blocks_and_own(1) [OF st a]] obtain i c where i: "i < length ?shs"
    and c: "c < m_total_chunks (sh_heap (?shs ! i))" "a = chunk_addr cfg (sh_heap (?shs ! i)) c"
    and f: "find_containing cfg (a + header_size) ?shs = Some i" by blast
  obtain m1 h' where d: "heap_deallocate cfg m (sh_heap (?shs ! i)) (a + header_size) = Inr (m1, h')"
    and k1: "keeps cfg (blocks(a := None)) m m1"
    and ok1: "ok m1 (with_subheaps e (?shs[i := (?shs ! i)\<lparr>sh_heap := h'\<rparr>])) (blocks(a := None))"
    using release_ok [OF st a i c] by blast
  define e1 where "e1 = with_subheaps e (?shs[i := (?shs ! i)\<lparr>sh_heap := h'\<rparr>])"
  have ptr: "header_size \<noteq> 0" by (simp add: header_size_def)
  show ?thesis
  proof (cases "m_allocated_chunks h' = 0 \<and> i \<noteq> 0 \<and> \<not> m_expanding e")
    case True
    let ?sh = "(?shs ! i)\<lparr>sh_heap := h'\<rparr>"
    have "?sh \<in> set (added e1)"
      using True i nth_in_tl [of i "?shs[i := ?sh]"] by (simp add: e1_def with_subheaps_def)
    then obtain m2 e2 where r: "remove_memory (sh_at ?sh) (m1, e1\<lparr>added := unlink_subheap (sh_at ?sh) (added e1)\<rparr>) =
        Some (Inr ((m2, e2), True))" "\<not> m_expanding e2" "ok m2 e2 (blocks(a := None))" "keeps cfg (blocks(a := None)) m1 m2"
      using remove_memory_ok [OF ok1 [folded e1_def], of ?sh] True by (auto simp: e1_def)
    then have "eh_deallocate cfg remove_memory (a + header_size) (m, e) = Some (Inr (m2, e2))"
      using f d ptr True by (simp add: eh_deallocate_def Let_def e1_def)
    then show ?thesis using r True keeps_trans [OF k1 r(4)] by simp
  next
    case False
    then have "eh_deallocate cfg remove_memory (a + header_size) (m, e) = Some (Inr (m1, e1))"
      using f d ptr by (auto simp: eh_deallocate_def Let_def e1_def)
    then show ?thesis using k1 ok1 by (simp add: e1_def)
  qed
qed

lemma eh_reallocate_ok:
  assumes st: "ok m e blocks" and b: "blocks a = Some k" and n: "new_size \<le> limit" and diff: "new_size \<noteq> k * CHUNK_SIZE cfg"
  shows "\<exists>m' e' ptr blocks'. eh_reallocate cfg add_memory (a + header_size) new_size (m, e) = Some (Inr ((m', e'), ptr)) \<and>
    m_expanding e' = m_expanding e \<and> handed_out cfg blocks new_size ptr blocks' \<and>
    ok m' e' (blocks'(a := None)) \<and> keeps cfg (blocks(a := None)) m m' \<and>
    (ptr \<noteq> 0 \<longrightarrow> (\<forall>j < min (k * CHUNK_SIZE cfg - header_size) new_size. m' (ptr + j) = m (a + header_size + j)))"
proof -
  let ?shs = "all_subheaps e"
  have hok: "heaps_ok cfg m ?shs (blocks ++ own (m_expand e))" using st by (simp add: state_ok_def)
  note B = blocks_and_own [OF st b]
  from find_home [OF hok B(1)] obtain i c where i: "i < length ?shs"
    and c: "c < m_total_chunks (sh_heap (?shs ! i))" "a = chunk_addr cfg (sh_heap (?shs ! i)) c"
    and f: "find_containing cfg (a + header_size) ?shs = Some i" and lim: "a + k * CHUNK_SIZE cfg < 2 ^ 32" by blast
  define h where "h = sh_heap (?shs ! i)"
  have si: "?shs ! i \<in> set ?shs" using i by simp
  note ptr = block_checks [OF hok si c B(1), folded h_def]
  obtain m1 e1 p blocks1 where al: "eh_allocate cfg add_memory new_size (m, e) = Some (Inr ((m1, e1), p))"
    and e1: "m_expanding e1 = m_expanding e" and k1: "keeps cfg blocks m m1" and h1: "handed_out cfg blocks new_size p blocks1"
    and ok1: "ok m1 e1 blocks1" and g1: "grown ?shs (all_subheaps e1)"
    using eh_allocate_ok [OF st n] by blast
  define m2 where "m2 = (if p \<noteq> 0 then memcpy m1 p (a + header_size) (min (k * CHUNK_SIZE cfg) new_size) else m1)"
  have b1: "blocks1 a = Some k" using h1 b by (auto simp: handed_out_def)
  have "m2 x = m1 x" if "p = 0 \<or> x < p \<or> p + new_size \<le> x" for x using that by (auto simp: m2_def memcpy_apply)
  from copy_into_new [OF ok1 h1 this] have ok2: "ok m2 e1 blocks1" and k2: "keeps cfg blocks m1 m2" by blast+
  obtain j where j: "j < length (all_subheaps e1)" "sh_at (all_subheaps e1 ! j) = sh_at (?shs ! i)"
    and gj: "\<exists>q. sh_heap (all_subheaps e1 ! j) = h\<lparr>m_allocated_chunks := q\<rparr>"
    using g1 si unfolding grown_def h_def by (metis in_set_conv_nth)
  have cj: "c < m_total_chunks (sh_heap (all_subheaps e1 ! j))" "a = chunk_addr cfg (sh_heap (all_subheaps e1 ! j)) c"
    using gj c h_def by auto
  obtain m3 h3 where d: "heap_deallocate cfg m2 (sh_heap (all_subheaps e1 ! j)) (a + header_size) = Inr (m3, h3)"
    and k3: "keeps cfg (blocks1(a := None)) m2 m3"
    and ok3: "ok m3 (with_subheaps e1 ((all_subheaps e1)[j := (all_subheaps e1 ! j)\<lparr>sh_heap := h3\<rparr>])) (blocks1(a := None))"
    using release_ok [OF ok2 b1 j(1) cj] by blast
  have "distinct (map sh_at (all_subheaps e1))" using ok2 by (simp add: state_ok_def heaps_ok_def)
  then have rel: "release_in cfg (sh_at (?shs ! i)) (a + header_size) (m2, e1) =
      Inr (m3, with_subheaps e1 ((all_subheaps e1)[j := (all_subheaps e1 ! j)\<lparr>sh_heap := h3\<rparr>]))"
    using d j by (simp add: release_in_def find_at [OF _ j(1)] map_at [OF _ j(1)] flip: j(2))
  have re: "eh_reallocate cfg add_memory (a + header_size) new_size (m, e) =
      Some (Inr ((m3, with_subheaps e1 ((all_subheaps e1)[j := (all_subheaps e1 ! j)\<lparr>sh_heap := h3\<rparr>])), p))"
    using f ptr al rel by (cases "p = 0") (simp_all add: eh_reallocate_def Let_def h_def [symmetric] m2_def not_sym [OF diff])
  have kk: "keeps cfg (blocks(a := None)) m m3"
  proof -
    have "blocks(a := None) \<subseteq>\<^sub>m blocks" "blocks(a := None) \<subseteq>\<^sub>m blocks1(a := None)"
      using h1 by (auto simp: map_le_def handed_out_def split: if_splits)
    then show ?thesis using keeps_mono [OF k1] keeps_mono [OF k2] keeps_mono [OF k3] keeps_trans by blast
  qed
  have "m3 (p + l) = m (a + header_size + l)" if pl: "p \<noteq> 0" "l < min (k * CHUNK_SIZE cfg - header_size) new_size" for l
  proof -
    obtain k' where k': "header_size \<le> p" "blocks (p - header_size) = None" "new_size + header_size \<le> k' * CHUNK_SIZE cfg"
      "blocks1 = blocks(p - header_size \<mapsto> k')" using h1 pl(1) by (auto simp: handed_out_def)
    then have "(blocks1(a := None)) (p - header_size) = Some k'" using b by auto
    then have "m3 (p + l) = m2 (p + l)" using k3 k'(1,3) pl(2) unfolding keeps_def by fastforce
    moreover have "m2 (p + l) = m1 (a + header_size + l)" using pl by (auto simp: m2_def memcpy_apply)
    moreover have "m1 (a + header_size + l) = m (a + header_size + l)" using k1 b pl(2) unfolding keeps_def by fastforce
    ultimately show ?thesis by simp
  qed
  then show ?thesis using re e1 h1 ok3 kk by (intro exI conjI) auto
qed

end

section \<open>The default policy\<close>

text \<open>With \<^verbatim>\<open>DefaultExpandHeap\<close> there is only the main heap.\<close>

definition default_limit :: nat where
  "default_limit = 0x7fffffff"

interpretation fixed_heap: heap_expansion small_config default_add_memory default_remove_memory
  "\<lambda>_. Map.empty" "\<lambda>_ e. added e = []" default_limit
proof unfold_locales
  show "default_limit + header_size + CHUNK_SIZE small_config < 2 ^ 32"
    by (simp add: default_limit_def header_size_def small_config_def)
  show "added e' = []" if "added e = []" "same_places (all_subheaps e) (all_subheaps e')" for e e' :: "'x expandable_heap"
    using that by (simp add: same_places_def all_subheaps_def)
qed (auto simp: default_add_memory_def state_ok_def)

section \<open>A rejected removal\<close>

lemma heap_construct_fits: "heap_construct cfg memory n =
    Inr \<lparr>m_total_chunks = calculate_chunks cfg n, m_allocated_chunks = 0, m_chunks = memory,
      m_bitmap = \<lparr>m_data = memory + calculate_chunks cfg n * CHUNK_SIZE cfg, m_size = calculate_chunks cfg n\<rparr>\<rparr>"
proof -
  let ?t = "calculate_chunks cfg n"
  have "?t * (CHUNK_SIZE cfg + 1) \<le> n" unfolding calculate_chunks_def by (rule div_times_less_eq_dividend)
  moreover have "(?t + 7) div 8 \<le> ?t" by (cases ?t) auto
  ultimately have "?t * CHUNK_SIZE cfg + (?t + 7) div 8 \<le> n" by (simp add: algebra_simps)
  then show ?thesis by (simp add: heap_construct_def Let_def)
qed

text \<open>
  C40.  When the policy refuses to take an emptied heap back, as the default policy always does, \<^verbatim>\<open>deallocate\<close> adds
  the memory again with the size it recorded for it, from which the size of the bookkeeping was already
  subtracted: the heap comes back with 28 bytes less, each time it is emptied.
\<close>

theorem rejected_heap_shrinks:
  assumes "find_containing cfg ptr (all_subheaps e) = Some i" and "ptr \<noteq> 0" and "i \<noteq> 0" and "\<not> m_expanding e"
    and "heap_deallocate cfg m (sh_heap (all_subheaps e ! i)) ptr = Inr (m', h)" and "m_allocated_chunks h = 0"
    and "sizeof_SubHeap < memory_size (all_subheaps e ! i)"
  shows "\<exists>e'. eh_deallocate cfg default_remove_memory ptr (m, e) = Some (Inr (m', e')) \<and>
    (\<exists>sh \<in> set (added e'). sh_at sh = sh_at (all_subheaps e ! i) \<and> memory_size sh = memory_size (all_subheaps e ! i) - 28)"
proof -
  let ?sh = "all_subheaps e ! i"
  define e1 where "e1 = with_subheaps e ((all_subheaps e)[i := ?sh\<lparr>sh_heap := h\<rparr>])"
  define e2 where "e2 = e1\<lparr>added := unlink_subheap (sh_at ?sh) (added e1)\<rparr>"
  define sh' where "sh' = \<lparr>sh_heap = projr (heap_construct cfg (sh_at ?sh + sizeof_SubHeap) (memory_size ?sh - sizeof_SubHeap)),
      memory_size = memory_size ?sh - sizeof_SubHeap, sh_at = sh_at ?sh\<rparr>"
  have "add_subheap cfg (sh_at ?sh) (memory_size ?sh) e2 = Inr (e2\<lparr>added := link_subheap sh' (added e2)\<rparr>)"
    using assms(7) by (simp add: add_subheap_def heap_construct_fits sh'_def Let_def)
  then have "eh_deallocate cfg default_remove_memory ptr (m, e) = Some (Inr (m', e2\<lparr>added := link_subheap sh' (added e2)\<rparr>))"
    using assms(1-6) by (simp add: eh_deallocate_def default_remove_memory_def Let_def e1_def [symmetric] e2_def [symmetric])
  moreover have "sh_at sh' = sh_at ?sh" "memory_size sh' = memory_size ?sh - 28" by (simp_all add: sh'_def sizeof_SubHeap_def)
  ultimately show ?thesis by (auto simp: set_link_subheap)
qed

definition rejecting_heap :: "unit expandable_heap" where
  "rejecting_heap = \<lparr>m_heaps = \<lparr>sh_heap = small_heap, memory_size = 991, sh_at = 64\<rparr>,
     added = [\<lparr>sh_heap = \<lparr>m_total_chunks = 3, m_allocated_chunks = 1, m_chunks = 8220, m_bitmap = \<lparr>m_data = 8316, m_size = 3\<rparr>\<rparr>,
       memory_size = 99, sh_at = 8192\<rparr>],
     m_expand = (), m_expanding = False\<rparr>"

lemma one_block_ok:
  "heap_ok small_config ((\<lambda>_. 0)(8220 := 1, 8316 := 1)) (sh_heap (all_subheaps rejecting_heap ! 1)) [0 \<mapsto> 1]"
proof -
  let ?m = "(\<lambda>_. 0)(8220 := 1, 8316 := 1) :: mem" and ?h = "sh_heap (all_subheaps rejecting_heap ! 1)"
  have "bit_at ?m (m_bitmap ?h) i = (i = 0)" if "i < 3" for i
    using that by (simp add: bit_at_def rejecting_heap_def all_subheaps_def bit_1_iff)
  moreover have "load32 ?m 8220 = 1" by (simp add: load32_def)
  moreover have "{i :: nat. i = 0 \<and> i < 3} = {0}" by auto
  ultimately show ?thesis
    by (auto simp: heap_ok_def heap_shape_def live_ok_def bitmap_ok_def chunk_used_def rejecting_heap_def all_subheaps_def small_config_def
        header_size_def heap_end_def chunk_addr_def split: if_splits)
qed

theorem rejected_heap_shrinks_witness:
  "\<exists>m' e'. eh_deallocate small_config default_remove_memory 8224 ((\<lambda>_. 0)(8220 := 1, 8316 := 1), rejecting_heap) = Some (Inr (m', e')) \<and>
     (\<exists>sh \<in> set (added e'). sh_at sh = 8192 \<and> memory_size sh = 71)"
proof -
  let ?m = "(\<lambda>_. 0)(8220 := 1, 8316 := 1) :: mem" and ?sh = "all_subheaps rejecting_heap ! 1"
  have "find_containing small_config 8224 (all_subheaps rejecting_heap) = Some 1"
    by (simp add: all_subheaps_def rejecting_heap_def heap_contains_def small_config_def small_heap_def heap_end_def header_size_def size_sub_def)
  moreover obtain m' h where "heap_deallocate small_config ?m (sh_heap ?sh) 8224 = Inr (m', h)" "m_allocated_chunks h = 0"
    using deallocate_result [OF one_block_ok, of 0 1] by (auto simp: rejecting_heap_def all_subheaps_def chunk_addr_def header_size_def)
  ultimately show ?thesis
    using rejected_heap_shrinks [of small_config 8224 rejecting_heap 1 ?m m' h]
    by (auto simp: rejecting_heap_def all_subheaps_def sizeof_SubHeap_def)
qed

end
