(* ===== verification/Kmalloc.thy ===== *)
theory Kmalloc
  imports Expandable_Heap Alignment
begin

text \<open>
  \<^verbatim>\<open>Kernel/Heap/kmalloc.cpp\<close>: the global heap of the kernel.  Its policy \<^verbatim>\<open>ExpandGlobalHeap\<close> keeps one region
  of memory in reserve, because at the moment the heap needs to grow nothing can be allocated any
  more; it adds that region as a heap, asks for a new reserve later, and takes the memory of empty
  heaps back.  The memory manager is a parameter: a function from the requested size and the state
  to the memory and a fresh region, if there is one.
\<close>

section \<open>State\<close>

record region =
  region_vaddr :: nat
  region_size :: nat

datatype deferred_call = Allocate_backup | Release_region region

text \<open>
  \<^verbatim>\<open>m_subheap_memory\<close> is a vector; the block that holds its elements is at \<open>m_outline_buffer\<close>.  Calls
  given to \<^verbatim>\<open>deferred_call_queue\<close> wait in \<open>deferred\<close>.
\<close>

record kmalloc_global =
  m_adding :: bool
  m_subheap_memory :: "region list"
  m_outline_buffer :: nat
  m_capacity :: nat
  m_backup_memory :: "region option"
  deferred :: "deferred_call list"
  g_kmalloc_call_count :: nat
  g_kfree_call_count :: nat

type_synonym kheap = "kmalloc_global expandable_heap"

type_synonym 'a krun = "((mem \<times> kheap) \<times> 'a) res option"

type_synonym region_source = "nat \<Rightarrow> mem \<times> kheap \<Rightarrow> mem \<times> region option"

definition kmalloc_config :: heap_config where
  "kmalloc_config = \<lparr>CHUNK_SIZE = 32, HEAP_SCRUB_BYTE_ALLOC = 0xbb, HEAP_SCRUB_BYTE_FREE = 0xaa\<rparr>"

abbreviation (input) MiB :: nat where "MiB \<equiv> 0x100000"

abbreviation update_global :: "(kmalloc_global \<Rightarrow> kmalloc_global) \<Rightarrow> kheap \<Rightarrow> kheap" where
  "update_global f e \<equiv> e\<lparr>m_expand := f (m_expand e)\<rparr>"

section \<open>Allocation and release\<close>

definition kmalloc :: "(nat \<Rightarrow> mem \<times> kheap \<Rightarrow> bool krun) \<Rightarrow> nat \<Rightarrow> mem \<times> kheap \<Rightarrow> nat krun" where
  "kmalloc add_memory n = (\<lambda>(m, e).
     let e = update_global (g_kmalloc_call_count_update (\<lambda>k. size_add k 1)) e in
     bind_run (eh_allocate kmalloc_config add_memory n (m, e)) (\<lambda>(st, ptr).
       if ptr = 0 then Some (Inl Panicked) else Some (Inr (st, ptr))))"

definition kfree :: "(nat \<Rightarrow> mem \<times> kheap \<Rightarrow> bool krun) \<Rightarrow> nat \<Rightarrow> mem \<times> kheap \<Rightarrow> (mem \<times> kheap) res option" where
  "kfree remove_memory ptr = (\<lambda>(m, e).
     if ptr = 0 then Some (Inr (m, e))
     else eh_deallocate kmalloc_config remove_memory ptr
            (m, update_global (g_kfree_call_count_update (\<lambda>k. size_add k 1)) e))"

definition krealloc :: "(nat \<Rightarrow> mem \<times> kheap \<Rightarrow> bool krun) \<Rightarrow> nat \<Rightarrow> nat \<Rightarrow> mem \<times> kheap \<Rightarrow> nat krun" where
  "krealloc add_memory ptr new_size st = eh_reallocate kmalloc_config add_memory ptr new_size st"

section \<open>The policy\<close>

text \<open>
  Growing the vector calls \<^verbatim>\<open>kmalloc\<close> and \<^verbatim>\<open>kfree\<close> while the heap is being expanded.  The heap then neither
  expands again nor removes memory, so the policy handed to these calls is never asked.
\<close>

definition no_policy :: "nat \<Rightarrow> mem \<times> kheap \<Rightarrow> bool krun" where
  "no_policy n st = None"

definition padded_capacity :: "nat \<Rightarrow> nat" where
  "padded_capacity capacity = max 4 (size_add (size_add capacity (capacity div 4)) 4)"

definition grow_regions :: "mem \<times> kheap \<Rightarrow> (mem \<times> kheap) res option" where
  "grow_regions st =
     (let x = m_expand (snd st); needed = length (m_subheap_memory x) + 1 in
      if needed \<le> m_capacity x then Some (Inr st)
      else
        (let new_capacity = padded_capacity needed in
         bind_run (kmalloc no_policy (size_mul new_capacity 4) st) (\<lambda>(st, new_buffer).
           bind_run (if m_outline_buffer x \<noteq> 0 then kfree no_policy (m_outline_buffer x) st else Some (Inr st)) (\<lambda>(m, e).
             Some (Inr (m, update_global (\<lambda>x. x\<lparr>m_outline_buffer := new_buffer, m_capacity := new_capacity\<rparr>) e))))))"

definition append_region :: "region \<Rightarrow> mem \<times> kheap \<Rightarrow> (mem \<times> kheap) res option" where
  "append_region r st =
     bind_run (grow_regions st) (\<lambda>(m, e).
       Some (Inr (m, update_global (m_subheap_memory_update (\<lambda>rs. rs @ [r])) e)))"

text \<open>Adding a region: as a heap, and to the vector.\<close>

definition use_region :: "region \<Rightarrow> mem \<times> kheap \<Rightarrow> (mem \<times> kheap) res option" where
  "use_region r = (\<lambda>(m, e).
     bind_run (Some (add_subheap kmalloc_config (region_vaddr r) (region_size r) e)) (\<lambda>e. append_region r (m, e)))"

definition free_bytes_at :: "nat \<Rightarrow> kheap \<Rightarrow> nat" where
  "free_bytes_at a e =
     (case List.find (\<lambda>sh. sh_at sh = a) (added e) of
        None \<Rightarrow> 0
      | Some sh \<Rightarrow> size_mul (free_chunks (sh_heap sh)) (CHUNK_SIZE kmalloc_config))"

definition finish_adding :: "bool \<Rightarrow> mem \<times> kheap \<Rightarrow> bool krun" where
  "finish_adding b = (\<lambda>(m, e).
     Some (Inr ((m, update_global (\<lambda>x. x\<lparr>deferred := deferred x @ [Allocate_backup], m_adding := False\<rparr>) e), b)))"

definition add_memory :: "bool \<Rightarrow> region_source \<Rightarrow> nat \<Rightarrow> mem \<times> kheap \<Rightarrow> bool krun" where
  "add_memory mm_initialized mm allocation_request = (\<lambda>(m, e).
     if \<not> mm_initialized then Some (Inr ((m, e), False))
     else if m_adding (m_expand e) then Some (Inl Verify_failed)
     else
       (case m_backup_memory (m_expand e) of
          None \<Rightarrow> Some (Inr ((m, e), False))
        | Some r \<Rightarrow>
            (let e = update_global (\<lambda>x. x\<lparr>m_adding := True, m_backup_memory := None\<rparr>) e in
             bind_run (use_region r (m, e)) (\<lambda>(m, e).
               if free_bytes_at (region_vaddr r) e < allocation_request
               then
                 bind_run (Some (page_round_up (eh_calculate_memory_for_bytes kmalloc_config allocation_request))) (\<lambda>n.
                   (case mm (size_add n MiB) (m, e) of
                      (m, Some r) \<Rightarrow> bind_run (use_region r (m, e)) (finish_adding True)
                    | (m, None) \<Rightarrow> finish_adding False (m, e)))
               else finish_adding True (m, e)))))"

fun take_region :: "nat \<Rightarrow> region list \<Rightarrow> (region \<times> region list) option" where
  "take_region a [] = None"
| "take_region a (r # rs) =
     (if region_vaddr r = a then Some (r, rs) else map_option (\<lambda>(r', rs). (r', r # rs)) (take_region a rs))"

definition remove_memory :: "nat \<Rightarrow> mem \<times> kheap \<Rightarrow> bool krun" where
  "remove_memory memory = (\<lambda>(m, e).
     (case take_region memory (m_subheap_memory (m_expand e)) of
        None \<Rightarrow> Some (Inr ((m, e), False))
      | Some (r, rs) \<Rightarrow>
          Some (Inr ((m, update_global (\<lambda>x. let x = x\<lparr>m_subheap_memory := rs\<rparr> in
              if m_backup_memory x = None then x\<lparr>m_backup_memory := Some r\<rparr>
              else x\<lparr>deferred := deferred x @ [Release_region r]\<rparr>) e), True))))"

definition allocate_backup_memory :: "region_source \<Rightarrow> mem \<times> kheap \<Rightarrow> mem \<times> kheap" where
  "allocate_backup_memory mm = (\<lambda>(m, e).
     if m_backup_memory (m_expand e) \<noteq> None then (m, e)
     else (case mm MiB (m, e) of (m, r) \<Rightarrow> (m, update_global (m_backup_memory_update (\<lambda>_. r)) e)))"

definition kmalloc_enable_expand :: "region_source \<Rightarrow> mem \<times> kheap \<Rightarrow> mem \<times> kheap" where
  "kmalloc_enable_expand mm st = allocate_backup_memory mm st"

text \<open>Running the first deferred call; a region that is not kept as the reserve is given back.\<close>

definition run_deferred :: "region_source \<Rightarrow> mem \<times> kheap \<Rightarrow> mem \<times> kheap" where
  "run_deferred mm = (\<lambda>(m, e).
     (case deferred (m_expand e) of
        [] \<Rightarrow> (m, e)
      | d # ds \<Rightarrow>
          (let e = update_global (deferred_update (\<lambda>_. ds)) e in
           (case d of
              Allocate_backup \<Rightarrow> allocate_backup_memory mm (m, e)
            | Release_region r \<Rightarrow>
                (m, if m_backup_memory (m_expand e) = None then update_global (m_backup_memory_update (\<lambda>_. Some r)) e
                    else e)))))"

definition kmalloc_init :: "nat \<Rightarrow> nat \<Rightarrow> nat \<Rightarrow> mem \<Rightarrow> (mem \<times> kheap) res" where
  "kmalloc_init this_at pool eternal m =
     (let m = memset m eternal 0 (2 * MiB); m = memset m pool 0 (2 * MiB) in
      bind_res (eh_construct kmalloc_config this_at pool (2 * MiB)
          \<lparr>m_adding = False, m_subheap_memory = [], m_outline_buffer = 0, m_capacity = 0, m_backup_memory = None,
           deferred = [], g_kmalloc_call_count = 0, g_kfree_call_count = 0\<rparr>) (\<lambda>e. Inr (m, e)))"

definition backup_memory_bytes :: "kheap \<Rightarrow> nat" where
  "backup_memory_bytes e = (case m_backup_memory (m_expand e) of None \<Rightarrow> 0 | Some r \<Rightarrow> region_size r)"

record kmalloc_stats =
  bytes_allocated :: nat
  bytes_free :: nat
  bytes_eternal :: nat
  kmalloc_call_count :: nat
  kfree_call_count :: nat

definition get_kmalloc_stats :: "nat \<Rightarrow> kheap \<Rightarrow> kmalloc_stats" where
  "get_kmalloc_stats g_kmalloc_bytes_eternal e =
     \<lparr>bytes_allocated = size_mul (eh_allocated_chunks e) (CHUNK_SIZE kmalloc_config),
      bytes_free = size_add (size_mul (eh_free_chunks e) (CHUNK_SIZE kmalloc_config)) (backup_memory_bytes e),
      bytes_eternal = g_kmalloc_bytes_eternal,
      kmalloc_call_count = g_kmalloc_call_count (m_expand e),
      kfree_call_count = g_kfree_call_count (m_expand e)\<rparr>"

section \<open>Regions\<close>

definition extent :: "region \<Rightarrow> nat set" where
  "extent r = {region_vaddr r ..< region_vaddr r + region_size r}"

definition region_ok :: "region \<Rightarrow> bool" where
  "region_ok r \<longleftrightarrow> 0 < region_vaddr r \<and> MiB \<le> region_size r \<and> region_vaddr r + region_size r + 1 < 2 ^ 32"

text \<open>The heap that a region holds, with nothing allocated.\<close>

definition region_heap :: "region \<Rightarrow> heap" where
  "region_heap r =
     (let t = (region_size r - sizeof_SubHeap) div 33; a = region_vaddr r + sizeof_SubHeap
      in \<lparr>m_total_chunks = t, m_allocated_chunks = 0, m_chunks = a, m_bitmap = \<lparr>m_data = a + t * 32, m_size = t\<rparr>\<rparr>)"

definition ready :: "mem \<Rightarrow> region \<Rightarrow> bool" where
  "ready m r \<longleftrightarrow> heap_ok kmalloc_config m (region_heap r) (\<lambda>_. None)"

lemma kmalloc_CHUNK_SIZE [simp]: "CHUNK_SIZE kmalloc_config = 32"
  by (simp add: kmalloc_config_def)

lemma region_heap_bounds:
  assumes "region_ok r"
  shows "31774 \<le> m_total_chunks (region_heap r)"
    and "m_chunks (region_heap r) = region_vaddr r + sizeof_SubHeap"
    and "heap_end kmalloc_config (region_heap r) + m_total_chunks (region_heap r) \<le> region_vaddr r + region_size r"
proof -
  let ?t = "(region_size r - sizeof_SubHeap) div 33"
  have "1048548 \<le> region_size r - sizeof_SubHeap" using assms unfolding region_ok_def sizeof_SubHeap_def by linarith
  then have "1048548 div 33 \<le> ?t" by (rule div_le_mono)
  then show "31774 \<le> m_total_chunks (region_heap r)" by (simp add: region_heap_def Let_def)
  show "m_chunks (region_heap r) = region_vaddr r + sizeof_SubHeap" by (simp add: region_heap_def Let_def)
  have "?t * 33 \<le> region_size r - sizeof_SubHeap" by (rule div_times_less_eq_dividend)
  moreover have "sizeof_SubHeap \<le> region_size r" using assms by (simp add: region_ok_def sizeof_SubHeap_def)
  ultimately show "heap_end kmalloc_config (region_heap r) + m_total_chunks (region_heap r) \<le> region_vaddr r + region_size r"
    by (simp add: region_heap_def Let_def heap_end_def)
qed

lemma region_heap_footprint: "region_ok r \<Longrightarrow> footprint kmalloc_config (region_heap r) \<subseteq> extent r"
proof -
  assume r: "region_ok r"
  have "(t + 7) div 8 \<le> t" for t :: nat by (cases t) auto
  then have "heap_end kmalloc_config (region_heap r) + (m_total_chunks (region_heap r) + 7) div 8 \<le> region_vaddr r + region_size r"
    using region_heap_bounds(3) [OF r] by (meson add_left_mono le_trans)
  then show ?thesis using region_heap_bounds(2) [OF r] by (auto simp: footprint_def extent_def)
qed

lemma region_construct:
  assumes "region_ok r"
  shows "add_subheap kmalloc_config (region_vaddr r) (region_size r) e =
    Inr (e\<lparr>added := link_subheap \<lparr>sh_heap = region_heap r, memory_size = region_size r - sizeof_SubHeap,
      sh_at = region_vaddr r\<rparr> (added e)\<rparr>)"
proof -
  let ?n = "region_size r - sizeof_SubHeap"
  have "?n div 33 * 33 \<le> ?n" by (rule div_times_less_eq_dividend)
  moreover have "(?n div 33 + 7) div 8 \<le> ?n div 33" by (cases "?n div 33") auto
  ultimately have "?n div 33 * 32 + (?n div 33 + 7) div 8 \<le> ?n" by linarith
  moreover have "sizeof_SubHeap < region_size r" using assms by (simp add: region_ok_def sizeof_SubHeap_def)
  ultimately show ?thesis
    by (simp add: add_subheap_def heap_construct_def calculate_chunks_def region_heap_def Let_def)
qed

lemma zeroed_ready:
  assumes "region_ok r" and "\<And>x. x \<in> extent r \<Longrightarrow> m x = 0"
  shows "ready m r"
proof -
  let ?h = "region_heap r"
  have "heap_end kmalloc_config ?h + m_total_chunks ?h + 1 < 2 ^ 32"
    using region_heap_bounds(3) [OF assms(1)] assms(1) unfolding region_ok_def by linarith
  then have shape: "heap_shape kmalloc_config ?h"
    using div_le_dividend [of "m_total_chunks ?h" 8] unfolding heap_shape_def
    by (simp add: header_size_def region_heap_def Let_def heap_end_def)
  have "\<not> bit_at m (m_bitmap ?h) i" if "i < m_total_chunks ?h" for i
  proof -
    have "i div 8 < (m_total_chunks ?h + 7) div 8" using that by linarith
    moreover have "m_chunks ?h \<le> heap_end kmalloc_config ?h" by (simp add: heap_end_def)
    ultimately have "heap_end kmalloc_config ?h + i div 8 \<in> extent r"
      using region_heap_footprint [OF assms(1)] by (auto simp: footprint_def)
    then show ?thesis using assms(2) heap_bitmap [OF shape] by (simp add: bit_at_def)
  qed
  moreover have "m_allocated_chunks ?h = 0" by (simp add: region_heap_def Let_def)
  ultimately show ?thesis using shape by (simp add: ready_def heap_ok_def live_ok_def bitmap_ok_def chunk_used_def)
qed

lemma ready_cong: "ready m r \<Longrightarrow> region_ok r \<Longrightarrow> (\<And>x. x \<in> extent r \<Longrightarrow> m' x = m x) \<Longrightarrow> ready m' r"
  unfolding ready_def using region_heap_footprint by (auto intro: heap_ok_footprint [of kmalloc_config m])

text \<open>There is room for at most 4096 regions.\<close>

definition regions_apart :: "region list \<Rightarrow> bool" where
  "regions_apart rs \<longleftrightarrow> (\<forall>r \<in> set rs. region_ok r) \<and> distinct (map region_vaddr rs) \<and>
     (\<forall>r \<in> set rs. \<forall>s \<in> set rs. region_vaddr r \<noteq> region_vaddr s \<longrightarrow> extent r \<inter> extent s = {})"

lemma region_count:
  assumes "regions_apart rs"
  shows "length rs \<le> 4096"
proof -
  have "distinct rs" "inj_on region_vaddr (set rs)" using assms by (auto simp: regions_apart_def distinct_map)
  then have "extent r \<inter> extent s = {}" if "r \<in> set rs" "s \<in> set rs" "r \<noteq> s" for r s
    using that assms unfolding regions_apart_def by (meson inj_onD)
  then have "card (\<Union>r \<in> set rs. extent r) = (\<Sum>r \<in> set rs. card (extent r))"
    by (intro card_UN_disjoint) (auto simp: extent_def)
  also have "\<dots> \<ge> (\<Sum>r \<in> set rs. MiB)" using assms by (intro sum_mono) (simp add: regions_apart_def region_ok_def extent_def)
  finally have "length rs * MiB \<le> card (\<Union>r \<in> set rs. extent r)" using \<open>distinct rs\<close> by (simp add: distinct_card)
  also have "\<dots> \<le> card {..<2 ^ 32 :: nat}"
    using assms by (intro card_mono) (auto simp: regions_apart_def region_ok_def extent_def)
  finally show ?thesis by simp
qed

section \<open>The vector of regions\<close>

text \<open>The block of the vector's elements.\<close>

definition vector_block :: "kmalloc_global \<Rightarrow> live_map" where
  "vector_block x =
     (if m_outline_buffer x = 0 then Map.empty
      else [m_outline_buffer x - header_size \<mapsto> chunks_needed kmalloc_config (m_capacity x * 4)])"

definition vector_ok :: "kmalloc_global \<Rightarrow> bool" where
  "vector_ok x \<longleftrightarrow> length (m_subheap_memory x) \<le> m_capacity x \<and> m_capacity x \<le> 7000 \<and>
     (m_outline_buffer x = 0 \<longrightarrow> m_capacity x = 0) \<and> (m_outline_buffer x \<noteq> 0 \<longrightarrow> header_size \<le> m_outline_buffer x)"

lemma vector_block_fields [simp]:
  "vector_block (m_subheap_memory_update f x) = vector_block x" "vector_block (m_backup_memory_update g x) = vector_block x"
  "vector_block (deferred_update h x) = vector_block x" "vector_block (m_adding_update b x) = vector_block x"
  "vector_block (g_kmalloc_call_count_update k x) = vector_block x" "vector_block (g_kfree_call_count_update k x) = vector_block x"
  by (simp_all add: vector_block_def)

lemma all_update_global [simp]: "all_subheaps (e\<lparr>m_expand := x\<rparr>) = all_subheaps e"
  by (simp add: all_subheaps_def)

lemma with_subheaps_global [simp]: "with_subheaps (e\<lparr>m_expand := x\<rparr>) shs = (with_subheaps e shs)\<lparr>m_expand := x\<rparr>"
  by (simp add: with_subheaps_def)

lemma kmalloc_found:
  assumes "first_allocation kmalloc_config n m (all_subheaps e) = Some (Inr (m', shs, ptr))" and "ptr \<noteq> 0"
  shows "kmalloc policy n (m, e) =
    Some (Inr ((m', with_subheaps (update_global (g_kmalloc_call_count_update (\<lambda>k. size_add k 1)) e) shs), ptr))"
  using assms by (simp add: kmalloc_def eh_allocate_def eh_allocate_loop.simps Let_def)

lemma kfree_expanding:
  assumes "find_containing kmalloc_config ptr (all_subheaps e) = Some i" and "ptr \<noteq> 0" and "m_expanding e"
    and "heap_deallocate kmalloc_config m (sh_heap (all_subheaps e ! i)) ptr = Inr (m', h')"
  shows "kfree policy ptr (m, e) =
    Some (Inr (m', with_subheaps (update_global (g_kfree_call_count_update (\<lambda>k. size_add k 1)) e)
      ((all_subheaps e)[i := (all_subheaps e ! i)\<lparr>sh_heap := h'\<rparr>])))"
  using assms by (simp add: kfree_def eh_deallocate_def Let_def)

text \<open>The fields of the policy that growing the vector leaves alone.\<close>

definition same_regions :: "kmalloc_global \<Rightarrow> kmalloc_global \<Rightarrow> bool" where
  "same_regions x x' \<longleftrightarrow> m_adding x' = m_adding x \<and> m_subheap_memory x' = m_subheap_memory x \<and>
     m_backup_memory x' = m_backup_memory x \<and> deferred x' = deferred x"

lemma padded_capacity_bounds: "n \<le> 5000 \<Longrightarrow> n \<le> padded_capacity n \<and> 4 \<le> padded_capacity n \<and> padded_capacity n \<le> 7000"
  by (auto simp: padded_capacity_def size_add_id)

lemma nested_kmalloc:
  assumes ok: "heaps_ok kmalloc_config m (all_subheaps e) B" and n: "n \<le> 28000"
    and room: "\<exists>sh \<in> set (all_subheaps e). \<not> no_room (sh_heap sh) (live_in kmalloc_config (sh_heap sh) B) (chunks_needed kmalloc_config n)"
  obtains m' e' ptr where "kmalloc policy n (m, e) = Some (Inr ((m', e'), ptr))" and "header_size \<le> ptr"
    and "B (ptr - header_size) = None"
    and "heaps_ok kmalloc_config m' (all_subheaps e') (B(ptr - header_size \<mapsto> chunks_needed kmalloc_config n))"
    and "same_places (all_subheaps e) (all_subheaps e')" and "keeps kmalloc_config B m m'"
    and "\<And>x. x \<notin> all_bytes kmalloc_config (all_subheaps e) \<Longrightarrow> m' x = m x"
    and "m_expand e' = g_kmalloc_call_count_update (\<lambda>k. size_add k 1) (m_expand e)" and "m_expanding e' = m_expanding e"
proof -
  let ?cfg = kmalloc_config
  have small: "n + header_size + CHUNK_SIZE ?cfg < 2 ^ 32" using n by (simp add: header_size_def)
  obtain m1 shs ptr where f: "first_allocation ?cfg n m (all_subheaps e) = Some (Inr (m1, shs, ptr))"
    and same: "same_places (all_subheaps e) shs" and k1: "keeps ?cfg B m m1"
    and out1: "\<And>x. x \<notin> all_bytes ?cfg (all_subheaps e) \<Longrightarrow> m1 x = m x"
    and r: "ptr = 0 \<and> m1 = m \<and> shs = all_subheaps e \<and>
        (\<forall>sh \<in> set (all_subheaps e). no_room (sh_heap sh) (live_in ?cfg (sh_heap sh) B) (chunks_needed ?cfg n)) \<or>
      (\<exists>k. k = chunks_needed ?cfg n \<and> header_size \<le> ptr \<and> B (ptr - header_size) = None \<and>
        n + header_size \<le> k * CHUNK_SIZE ?cfg \<and> heaps_ok ?cfg m1 shs (B(ptr - header_size \<mapsto> k)))"
    by (rule try_allocate [OF ok small]) blast
  then have ptr: "header_size \<le> ptr"
    and new: "B (ptr - header_size) = None" "heaps_ok ?cfg m1 shs (B(ptr - header_size \<mapsto> chunks_needed ?cfg n))"
    using room by blast+
  have "ptr \<noteq> 0" "shs \<noteq> []" using ptr same_places_Nil [OF same] by (auto simp: header_size_def)
  with that [OF kmalloc_found [OF f]] ptr new same k1 out1 show thesis by simp
qed

lemma nested_kfree:
  assumes ok: "heaps_ok kmalloc_config m (all_subheaps e) B" and a: "B a = Some k" and ex: "m_expanding e"
  obtains m' e' where "kfree policy (a + header_size) (m, e) = Some (Inr (m', e'))"
    and "heaps_ok kmalloc_config m' (all_subheaps e') (B(a := None))"
    and "same_places (all_subheaps e) (all_subheaps e')" and "keeps kmalloc_config (B(a := None)) m m'"
    and "\<And>x. x \<notin> all_bytes kmalloc_config (all_subheaps e) \<Longrightarrow> m' x = m x"
    and "m_expand e' = g_kfree_call_count_update (\<lambda>k. size_add k 1) (m_expand e)" and "m_expanding e' = m_expanding e"
proof -
  let ?cfg = kmalloc_config and ?shs = "all_subheaps e"
  obtain i c where i: "i < length ?shs" and c: "c < m_total_chunks (sh_heap (?shs ! i))" "a = chunk_addr ?cfg (sh_heap (?shs ! i)) c"
    and fc: "find_containing ?cfg (a + header_size) ?shs = Some i" using find_home [OF ok a] by blast
  obtain m2 h' where d: "heap_deallocate ?cfg m (sh_heap (?shs ! i)) (a + header_size) = Inr (m2, h')"
    and hok: "heaps_ok ?cfg m2 (?shs[i := (?shs ! i)\<lparr>sh_heap := h'\<rparr>]) (B(a := None))"
    and k2: "keeps ?cfg (B(a := None)) m m2" and h': "h' = (sh_heap (?shs ! i))\<lparr>m_allocated_chunks := m_allocated_chunks h'\<rparr>"
    and out2: "\<And>x. x \<notin> footprint ?cfg (sh_heap (?shs ! i)) \<Longrightarrow> m2 x = m x"
    using release_in_list [OF ok i c a] by blast
  have "m2 x = m x" if "x \<notin> all_bytes ?cfg ?shs" for x using that i by (intro out2) (auto simp: all_bytes_def)
  with that [OF kfree_expanding [OF fc _ ex d]] hok k2 same_places_update [OF i h'] show thesis by (simp add: header_size_def)
qed

lemma grow_regions_ok:
  assumes ok: "heaps_ok kmalloc_config m (all_subheaps e) (blocks ++ vector_block (m_expand e))"
    and disj: "dom blocks \<inter> dom (vector_block (m_expand e)) = {}" and vec: "vector_ok (m_expand e)" and ex: "m_expanding e"
    and len: "length (m_subheap_memory (m_expand e)) \<le> 4096"
    and room: "\<And>n. n \<le> 28000 \<Longrightarrow> \<exists>sh \<in> set (all_subheaps e).
      \<not> no_room (sh_heap sh) (live_in kmalloc_config (sh_heap sh) (blocks ++ vector_block (m_expand e))) (chunks_needed kmalloc_config n)"
  obtains m' e' where "grow_regions (m, e) = Some (Inr (m', e'))"
    and "heaps_ok kmalloc_config m' (all_subheaps e') (blocks ++ vector_block (m_expand e'))"
    and "dom blocks \<inter> dom (vector_block (m_expand e')) = {}" and "vector_ok (m_expand e')" and "m_expanding e'"
    and "length (m_subheap_memory (m_expand e')) < m_capacity (m_expand e')"
    and "same_places (all_subheaps e) (all_subheaps e')" and "same_regions (m_expand e) (m_expand e')"
    and "keeps kmalloc_config blocks m m'" and "\<And>x. x \<notin> all_bytes kmalloc_config (all_subheaps e) \<Longrightarrow> m' x = m x"
proof (cases "length (m_subheap_memory (m_expand e)) + 1 \<le> m_capacity (m_expand e)")
  case True
  then show thesis using that [of m e] assms(1-4) by (simp add: grow_regions_def Let_def same_regions_def)
next
  case False
  let ?x = "m_expand e" and ?cfg = kmalloc_config
  let ?B = "blocks ++ vector_block ?x"
  define cap n where "cap = padded_capacity (length (m_subheap_memory ?x) + 1)" and "n = size_mul cap 4"
  have cap: "length (m_subheap_memory ?x) + 1 \<le> cap" "4 \<le> cap" "cap \<le> 7000"
    using padded_capacity_bounds [of "length (m_subheap_memory ?x) + 1"] len by (auto simp: cap_def)
  then have n: "n = cap * 4" "n \<le> 28000" by (auto simp: n_def size_mul_id)
  obtain m1 e1 ptr where km: "kmalloc no_policy n (m, e) = Some (Inr ((m1, e1), ptr))" and ptr: "header_size \<le> ptr"
    and nb: "?B (ptr - header_size) = None" and ok1: "heaps_ok ?cfg m1 (all_subheaps e1) (?B(ptr - header_size \<mapsto> chunks_needed ?cfg n))"
    and s1: "same_places (all_subheaps e) (all_subheaps e1)" and k1: "keeps ?cfg ?B m m1"
    and out1: "\<And>x. x \<notin> all_bytes ?cfg (all_subheaps e) \<Longrightarrow> m1 x = m x"
    and x1: "m_expand e1 = g_kmalloc_call_count_update (\<lambda>k. size_add k 1) ?x" and ex1: "m_expanding e1"
    using nested_kmalloc [OF ok n(2) room [OF n(2)], of no_policy] ex by metis
  let ?B1 = "?B(ptr - header_size \<mapsto> chunks_needed ?cfg n)" and ?fin = "\<lambda>e. update_global (\<lambda>x. x\<lparr>m_outline_buffer := ptr, m_capacity := cap\<rparr>) e"
  have nz: "ptr \<noteq> 0" using ptr by (simp add: header_size_def)
  have free: "blocks (ptr - header_size) = None" "vector_block ?x (ptr - header_size) = None" using nb by auto
  have kb: "keeps ?cfg blocks m m1"
    by (rule keeps_mono [OF k1]) (use disj in \<open>auto simp: map_le_def map_add_def split: option.splits\<close>)
  have vf: "vector_block (x\<lparr>m_outline_buffer := ptr, m_capacity := cap\<rparr>) = [ptr - header_size \<mapsto> chunks_needed ?cfg n]" for x
    using n(1) nz by (simp add: vector_block_def)
  show thesis
  proof (cases "m_outline_buffer ?x = 0")
    case True
    then have "grow_regions (m, e) = Some (Inr (m1, ?fin e1))"
      using False km unfolding grow_regions_def Let_def snd_conv cap_def [symmetric] n_def [symmetric] by simp
    moreover have "?B = blocks" using True by (simp add: vector_block_def)
    ultimately show thesis
      using that [of m1 "?fin e1"] ok1 x1 ex1 free nz ptr cap s1 kb out1 by (simp add: vf vector_ok_def same_regions_def domIff)
  next
    case old: False
    define a k where "a = m_outline_buffer ?x - header_size" and "k = chunks_needed ?cfg (m_capacity ?x * 4)"
    have vb: "vector_block ?x = [a \<mapsto> k]" using old by (simp add: vector_block_def a_def k_def)
    have aB: "a \<noteq> ptr - header_size" "blocks a = None" "a + header_size = m_outline_buffer ?x"
      using vb free(2) disj vec old by (auto simp: a_def vector_ok_def split: if_splits)
    then have B1: "?B1 a = Some k" using vb by simp
    obtain m2 e2 where kf: "kfree no_policy (a + header_size) (m1, e1) = Some (Inr (m2, e2))"
      and ok2: "heaps_ok ?cfg m2 (all_subheaps e2) (?B1(a := None))" and s2: "same_places (all_subheaps e1) (all_subheaps e2)"
      and k2: "keeps ?cfg (?B1(a := None)) m1 m2" and out2: "\<And>x. x \<notin> all_bytes ?cfg (all_subheaps e1) \<Longrightarrow> m2 x = m1 x"
      and x2: "m_expand e2 = g_kfree_call_count_update (\<lambda>k. size_add k 1) (m_expand e1)" and ex2: "m_expanding e2"
      using nested_kfree [OF ok1 B1 ex1, of no_policy] ex1 by metis
    have gr: "grow_regions (m, e) = Some (Inr (m2, ?fin e2))"
      using False km kf old unfolding aB(3) grow_regions_def Let_def snd_conv cap_def [symmetric] n_def [symmetric] by simp
    have Beq: "?B1(a := None) = blocks ++ [ptr - header_size \<mapsto> chunks_needed ?cfg n]"
      unfolding vb using aB(1,2) by (auto simp: fun_eq_iff)
    have "blocks \<subseteq>\<^sub>m ?B1(a := None)" unfolding Beq using free(1) by (auto simp: map_le_def)
    then have "keeps ?cfg blocks m m2" using keeps_trans [OF kb keeps_mono [OF k2]] by blast
    moreover have "m2 x = m x" if "x \<notin> all_bytes ?cfg (all_subheaps e)" for x
      using that out1 out2 [of x] all_bytes_same [OF s1, of ?cfg] by simp
    ultimately show thesis
      using that [OF gr] ok2 x1 x2 ex2 free nz ptr cap same_places_trans [OF s1 s2]
      by (simp add: vf Beq vector_ok_def same_regions_def domIff)
  qed
qed

section \<open>The invariant of the policy\<close>

definition spare :: "kmalloc_global \<Rightarrow> region list" where
  "spare x = (case m_backup_memory x of None \<Rightarrow> [] | Some r \<Rightarrow> [r]) @
     concat (map (\<lambda>d. case d of Allocate_backup \<Rightarrow> [] | Release_region r \<Rightarrow> [r]) (deferred x))"

text \<open>
  The regions in use and in reserve are apart from each other and from the main heap; the spare ones
  could be added at once; each added heap lies in a region in use.
\<close>

definition in_place :: "mem \<Rightarrow> subheap list \<Rightarrow> region list \<Rightarrow> region list \<Rightarrow> bool" where
  "in_place m shs used spare_regions \<longleftrightarrow>
     regions_apart (used @ spare_regions) \<and> (\<forall>r \<in> set spare_regions. ready m r) \<and>
     (\<forall>r \<in> set (used @ spare_regions). extent r \<inter> footprint kmalloc_config (sh_heap (hd shs)) = {} \<and> sh_at (hd shs) \<notin> extent r) \<and>
     (\<forall>sh \<in> set (tl shs). \<exists>r \<in> set used. sh_at sh = region_vaddr r \<and> (\<exists>k. sh_heap sh = (region_heap r)\<lparr>m_allocated_chunks := k\<rparr>))"

definition regions_ok :: "mem \<Rightarrow> kheap \<Rightarrow> bool" where
  "regions_ok m e \<longleftrightarrow>
     in_place m (all_subheaps e) (m_subheap_memory (m_expand e)) (spare (m_expand e)) \<and> vector_ok (m_expand e)"

definition global_ok :: "mem \<Rightarrow> kheap \<Rightarrow> bool" where
  "global_ok m e \<longleftrightarrow> regions_ok m e \<and> \<not> m_adding (m_expand e)"

text \<open>A region that nothing uses.\<close>

definition unused_by :: "subheap list \<Rightarrow> region list \<Rightarrow> region \<Rightarrow> bool" where
  "unused_by shs rs r \<longleftrightarrow> (\<forall>s \<in> set rs. extent r \<inter> extent s = {}) \<and>
     extent r \<inter> footprint kmalloc_config (sh_heap (hd shs)) = {} \<and> sh_at (hd shs) \<notin> extent r"

definition unused :: "kheap \<Rightarrow> region \<Rightarrow> bool" where
  "unused e r \<longleftrightarrow> unused_by (all_subheaps e) (m_subheap_memory (m_expand e) @ spare (m_expand e)) r"

lemma vaddr_in_extent: "region_ok r \<Longrightarrow> region_vaddr r \<in> extent r"
  by (simp add: region_ok_def extent_def)

lemma added_in_region:
  assumes "in_place m shs used sp" and "sh \<in> set (tl shs)"
  obtains r where "r \<in> set used" and "region_ok r" and "sh_at sh = region_vaddr r"
    and "footprint kmalloc_config (sh_heap sh) \<subseteq> extent r"
proof -
  obtain r k where r: "r \<in> set used" "sh_at sh = region_vaddr r"
    "sh_heap sh = (region_heap r)\<lparr>m_allocated_chunks := k\<rparr>"
    using assms by (auto simp: in_place_def)
  moreover have ok: "region_ok r" using assms(1) r(1) by (auto simp: in_place_def regions_apart_def)
  ultimately show thesis using that region_heap_footprint [OF ok] by simp
qed

lemma unused_bytes:
  assumes "in_place m shs used sp" and "unused_by shs used r" and "shs \<noteq> []"
  shows "extent r \<inter> all_bytes kmalloc_config shs = {}" and "region_ok r \<Longrightarrow> region_vaddr r \<notin> sh_at ` set shs"
proof -
  have split: "set shs = insert (hd shs) (set (tl shs))" using assms(3) by (cases shs) auto
  have away: "extent r \<inter> extent s = {}" if "s \<in> set used" for s
    using assms(2) that by (auto simp: unused_by_def)
  have main: "extent r \<inter> footprint kmalloc_config (sh_heap (hd shs)) = {}" "sh_at (hd shs) \<notin> extent r"
    using assms(2) by (simp_all add: unused_by_def)
  have "extent r \<inter> footprint kmalloc_config (sh_heap sh) = {}" if "sh \<in> set (tl shs)" for sh
    using added_in_region [OF assms(1) that] away by blast
  then show "extent r \<inter> all_bytes kmalloc_config shs = {}" unfolding all_bytes_def split using main(1) by auto
  show "region_vaddr r \<notin> sh_at ` set shs" if r: "region_ok r"
  proof
    assume "region_vaddr r \<in> sh_at ` set shs"
    then consider "region_vaddr r = sh_at (hd shs)" | sh where "sh \<in> set (tl shs)" "sh_at sh = region_vaddr r"
      unfolding split by auto
    then show False
    proof cases
      case 1
      then show False using main(2) vaddr_in_extent [OF r] by simp
    next
      case 2
      then obtain s where s: "s \<in> set used" "region_ok s" "sh_at sh = region_vaddr s"
        using added_in_region [OF assms(1)] by blast
      have "region_vaddr r \<in> extent r \<inter> extent s" using vaddr_in_extent [OF r] vaddr_in_extent [OF s(2)] s(3) 2(2) by simp
      then show False using away [OF s(1)] by blast
    qed
  qed
qed

lemma spare_unused:
  assumes "in_place m shs used sp" and "r \<in> set sp"
  shows "unused_by shs used r"
proof -
  have "extent r \<inter> extent s = {}" if "s \<in> set used" for s
  proof -
    have "region_vaddr r \<noteq> region_vaddr s" using assms that by (auto simp: in_place_def regions_apart_def)
    then show ?thesis using assms that by (auto simp: in_place_def regions_apart_def)
  qed
  then show ?thesis using assms by (auto simp: unused_by_def in_place_def)
qed

lemma in_place_frame:
  assumes ok: "in_place m shs used sp" and same: "same_places shs shs'" and nil: "shs \<noteq> []"
    and mem: "\<And>x. x \<notin> all_bytes kmalloc_config shs \<Longrightarrow> m' x = m x"
  shows "in_place m' shs' used sp"
proof -
  obtain main rest where shs: "shs = main # rest" using nil by (cases shs) auto
  then obtain k main' rest' where shs': "shs' = main' # rest'" "main' = main\<lparr>sh_heap := (sh_heap main)\<lparr>m_allocated_chunks := k\<rparr>\<rparr>"
    using same by (cases shs') (auto simp: same_places_def dest: spec [of _ 0])
  have "\<exists>r \<in> set used. sh_at sh' = region_vaddr r \<and> (\<exists>k. sh_heap sh' = (region_heap r)\<lparr>m_allocated_chunks := k\<rparr>)"
    if sh': "sh' \<in> set rest'" for sh'
  proof -
    obtain i where i: "i < length rest'" "sh' = rest' ! i" using sh' by (auto simp: in_set_conv_nth)
    then have "i < length rest" using same by (simp add: same_places_def shs shs')
    moreover from this obtain k where "sh' = (rest ! i)\<lparr>sh_heap := (sh_heap (rest ! i))\<lparr>m_allocated_chunks := k\<rparr>\<rparr>"
      using same i by (auto simp: same_places_def shs shs' dest: spec [of _ "Suc i"])
    ultimately show ?thesis using ok by (fastforce simp: in_place_def shs)
  qed
  moreover have "ready m' r" if r: "r \<in> set sp" for r
  proof (rule ready_cong [of m])
    show "ready m r" "region_ok r" using ok r by (auto simp: in_place_def regions_apart_def)
    show "m' x = m x" if "x \<in> extent r" for x
      using unused_bytes(1) [OF ok spare_unused [OF ok r] nil] that by (intro mem) blast
  qed
  ultimately show ?thesis using ok by (auto simp: in_place_def shs shs')
qed

text \<open>A new heap in a region that nothing uses.\<close>

lemma regions_apart_perm: "regions_apart rs \<Longrightarrow> mset rs' = mset rs \<Longrightarrow> regions_apart rs'"
  unfolding regions_apart_def by (metis mset_eq_imp_distinct_iff mset_map set_mset_mset)

lemma regions_apart_add:
  assumes rs: "regions_apart rs" and r: "region_ok r" and apart: "\<And>s. s \<in> set rs \<Longrightarrow> extent r \<inter> extent s = {}"
  shows "regions_apart (r # rs)"
proof -
  have "region_vaddr r \<noteq> region_vaddr s" if "s \<in> set rs" for s
  proof
    assume "region_vaddr r = region_vaddr s"
    moreover have "region_ok s" using rs that by (simp add: regions_apart_def)
    ultimately have "region_vaddr r \<in> extent r \<inter> extent s" using vaddr_in_extent [OF r] vaddr_in_extent [of s] by simp
    then show False using apart [OF that] by simp
  qed
  then have "region_vaddr r \<notin> region_vaddr ` set rs" by blast
  then show ?thesis using rs r apart by (simp add: regions_apart_def Int_commute)
qed

lemma in_place_link:
  assumes ok: "in_place m (main # shs) used sp" and r: "region_ok r" "unused_by (main # shs) (used @ sp) r"
    and new: "sh_at new = region_vaddr r" "sh_heap new = region_heap r"
  shows "in_place m (main # link_subheap new shs) (used @ [r]) sp"
proof -
  have "regions_apart (r # used @ sp)"
    using ok r by (intro regions_apart_add) (auto simp: in_place_def unused_by_def)
  then have "regions_apart ((used @ [r]) @ sp)" by (rule regions_apart_perm) simp
  moreover have "\<exists>k. region_heap r = (region_heap r)\<lparr>m_allocated_chunks := k\<rparr>" by (rule exI [of _ "m_allocated_chunks (region_heap r)"]) simp
  ultimately show ?thesis using ok r(2) new by (auto simp: in_place_def set_link_subheap unused_by_def)
qed

section \<open>The policy meets its contract\<close>

abbreviation kstate_ok :: "(mem \<Rightarrow> kheap \<Rightarrow> bool) \<Rightarrow> mem \<Rightarrow> kheap \<Rightarrow> live_map \<Rightarrow> bool" where
  "kstate_ok \<equiv> state_ok kmalloc_config vector_block"

lemma fresh_heap_has_room:
  assumes ok: "heaps_ok kmalloc_config m shs B" and new: "new \<in> set shs" "sh_heap new = region_heap r" and r: "region_ok r"
    and n: "n \<le> 28000"
  shows "\<not> no_room (sh_heap new) (live_in kmalloc_config (sh_heap new) B) (chunks_needed kmalloc_config n)"
proof -
  have "m_allocated_chunks (sh_heap new) = 0" using new(2) by (simp add: region_heap_def Let_def)
  then have "live_in kmalloc_config (sh_heap new) B = (\<lambda>_. None)" using unused_heap [OF ok new(1)] by (auto simp: live_in_def)
  moreover have "n + header_size + CHUNK_SIZE kmalloc_config < 2 ^ 32" using n by (simp add: header_size_def)
  from chunks_needed_bounds(2) [OF this] have "chunks_needed kmalloc_config n \<le> m_total_chunks (sh_heap new)"
    using n region_heap_bounds(1) [OF r] new(2) by (simp add: header_size_def)
  ultimately show ?thesis by (auto simp: no_room_def chunk_used_def intro!: exI [of _ 0])
qed

lemma use_region_ok:
  assumes st: "kstate_ok regions_ok m e blocks" and ex: "m_expanding e"
    and r: "region_ok r" "ready m r" "unused e r"
  obtains m' e' where "use_region r (m, e) = Some (Inr (m', e'))" and "kstate_ok regions_ok m' e' blocks"
    and "m_expanding e'" and "keeps kmalloc_config blocks m m'" and "grown (all_subheaps e) (all_subheaps e')"
    and "m_adding (m_expand e') = m_adding (m_expand e)"
    and "\<exists>sh \<in> set (added e'). sh_at sh = region_vaddr r \<and> (\<exists>k. sh_heap sh = (region_heap r)\<lparr>m_allocated_chunks := k\<rparr>)"
proof -
  let ?cfg = kmalloc_config and ?x = "m_expand e"
  define new where "new = \<lparr>sh_heap = region_heap r, memory_size = region_size r - sizeof_SubHeap, sh_at = region_vaddr r\<rparr>"
  define e1 where "e1 = e\<lparr>added := link_subheap new (added e)\<rparr>"
  have hok: "heaps_ok ?cfg m (all_subheaps e) (blocks ++ vector_block ?x)" and disj: "dom blocks \<inter> dom (vector_block ?x) = {}"
    and inp: "in_place m (all_subheaps e) (m_subheap_memory ?x) (spare ?x)" and vec: "vector_ok ?x"
    using st by (simp_all add: state_ok_def regions_ok_def)
  have un: "unused_by (all_subheaps e) (m_subheap_memory ?x) r"
    using r(3) by (auto simp: unused_def unused_by_def)
  note away = unused_bytes [OF inp un all_subheaps_not_Nil(1)]
  have hok1: "heaps_ok ?cfg m (all_subheaps e1) (blocks ++ vector_block ?x)"
    unfolding e1_def all_subheaps_def
  proof (simp, rule heaps_ok_link)
    show "heaps_ok ?cfg m (m_heaps e # added e) (blocks ++ vector_block ?x)" using hok by (simp add: all_subheaps_def)
    show "0 < m_chunks (sh_heap new)" using r(1) by (simp add: new_def region_heap_def Let_def region_ok_def)
    show "heap_ok ?cfg m (sh_heap new) (\<lambda>_. None)" using r(2) by (simp add: new_def ready_def)
    show "sh_at new \<notin> sh_at ` set (m_heaps e # added e)" using away(2) [OF r(1)] by (simp add: new_def all_subheaps_def)
    show "footprint ?cfg (sh_heap new) \<inter> all_bytes ?cfg (m_heaps e # added e) = {}"
      using away(1) region_heap_footprint [OF r(1)] unfolding new_def all_subheaps_def by auto
  qed
  have inp1: "in_place m (all_subheaps e1) (m_subheap_memory ?x @ [r]) (spare ?x)"
    using in_place_link [of m "m_heaps e" "added e" "m_subheap_memory ?x" "spare ?x" r new] inp r(1,3)
    by (simp add: e1_def all_subheaps_def new_def unused_def)
  have "regions_apart (m_subheap_memory ?x @ [r] @ spare ?x)" using inp1 by (simp add: in_place_def)
  from region_count [OF this] have len: "length (m_subheap_memory ?x) \<le> 4096" by simp
  have x1: "m_expand e1 = ?x" "m_expanding e1" using ex by (simp_all add: e1_def)
  have new1: "new \<in> set (all_subheaps e1)" by (simp add: e1_def all_subheaps_def set_link_subheap)
  then have room: "\<exists>sh \<in> set (all_subheaps e1). \<not> no_room (sh_heap sh) (live_in ?cfg (sh_heap sh) (blocks ++ vector_block (m_expand e1)))
      (chunks_needed ?cfg n)" if "n \<le> 28000" for n
    using fresh_heap_has_room [OF hok1 _ _ r(1) that, of new] x1 by (intro bexI [of _ new]) (simp_all add: new_def)
  obtain m2 e2 where gr: "grow_regions (m, e1) = Some (Inr (m2, e2))"
    and hok2: "heaps_ok ?cfg m2 (all_subheaps e2) (blocks ++ vector_block (m_expand e2))"
    and disj2: "dom blocks \<inter> dom (vector_block (m_expand e2)) = {}" and vec2: "vector_ok (m_expand e2)" and ex2: "m_expanding e2"
    and cap2: "length (m_subheap_memory (m_expand e2)) < m_capacity (m_expand e2)"
    and same: "same_places (all_subheaps e1) (all_subheaps e2)" and x2: "same_regions ?x (m_expand e2)"
    and keep: "keeps ?cfg blocks m m2" and out: "\<And>x. x \<notin> all_bytes ?cfg (all_subheaps e1) \<Longrightarrow> m2 x = m x"
    using grow_regions_ok [of m e1 blocks, unfolded x1(1), OF hok1 disj vec x1(2) len room [unfolded x1(1)]] by blast
  define e3 where "e3 = update_global (m_subheap_memory_update (\<lambda>rs. rs @ [r])) e2"
  have "use_region r (m, e) = Some (Inr (m2, e3))"
    using region_construct [OF r(1), of e] gr by (simp add: use_region_def append_region_def new_def [symmetric] e1_def [symmetric] e3_def)
  moreover have "in_place m2 (all_subheaps e2) (m_subheap_memory ?x @ [r]) (spare ?x)"
    using in_place_frame [OF inp1 same _ out] by simp
  then have inp3: "in_place m2 (all_subheaps e3) (m_subheap_memory ?x @ [r]) (spare ?x)" by (simp add: e3_def)
  then have "regions_ok m2 e3"
    using x2 vec2 cap2 by (simp add: regions_ok_def e3_def same_regions_def spare_def vector_ok_def)
  then have "kstate_ok regions_ok m2 e3 blocks"
    using hok2 disj2 by (simp add: state_ok_def e3_def)
  moreover have "grown (all_subheaps e) (all_subheaps e1)"
    unfolding grown_def
  proof
    fix s assume "s \<in> set (all_subheaps e)"
    then have "s \<in> set (all_subheaps e1)" by (auto simp: e1_def all_subheaps_def set_link_subheap)
    then show "\<exists>t \<in> set (all_subheaps e1). sh_at t = sh_at s \<and> (\<exists>k. sh_heap t = (sh_heap s)\<lparr>m_allocated_chunks := k\<rparr>)"
      by (intro bexI [of _ s] conjI exI [of _ "m_allocated_chunks (sh_heap s)"]) simp_all
  qed
  then have "grown (all_subheaps e) (all_subheaps e3)" using grown_trans same_places_grown [OF same] by (fastforce simp: e3_def)
  moreover have "grown (all_subheaps e1) (all_subheaps e3)" using same_places_grown [OF same] by (simp add: e3_def)
  then obtain sh where sh: "sh \<in> set (all_subheaps e3)" "sh_at sh = region_vaddr r" "\<exists>k. sh_heap sh = (region_heap r)\<lparr>m_allocated_chunks := k\<rparr>"
    using new1 unfolding grown_def by (force simp: new_def)
  have "sh \<noteq> m_heaps e3" using inp3 sh(2) vaddr_in_extent [OF r(1)] by (auto simp: in_place_def all_subheaps_def)
  then have "sh \<in> set (added e3)" using sh(1) by (simp add: all_subheaps_def)
  then have "\<exists>sh \<in> set (added e3). sh_at sh = region_vaddr r \<and> (\<exists>k. sh_heap sh = (region_heap r)\<lparr>m_allocated_chunks := k\<rparr>)"
    using sh(2,3) by blast
  ultimately show thesis using that ex2 keep x2 by (simp add: e3_def same_regions_def)
qed

text \<open>
  What the memory manager promises: a region of the requested size at addresses that nothing uses,
  filled with zeros; no other byte changes.
\<close>

definition region_source_ok :: "region_source \<Rightarrow> bool" where
  "region_source_ok mm \<longleftrightarrow>
     (\<forall>n m e m' r. mm n (m, e) = (m', r) \<longrightarrow>
        (case r of
           None \<Rightarrow> m' = m
         | Some r \<Rightarrow> region_size r = n \<and> 0 < region_vaddr r \<and> region_vaddr r + n + 1 < 2 ^ 32 \<and> unused e r \<and>
             (\<forall>x. m' x = (if x \<in> extent r then 0 else m x))))"

lemma blocks_in_bytes:
  assumes ok: "heaps_ok cfg m shs B" and b: "B a = Some k" and x: "a \<le> x" "x < a + k * CHUNK_SIZE cfg"
  shows "x \<in> all_bytes cfg shs"
proof -
  obtain sh c where sh: "sh \<in> set shs" "c < m_total_chunks (sh_heap sh)" "a = chunk_addr cfg (sh_heap sh) c"
    using ok b unfolding heaps_ok_def by blast
  have "x < heap_end cfg (sh_heap sh)" using block_in_home(3) [OF ok sh(1,2)] b sh(3) x by auto
  then have "x \<in> footprint cfg (sh_heap sh)" using x sh(3) by (simp add: footprint_def chunk_addr_def)
  then show ?thesis using sh(1) by (auto simp: all_bytes_def)
qed

lemma heaps_ok_outside:
  assumes ok: "heaps_ok cfg m shs B" and same: "\<And>x. x \<in> all_bytes cfg shs \<Longrightarrow> m' x = m x"
  shows "heaps_ok cfg m' shs B"
proof -
  have "heap_ok cfg m' (sh_heap sh) (live_in cfg (sh_heap sh) B)" if "sh \<in> set shs" for sh
    using that same by (intro heap_ok_footprint [OF heaps_okD(1) [OF ok that]]) (auto simp: all_bytes_def)
  then show ?thesis using ok by (simp add: heaps_ok_def)
qed

lemma write_unused:
  assumes st: "kstate_ok regions_ok m e blocks" and un: "unused e r" and mem: "\<And>x. x \<notin> extent r \<Longrightarrow> m' x = m x"
  shows "kstate_ok regions_ok m' e blocks" and "keeps kmalloc_config blocks m m'"
proof -
  let ?x = "m_expand e" and ?B = "blocks ++ vector_block (m_expand e)"
  have hok: "heaps_ok kmalloc_config m (all_subheaps e) ?B"
    and inp: "in_place m (all_subheaps e) (m_subheap_memory ?x) (spare ?x)"
    using st by (simp_all add: state_ok_def regions_ok_def)
  have "unused_by (all_subheaps e) (m_subheap_memory ?x) r" using un by (auto simp: unused_def unused_by_def)
  from unused_bytes(1) [OF inp this] have same: "m' x = m x" if "x \<in> all_bytes kmalloc_config (all_subheaps e)" for x
    using that by (intro mem) auto
  have "ready m' s" if "s \<in> set (spare ?x)" for s
  proof (rule ready_cong [of m])
    show "ready m s" "region_ok s" using inp that by (auto simp: in_place_def regions_apart_def)
    have "extent r \<inter> extent s = {}" using un that by (simp add: unused_def unused_by_def)
    then show "m' x = m x" if "x \<in> extent s" for x using that by (intro mem) blast
  qed
  then have "regions_ok m' e" using st by (simp add: state_ok_def regions_ok_def in_place_def)
  then show "kstate_ok regions_ok m' e blocks" using st heaps_ok_outside [OF hok same] by (simp add: state_ok_def)
  have "keeps kmalloc_config ?B m m'" unfolding keeps_def by (intro allI impI same) (rule blocks_in_bytes [OF hok])
  moreover have "blocks \<subseteq>\<^sub>m ?B" using st by (auto simp: state_ok_def map_le_def map_add_def split: option.splits)
  ultimately show "keeps kmalloc_config blocks m m'" by (rule keeps_mono)
qed

lemma mm_region:
  assumes "region_source_ok mm" and "kstate_ok regions_ok m e blocks" and "mm n (m, e) = (m', r)" and "MiB \<le> n"
  shows "kstate_ok regions_ok m' e blocks" and "keeps kmalloc_config blocks m m'"
    and "r = Some r' \<Longrightarrow> region_ok r' \<and> ready m' r' \<and> unused e r'"
proof -
  have law: "case r of None \<Rightarrow> m' = m
     | Some r \<Rightarrow> region_size r = n \<and> 0 < region_vaddr r \<and> region_vaddr r + n + 1 < 2 ^ 32 \<and> unused e r \<and>
         (\<forall>x. m' x = (if x \<in> extent r then 0 else m x))"
    using assms(1,3) by (auto simp: region_source_ok_def)
  show "kstate_ok regions_ok m' e blocks"
    using law assms(2) write_unused(1) [OF assms(2), of _ m'] by (cases r) auto
  show "keeps kmalloc_config blocks m m'"
    using law assms(2) write_unused(2) [OF assms(2), of _ m'] by (cases r) auto
  show "region_ok r' \<and> ready m' r' \<and> unused e r'" if "r = Some r'"
    using law that assms(4) zeroed_ready [of r' m'] by (auto simp: region_ok_def)
qed

definition global_limit :: nat where
  "global_limit = 0x7fffffff"

lemma expansion_size:
  assumes "n \<le> global_limit"
  shows "\<exists>k. page_round_up (eh_calculate_memory_for_bytes kmalloc_config n) = Inr k \<and> MiB \<le> size_add k MiB"
proof -
  have n: "n < 2 ^ 31" using assms by (simp add: global_limit_def)
  define c where "c = (n + 35) div 32"
  have c: "c * 32 \<le> n + 35" "c \<le> 2 ^ 26 + 1" using n by (simp_all add: c_def)
  have "calculate_memory_for_bytes kmalloc_config n = c * 32 + (c + 7) div 8"
    using n c by (simp add: calculate_memory_for_bytes_def Let_def header_size_def size_add_id size_sub_id size_mul_id c_def [symmetric] add.commute)
  then have e: "eh_calculate_memory_for_bytes kmalloc_config n = 28 + (c * 32 + (c + 7) div 8)"
    using n c by (simp add: eh_calculate_memory_for_bytes_def sizeof_SubHeap_def size_add_id)
  have b: "28 + (c * 32 + (c + 7) div 8) \<le> 2 ^ 31 + 2 ^ 24" using n c by simp
  define k where "k = (28 + (c * 32 + (c + 7) div 8) + 4095) div 4096 * 4096"
  have "k \<le> 2 ^ 31 + 2 ^ 24 + 4095" unfolding k_def using b by (meson add_le_mono1 div_times_less_eq_dividend le_trans)
  moreover have "page_round_up (eh_calculate_memory_for_bytes kmalloc_config n) = Inr k"
    using b by (simp add: e page_round_up_result page_round_up_would_wrap_def k_def)
  ultimately show ?thesis by (auto simp: size_add_id)
qed

lemma in_place_drop:
  assumes "in_place m shs used (r # sp)"
  shows "in_place m shs used sp" and "region_ok r" and "ready m r" and "unused_by shs (used @ sp) r"
proof -
  have apart: "regions_apart (used @ r # sp)" using assms by (simp add: in_place_def)
  then show "region_ok r" by (simp add: regions_apart_def)
  show "ready m r" using assms by (simp add: in_place_def)
  have "regions_apart (used @ sp)" using apart by (auto simp: regions_apart_def)
  then show "in_place m shs used sp" using assms by (auto simp: in_place_def)
  have "extent r \<inter> extent s = {}" if "s \<in> set (used @ sp)" for s
    using apart that by (auto simp: regions_apart_def)
  then show "unused_by shs (used @ sp) r" using assms by (auto simp: unused_by_def in_place_def)
qed

lemma finish_adding_ok:
  assumes "kstate_ok regions_ok m e blocks"
  shows "\<exists>e'. finish_adding b (m, e) = Some (Inr ((m, e'), b)) \<and> m_expanding e' = m_expanding e \<and>
    kstate_ok global_ok m e' blocks \<and> all_subheaps e' = all_subheaps e"
  using assms by (auto simp: finish_adding_def state_ok_def global_ok_def regions_ok_def spare_def vector_ok_def)

text \<open>The first half of \<^verbatim>\<open>add_memory\<close>: the reserve becomes a heap.\<close>

lemma use_backup:
  assumes st: "kstate_ok global_ok m e blocks" and ex: "m_expanding e" and r: "m_backup_memory (m_expand e) = Some r"
  obtains m2 e2 where "use_region r (m, update_global (\<lambda>x. x\<lparr>m_adding := True, m_backup_memory := None\<rparr>) e) = Some (Inr (m2, e2))"
    and "kstate_ok regions_ok m2 e2 blocks" and "m_expanding e2" and "keeps kmalloc_config blocks m m2"
    and "grown (all_subheaps e) (all_subheaps e2)" and "region_ok r" and "unused_by (all_subheaps e) (m_subheap_memory (m_expand e)) r"
    and "\<exists>sh \<in> set (added e2). sh_at sh = region_vaddr r \<and> (\<exists>k. sh_heap sh = (region_heap r)\<lparr>m_allocated_chunks := k\<rparr>)"
proof -
  define e1 where "e1 = update_global (\<lambda>x. x\<lparr>m_adding := True, m_backup_memory := None\<rparr>) e"
  have inp: "in_place m (all_subheaps e) (m_subheap_memory (m_expand e)) (r # spare (m_expand e1))"
    using st r by (simp add: state_ok_def global_ok_def regions_ok_def spare_def e1_def)
  have st1: "kstate_ok regions_ok m e1 blocks" and un: "unused e1 r" and ex1: "m_expanding e1"
    using st ex in_place_drop [OF inp]
    by (simp_all add: state_ok_def global_ok_def regions_ok_def vector_ok_def unused_def e1_def)
  have un': "unused_by (all_subheaps e) (m_subheap_memory (m_expand e)) r" using un by (auto simp: unused_def unused_by_def e1_def)
  have same: "all_subheaps e1 = all_subheaps e" by (simp add: e1_def)
  show thesis
  proof (rule use_region_ok [OF st1 ex1 in_place_drop(2,3) [OF inp] un])
    fix m' e'
    assume u: "use_region r (m, e1) = Some (Inr (m', e'))" "kstate_ok regions_ok m' e' blocks" "m_expanding e'"
      "keeps kmalloc_config blocks m m'" and g: "grown (all_subheaps e1) (all_subheaps e')"
      and sh: "\<exists>sh \<in> set (added e'). sh_at sh = region_vaddr r \<and> (\<exists>k. sh_heap sh = (region_heap r)\<lparr>m_allocated_chunks := k\<rparr>)"
    show thesis by (rule that [OF u [unfolded e1_def] g [unfolded same] in_place_drop(2) [OF inp] un' sh])
  qed
qed

lemma add_memory_ok:
  assumes mm: "region_source_ok mm" and st: "kstate_ok global_ok m e blocks" and ex: "m_expanding e" and n: "n \<le> global_limit"
  shows "\<exists>m' e' b. add_memory mm_initialized mm n (m, e) = Some (Inr ((m', e'), b)) \<and> m_expanding e' \<and>
    kstate_ok global_ok m' e' blocks \<and> keeps kmalloc_config blocks m m' \<and> grown (all_subheaps e) (all_subheaps e')"
proof (cases "mm_initialized \<and> m_backup_memory (m_expand e) \<noteq> None")
  case False
  then show ?thesis using st ex by (auto simp: add_memory_def state_ok_def global_ok_def)
next
  case True
  then obtain r where r: "m_backup_memory (m_expand e) = Some r" by blast
  define e1 where "e1 = update_global (\<lambda>x. x\<lparr>m_adding := True, m_backup_memory := None\<rparr>) e"
  have na: "\<not> m_adding (m_expand e)" using st by (simp add: state_ok_def global_ok_def)
  obtain m2 e2 where u2: "use_region r (m, e1) = Some (Inr (m2, e2))" and st2: "kstate_ok regions_ok m2 e2 blocks"
    and ex2: "m_expanding e2" and k2: "keeps kmalloc_config blocks m m2" and g2: "grown (all_subheaps e) (all_subheaps e2)"
    by (rule use_backup [OF st ex r]) (rule that [unfolded e1_def])
  show ?thesis
  proof (cases "free_bytes_at (region_vaddr r) e2 < n")
    case False
    obtain e3 where "finish_adding True (m2, e2) = Some (Inr ((m2, e3), True))" "m_expanding e3 = m_expanding e2"
      "kstate_ok global_ok m2 e3 blocks" "all_subheaps e3 = all_subheaps e2" using finish_adding_ok [OF st2] by blast
    with True na r u2 False ex2 k2 g2 show ?thesis by (auto simp: add_memory_def e1_def [symmetric])
  next
    case more: True
    obtain k where k: "page_round_up (eh_calculate_memory_for_bytes kmalloc_config n) = Inr k" "MiB \<le> size_add k MiB"
      using expansion_size [OF n] by blast
    obtain m3 ro where m3: "mm (size_add k MiB) (m2, e2) = (m3, ro)" by (cases "mm (size_add k MiB) (m2, e2)")
    note reg = mm_region [OF mm st2 m3 k(2)]
    have k3: "keeps kmalloc_config blocks m m3" by (rule keeps_trans [OF k2 reg(2)])
    show ?thesis
    proof (cases ro)
      case None
      obtain e4 where "finish_adding False (m3, e2) = Some (Inr ((m3, e4), False))" "m_expanding e4 = m_expanding e2"
        "kstate_ok global_ok m3 e4 blocks" "all_subheaps e4 = all_subheaps e2" using finish_adding_ok [OF reg(1)] by blast
      with True na r u2 more ex2 k3 g2 k(1) m3 None show ?thesis by (auto simp: add_memory_def e1_def [symmetric])
    next
      case (Some r')
      obtain m4 e4 where u4: "use_region r' (m3, e2) = Some (Inr (m4, e4))" and st4: "kstate_ok regions_ok m4 e4 blocks"
        and ex4: "m_expanding e4" and k4: "keeps kmalloc_config blocks m3 m4" and g4: "grown (all_subheaps e2) (all_subheaps e4)"
        using use_region_ok [OF reg(1) ex2] reg(3) [OF Some] by blast
      obtain e5 where "finish_adding True (m4, e4) = Some (Inr ((m4, e5), True))" "m_expanding e5 = m_expanding e4"
        "kstate_ok global_ok m4 e5 blocks" "all_subheaps e5 = all_subheaps e4" using finish_adding_ok [OF st4] by blast
      with True na r u2 more ex4 keeps_trans [OF k3 k4] grown_trans [OF g2 g4] k(1) m3 Some u4 show ?thesis
        by (auto simp: add_memory_def e1_def [symmetric])
    qed
  qed
qed

lemma take_region_found:
  assumes "r \<in> set rs" and "distinct (map region_vaddr rs)"
  shows "\<exists>rs'. take_region (region_vaddr r) rs = Some (r, rs') \<and> mset rs = add_mset r (mset rs')"
  using assms
proof (induction rs)
  case (Cons s rs)
  show ?case
  proof (cases "region_vaddr s = region_vaddr r")
    case True
    then have "s = r" using Cons.prems by force
    then show ?thesis by simp
  next
    case False
    then have "r \<in> set rs" using Cons.prems(1) by auto
    then obtain rs' where "take_region (region_vaddr r) rs = Some (r, rs')" "mset rs = add_mset r (mset rs')"
      using Cons by auto
    then show ?thesis using False by auto
  qed
qed simp

lemma take_region_length: "take_region a xs = Some (r, rs) \<Longrightarrow> length rs \<le> length xs"
  by (induction xs arbitrary: rs) (auto split: if_splits)

lemma in_place_remove:
  assumes inp: "in_place m (main # shs) used sp" and hok: "heaps_ok kmalloc_config m (main # shs) B"
    and sh: "sh \<in> set shs" "m_allocated_chunks (sh_heap sh) = 0"
  obtains r rs where "take_region (sh_at sh) used = Some (r, rs)"
    and "\<And>sp'. mset sp' = add_mset r (mset sp) \<Longrightarrow> in_place m (main # unlink_subheap (sh_at sh) shs) rs sp'"
proof -
  obtain r k where r: "r \<in> set used" "sh_at sh = region_vaddr r" "sh_heap sh = (region_heap r)\<lparr>m_allocated_chunks := k\<rparr>"
    using inp sh(1) by (auto simp: in_place_def)
  have "region_heap r = sh_heap sh" using sh(2) r(3) by (simp add: region_heap_def Let_def)
  moreover have "live_in kmalloc_config (sh_heap sh) B = (\<lambda>_. None)"
    using unused_heap [OF hok _ sh(2)] sh(1) by (auto simp: live_in_def)
  ultimately have rdy: "ready m r" using heaps_okD(1) [OF hok, of sh] sh(1) by (simp add: ready_def)
  have apart: "regions_apart (used @ sp)" using inp by (simp add: in_place_def)
  then have "distinct (map region_vaddr used)" by (simp add: regions_apart_def)
  from take_region_found [OF r(1) this] obtain rs where rs: "take_region (region_vaddr r) used = Some (r, rs)" "mset used = add_mset r (mset rs)"
    by blast
  have set_used: "set used = insert r (set rs)" using rs(2) by (metis set_mset_add_mset_insert set_mset_mset)
  have dist: "distinct (map sh_at (main # shs))" using hok by (simp add: heaps_ok_def)
  have "in_place m (main # unlink_subheap (sh_at sh) shs) rs sp'" if sp': "mset sp' = add_mset r (mset sp)" for sp'
  proof -
    have "regions_apart (rs @ sp')" by (rule regions_apart_perm [OF apart]) (simp add: sp' rs(2))
    moreover have set_sp: "set sp' = insert r (set sp)" using sp' by (metis set_mset_add_mset_insert set_mset_mset)
    moreover have "\<exists>s \<in> set rs. sh_at t = region_vaddr s \<and> (\<exists>k. sh_heap t = (region_heap s)\<lparr>m_allocated_chunks := k\<rparr>)"
      if t: "t \<in> set (unlink_subheap (sh_at sh) shs)" for t
    proof -
      have "t \<in> set shs" "sh_at t \<noteq> sh_at sh" using t dist by (auto simp: set_unlink_subheap)
      moreover from this obtain s k where "s \<in> set used" "sh_at t = region_vaddr s" "sh_heap t = (region_heap s)\<lparr>m_allocated_chunks := k\<rparr>"
        using inp by (auto simp: in_place_def)
      ultimately show ?thesis using r(2) set_used by auto
    qed
    ultimately show ?thesis using inp rdy set_used by (auto simp: in_place_def)
  qed
  then show thesis using that rs(1) r(2) by simp
qed

lemma remove_memory_ok:
  assumes st: "kstate_ok global_ok m e blocks" and ex: "\<not> m_expanding e" and sh: "sh \<in> set (added e)"
    "m_allocated_chunks (sh_heap sh) = 0"
  shows "\<exists>m' e'. remove_memory (sh_at sh) (m, e\<lparr>added := unlink_subheap (sh_at sh) (added e)\<rparr>) = Some (Inr ((m', e'), True)) \<and>
    \<not> m_expanding e' \<and> kstate_ok global_ok m' e' blocks \<and> keeps kmalloc_config blocks m m'"
proof -
  let ?x = "m_expand e" and ?cfg = kmalloc_config
  have hok: "heaps_ok ?cfg m (m_heaps e # added e) (blocks ++ vector_block ?x)" and disj: "dom blocks \<inter> dom (vector_block ?x) = {}"
    and inp: "in_place m (m_heaps e # added e) (m_subheap_memory ?x) (spare ?x)" and vec: "vector_ok ?x" and na: "\<not> m_adding ?x"
    using st by (simp_all add: state_ok_def global_ok_def regions_ok_def all_subheaps_def)
  obtain r rs where tk: "take_region (sh_at sh) (m_subheap_memory ?x) = Some (r, rs)"
    and inp': "\<And>sp'. mset sp' = add_mset r (mset (spare ?x)) \<Longrightarrow> in_place m (m_heaps e # unlink_subheap (sh_at sh) (added e)) rs sp'"
    using in_place_remove [OF inp hok sh] by blast
  note len = take_region_length [OF tk]
  define x' where "x' = (let x = ?x\<lparr>m_subheap_memory := rs\<rparr> in
      if m_backup_memory x = None then x\<lparr>m_backup_memory := Some r\<rparr> else x\<lparr>deferred := deferred x @ [Release_region r]\<rparr>)"
  define e' where "e' = e\<lparr>added := unlink_subheap (sh_at sh) (added e), m_expand := x'\<rparr>"
  have "remove_memory (sh_at sh) (m, e\<lparr>added := unlink_subheap (sh_at sh) (added e)\<rparr>) = Some (Inr ((m, e'), True))"
    using tk by (simp add: remove_memory_def e'_def x'_def)
  moreover have x': "vector_block x' = vector_block ?x" "vector_ok x'" "\<not> m_adding x'" "m_subheap_memory x' = rs"
    "mset (spare x') = add_mset r (mset (spare ?x))"
    using vec na len by (auto simp: x'_def Let_def vector_ok_def spare_def)
  have "heaps_ok ?cfg m (m_heaps e # unlink_subheap (sh_at sh) (added e)) (blocks ++ vector_block ?x)"
    using heaps_ok_unlink [OF hok sh(1)] unused_heap [OF hok _ sh(2)] sh(1) by simp
  moreover have "in_place m (m_heaps e # unlink_subheap (sh_at sh) (added e)) rs (spare x')" by (rule inp' [OF x'(5)])
  ultimately show ?thesis
    using ex disj x' by (auto simp: e'_def state_ok_def global_ok_def regions_ok_def all_subheaps_def)
qed

lemma global_expansion:
  assumes "region_source_ok mm"
  shows "heap_expansion kmalloc_config (add_memory mm_initialized mm) remove_memory vector_block global_ok global_limit"
proof
  show "global_limit + header_size + CHUNK_SIZE kmalloc_config < 2 ^ 32" by (simp add: global_limit_def header_size_def)
next
  fix m e e' m'
  assume "global_ok m e" and same: "same_places (all_subheaps e) (all_subheaps e')" and x: "m_expand e' = m_expand e"
    and mem: "\<And>x. x \<notin> all_bytes kmalloc_config (all_subheaps e) \<Longrightarrow> m' x = m x"
  then show "global_ok m' e'"
    using in_place_frame [OF _ same _ mem] by (simp add: global_ok_def regions_ok_def)
qed (rule add_memory_ok [OF assms] remove_memory_ok; assumption)+

end
