(* ===== verification/Kmalloc_Runs.thy ===== *)
theory Kmalloc_Runs
  imports Kmalloc
begin

text \<open>
  Runs of the kernel heap: initialisation, then allocations, releases, reallocations, writes of the
  callers into their blocks and deferred calls, in any order.
\<close>

section \<open>Deferred calls\<close>

lemma in_place_spare_perm:
  assumes inp: "in_place m shs used sp" and sp: "mset sp' = mset sp"
  shows "in_place m shs used sp'"
proof -
  have "regions_apart (used @ sp)" using inp by (simp add: in_place_def)
  then have "regions_apart (used @ sp')" by (rule regions_apart_perm) (simp add: sp)
  moreover have "set sp' = set sp" using sp by (rule mset_eq_setD)
  ultimately show ?thesis using inp by (simp add: in_place_def)
qed

lemma in_place_new_spare:
  assumes "in_place m shs used sp" and "region_ok r" and "ready m r" and "unused_by shs (used @ sp) r"
  shows "in_place m shs used (r # sp)"
proof -
  have "regions_apart (r # used @ sp)"
    using assms by (intro regions_apart_add) (auto simp: in_place_def unused_by_def)
  then have "regions_apart (used @ r # sp)" by (rule regions_apart_perm) simp
  then show ?thesis using assms by (auto simp: in_place_def unused_by_def)
qed

lemma allocate_backup_ok:
  assumes mm: "region_source_ok mm" and st: "kstate_ok global_ok m e blocks"
  shows "\<exists>m' e'. allocate_backup_memory mm (m, e) = (m', e') \<and> m_expanding e' = m_expanding e \<and>
    kstate_ok global_ok m' e' blocks \<and> keeps kmalloc_config blocks m m'"
proof (cases "m_backup_memory (m_expand e)")
  case (Some r)
  then show ?thesis using st by (simp add: allocate_backup_memory_def)
next
  case None
  obtain m2 ro where m2: "mm MiB (m, e) = (m2, ro)" by (cases "mm MiB (m, e)")
  have "kstate_ok regions_ok m e blocks" using st by (simp add: state_ok_def global_ok_def)
  note reg = mm_region [OF mm this m2, simplified]
  define e2 where "e2 = update_global (m_backup_memory_update (\<lambda>_. ro)) e"
  have "in_place m2 (all_subheaps e) (m_subheap_memory (m_expand e)) (spare (m_expand e2))"
  proof (cases ro)
    case None': None
    then show ?thesis using reg(1) None by (simp add: state_ok_def regions_ok_def e2_def spare_def)
  next
    case (Some r)
    then have "spare (m_expand e2) = r # spare (m_expand e)" using None by (simp add: e2_def spare_def)
    then show ?thesis using reg(3) [OF Some] reg(1) in_place_new_spare
      by (simp add: state_ok_def regions_ok_def unused_def)
  qed
  then have "kstate_ok global_ok m2 e2 blocks"
    using reg(1) st by (simp add: state_ok_def global_ok_def regions_ok_def e2_def vector_ok_def)
  moreover have "allocate_backup_memory mm (m, e) = (m2, e2)" using None m2 by (simp add: allocate_backup_memory_def e2_def)
  ultimately show ?thesis using reg(2) by (simp add: e2_def)
qed

lemma run_deferred_ok:
  assumes mm: "region_source_ok mm" and st: "kstate_ok global_ok m e blocks"
  shows "\<exists>m' e'. run_deferred mm (m, e) = (m', e') \<and> m_expanding e' = m_expanding e \<and>
    kstate_ok global_ok m' e' blocks \<and> keeps kmalloc_config blocks m m'"
proof (cases "deferred (m_expand e)")
  case Nil
  then show ?thesis using st by (simp add: run_deferred_def)
next
  case (Cons d ds)
  let ?x = "m_expand e"
  define e1 where "e1 = update_global (deferred_update (\<lambda>_. ds)) e"
  show ?thesis
  proof (cases d)
    case Allocate_backup
    then have "kstate_ok global_ok m e1 blocks"
      using st Cons by (simp add: e1_def state_ok_def global_ok_def regions_ok_def spare_def vector_ok_def)
    from allocate_backup_ok [OF mm this] show ?thesis using Cons Allocate_backup by (simp add: run_deferred_def e1_def)
  next
    case (Release_region r)
    have inp: "in_place m (all_subheaps e) (m_subheap_memory ?x) (spare ?x)" using st by (simp add: state_ok_def global_ok_def regions_ok_def)
    define e2 where "e2 = (if m_backup_memory (m_expand e1) = None then update_global (m_backup_memory_update (\<lambda>_. Some r)) e1 else e1)"
    have "in_place m (all_subheaps e) (m_subheap_memory ?x) (spare (m_expand e2))"
    proof (cases "m_backup_memory ?x")
      case None
      then have "spare (m_expand e2) = spare ?x" using Cons Release_region by (simp add: e2_def e1_def spare_def)
      then show ?thesis using inp by simp
    next
      case (Some b)
      then have "mset (r # spare (m_expand e2)) = mset (spare ?x)" using Cons Release_region by (simp add: e2_def e1_def spare_def)
      then show ?thesis using in_place_drop(1) [OF in_place_spare_perm [OF inp]] by blast
    qed
    then have "kstate_ok global_ok m e2 blocks"
      using st by (auto simp: state_ok_def global_ok_def regions_ok_def e2_def e1_def vector_ok_def)
    moreover have "run_deferred mm (m, e) = (m, e2)" using Cons Release_region by (simp add: run_deferred_def e2_def e1_def Let_def)
    ultimately show ?thesis by (simp add: e2_def e1_def)
  qed
qed

section \<open>Runs of the kernel heap\<close>

inductive kmalloc_step :: "region_source \<Rightarrow> mem \<times> kheap \<times> live_map \<Rightarrow> mem \<times> kheap \<times> live_map \<Rightarrow> bool" for mm where
  step_kmalloc: "n \<le> global_limit \<Longrightarrow> kmalloc (add_memory ready_now mm) n (m, e) = Some (Inr ((m', e'), ptr)) \<Longrightarrow>
    kmalloc_step mm (m, e, blocks) (m', e', blocks(ptr - header_size \<mapsto> chunks_needed kmalloc_config n))"
| step_kfree: "blocks a = Some k \<Longrightarrow> kfree remove_memory (a + header_size) (m, e) = Some (Inr (m', e')) \<Longrightarrow>
    kmalloc_step mm (m, e, blocks) (m', e', blocks(a := None))"
| step_krealloc: "blocks a = Some k \<Longrightarrow> n \<le> global_limit \<Longrightarrow> n \<noteq> k * 32 \<Longrightarrow>
    krealloc (add_memory ready_now mm) (a + header_size) n (m, e) = Some (Inr ((m', e'), ptr)) \<Longrightarrow>
    kmalloc_step mm (m, e, blocks)
      (m', e', (if ptr = 0 then blocks else blocks(ptr - header_size \<mapsto> chunks_needed kmalloc_config n))(a := None))"
| step_write: "blocks a = Some k \<Longrightarrow> a + header_size \<le> x \<Longrightarrow> x < a + k * 32 \<Longrightarrow>
    kmalloc_step mm (m, e, blocks) (m(x := v), e, blocks)"
| step_deferred: "run_deferred mm (m, e) = (m', e') \<Longrightarrow> kmalloc_step mm (m, e, blocks) (m', e', blocks)"
| step_enable_expand: "kmalloc_enable_expand mm (m, e) = (m', e') \<Longrightarrow> kmalloc_step mm (m, e, blocks) (m', e', blocks)"

inductive kmalloc_reachable :: "region_source \<Rightarrow> mem \<times> kheap \<times> live_map \<Rightarrow> mem \<times> kheap \<times> live_map \<Rightarrow> bool" for mm s0 where
  kmalloc_start: "kmalloc_reachable mm s0 s0"
| kmalloc_next: "kmalloc_reachable mm s0 s \<Longrightarrow> kmalloc_step mm s s' \<Longrightarrow> kmalloc_reachable mm s0 s'"

section \<open>Single operations\<close>

lemma counted_state [simp]:
  "kstate_ok global_ok m (e\<lparr>m_expand := g_kmalloc_call_count_update f (m_expand e)\<rparr>) blocks = kstate_ok global_ok m e blocks"
  "kstate_ok global_ok m (e\<lparr>m_expand := g_kfree_call_count_update f (m_expand e)\<rparr>) blocks = kstate_ok global_ok m e blocks"
  by (simp_all add: state_ok_def global_ok_def regions_ok_def vector_ok_def spare_def)

definition newly_given :: "live_map \<Rightarrow> nat \<Rightarrow> nat \<Rightarrow> bool" where
  "newly_given blocks n ptr \<longleftrightarrow> header_size \<le> ptr \<and> blocks (ptr - header_size) = None \<and>
     n + header_size \<le> chunks_needed kmalloc_config n * 32"

lemma kmalloc_ok:
  assumes mm: "region_source_ok mm" and st: "kstate_ok global_ok m e blocks" and n: "n \<le> global_limit"
  shows "kmalloc (add_memory b mm) n (m, e) = Some (Inl Panicked) \<or>
    (\<exists>m' e' ptr. kmalloc (add_memory b mm) n (m, e) = Some (Inr ((m', e'), ptr)) \<and> m_expanding e' = m_expanding e \<and>
       keeps kmalloc_config blocks m m' \<and> newly_given blocks n ptr \<and>
       kstate_ok global_ok m' e' (blocks(ptr - header_size \<mapsto> chunks_needed kmalloc_config n)))"
proof -
  let ?e = "update_global (g_kmalloc_call_count_update (\<lambda>k. size_add k 1)) e"
  have "kstate_ok global_ok m ?e blocks" and ex: "m_expanding ?e = m_expanding e" using st by simp_all
  from heap_expansion.eh_allocate_ok [OF global_expansion [OF mm] this(1) n]
  obtain m' e' ptr blocks' where r: "eh_allocate kmalloc_config (add_memory b mm) n (m, ?e) = Some (Inr ((m', e'), ptr))"
    "m_expanding e' = m_expanding e" "keeps kmalloc_config blocks m m'" "handed_out kmalloc_config blocks n ptr blocks'"
    "kstate_ok global_ok m' e' blocks'" unfolding ex by blast
  show ?thesis
  proof (cases "ptr = 0")
    case True
    then show ?thesis using r(1) by (simp add: kmalloc_def Let_def)
  next
    case False
    then show ?thesis using r by (auto simp: kmalloc_def Let_def handed_out_def newly_given_def)
  qed
qed

lemma kfree_ok:
  assumes st: "kstate_ok global_ok m e blocks" and a: "blocks a = Some k"
  shows "\<exists>m' e'. kfree remove_memory (a + header_size) (m, e) = Some (Inr (m', e')) \<and> m_expanding e' = m_expanding e \<and>
    keeps kmalloc_config (blocks(a := None)) m m' \<and> kstate_ok global_ok m' e' (blocks(a := None))"
proof -
  let ?e = "update_global (g_kfree_call_count_update (\<lambda>k. size_add k 1)) e"
  have "region_source_ok (\<lambda>n (m, e). (m, None))" by (simp add: region_source_ok_def)
  note exp = global_expansion [OF this]
  have "kstate_ok global_ok m ?e blocks" using st by simp
  from heap_expansion.eh_deallocate_ok [OF exp this a] show ?thesis by (simp add: kfree_def header_size_def)
qed

lemma krealloc_ok:
  assumes mm: "region_source_ok mm" and st: "kstate_ok global_ok m e blocks" and a: "blocks a = Some k"
    and n: "n \<le> global_limit" "n \<noteq> k * 32"
  shows "\<exists>m' e' ptr. krealloc (add_memory b mm) (a + header_size) n (m, e) = Some (Inr ((m', e'), ptr)) \<and>
    m_expanding e' = m_expanding e \<and> keeps kmalloc_config (blocks(a := None)) m m' \<and>
    kstate_ok global_ok m' e' ((if ptr = 0 then blocks else blocks(ptr - header_size \<mapsto> chunks_needed kmalloc_config n))(a := None)) \<and>
    (ptr \<noteq> 0 \<longrightarrow> newly_given blocks n ptr \<and>
      (\<forall>j < min (k * 32 - header_size) n. m' (ptr + j) = m (a + header_size + j)))"
proof -
  have "n \<noteq> k * CHUNK_SIZE kmalloc_config" using n(2) by simp
  from heap_expansion.eh_reallocate_ok [OF global_expansion [OF mm] st a n(1) this]
  obtain m' e' ptr blocks' where r: "eh_reallocate kmalloc_config (add_memory b mm) (a + header_size) n (m, e) = Some (Inr ((m', e'), ptr))"
    "m_expanding e' = m_expanding e" "handed_out kmalloc_config blocks n ptr blocks'"
    "kstate_ok global_ok m' e' (blocks'(a := None))" "keeps kmalloc_config (blocks(a := None)) m m'"
    "ptr \<noteq> 0 \<longrightarrow> (\<forall>j < min (k * CHUNK_SIZE kmalloc_config - header_size) n. m' (ptr + j) = m (a + header_size + j))" by blast
  have "blocks' = (if ptr = 0 then blocks else blocks(ptr - header_size \<mapsto> chunks_needed kmalloc_config n))"
    and "ptr \<noteq> 0 \<longrightarrow> newly_given blocks n ptr"
    using r(3) by (auto simp: handed_out_def newly_given_def header_size_def)
  then show ?thesis using r unfolding krealloc_def by auto
qed

lemma kwrite_ok:
  assumes st: "kstate_ok global_ok m e blocks" and a: "blocks a = Some k" and x: "a + header_size \<le> x" "x < a + k * 32"
  shows "kstate_ok global_ok (m(x := v)) e blocks"
proof -
  have "region_source_ok (\<lambda>n (m, e). (m, None))" by (simp add: region_source_ok_def)
  note exp = global_expansion [OF this]
  have "(m(x := v)) y = m y" if "y < a + header_size \<or> a + k * CHUNK_SIZE kmalloc_config \<le> y" for y using that x by auto
  from heap_expansion.caller_write [OF exp st a this] show ?thesis by blast
qed

lemma kmalloc_init_ok:
  assumes "0 < pool" and "pool + 2 * MiB + 1 < 2 ^ 32"
  obtains m1 e1 where "kmalloc_init this_at pool eternal m = Inr (m1, e1)" and "kstate_ok global_ok m1 e1 Map.empty"
    and "\<not> m_expanding e1" and "m_total_chunks (sh_heap (m_heaps e1)) = 63550" and "vector_block (m_expand e1) = Map.empty"
proof -
  let ?m = "memset (memset m eternal 0 (2 * MiB)) pool 0 (2 * MiB)"
  obtain h where h: "heap_construct kmalloc_config pool (2 * MiB) = Inr h" "heap_ok kmalloc_config ?m h (\<lambda>_. None)" "m_chunks h = pool"
    and t: "m_total_chunks h = 63550"
    using construct_result [of kmalloc_config pool "2 * MiB" ?m] assms(2) by (auto simp: header_size_def memset_apply)
  define x0 where "x0 = \<lparr>m_adding = False, m_subheap_memory = [], m_outline_buffer = 0, m_capacity = 0, m_backup_memory = None,
           deferred = [], g_kmalloc_call_count = 0, g_kfree_call_count = 0\<rparr>"
  define e1 where "e1 = \<lparr>m_heaps = \<lparr>sh_heap = h, memory_size = 2 * MiB, sh_at = this_at\<rparr>, added = [], m_expand = x0, m_expanding = False\<rparr>"
  have "kmalloc_init this_at pool eternal m = Inr (?m, e1)"
    using h(1) by (simp add: kmalloc_init_def eh_construct_def e1_def x0_def Let_def)
  moreover have "live_in kmalloc_config h (\<lambda>_. None) = (\<lambda>_. None)" by (auto simp: live_in_def)
  then have "kstate_ok global_ok ?m e1 Map.empty"
    using h assms(1) by (simp add: state_ok_def heaps_ok_def global_ok_def regions_ok_def in_place_def regions_apart_def
        vector_ok_def vector_block_def e1_def x0_def all_subheaps_def spare_def)
  moreover have "\<not> m_expanding e1" "m_total_chunks (sh_heap (m_heaps e1)) = 63550" "vector_block (m_expand e1) = Map.empty"
    using t by (simp_all add: e1_def x0_def vector_block_def)
  ultimately show thesis using that by blast
qed

section \<open>The invariant of every run\<close>

definition run_ok :: "mem \<times> kheap \<times> live_map \<Rightarrow> bool" where
  "run_ok = (\<lambda>(m, e, blocks). kstate_ok global_ok m e blocks \<and> \<not> m_expanding e)"

lemma kmalloc_step_ok:
  assumes mm: "region_source_ok mm" and step: "kmalloc_step mm s s'" and st: "run_ok s"
  shows "run_ok s'"
  using step st unfolding run_ok_def
proof (induction rule: kmalloc_step.induct)
  case (step_kmalloc n ready_now m e m' e' ptr blocks)
  from kmalloc_ok [OF mm _ step_kmalloc(1), of m e blocks ready_now] step_kmalloc(2,3) show ?case by (auto simp del: fun_upd_apply)
next
  case (step_kfree blocks a k m e m' e')
  from kfree_ok [of m e blocks a k] step_kfree show ?case by (auto simp del: fun_upd_apply)
next
  case (step_krealloc blocks a k n ready_now m e m' e' ptr)
  from krealloc_ok [OF mm, of m e blocks a k n ready_now] step_krealloc show ?case by (auto simp del: fun_upd_apply)
next
  case (step_write blocks a k x m e v)
  from kwrite_ok [of m e blocks a k x v] step_write show ?case by (simp del: fun_upd_apply)
next
  case (step_deferred m e m' e' blocks)
  from run_deferred_ok [OF mm, of m e blocks] step_deferred show ?case by auto
next
  case (step_enable_expand m e m' e' blocks)
  from allocate_backup_ok [OF mm, of m e blocks] step_enable_expand show ?case by (auto simp: kmalloc_enable_expand_def)
qed

lemma kmalloc_reachable_ok:
  assumes mm: "region_source_ok mm" and reach: "kmalloc_reachable mm s0 s" and st: "run_ok s0"
  shows "run_ok s"
  using reach by induction (use st kmalloc_step_ok [OF mm] in auto)

text \<open>The states of the kernel: those reached after initialisation with the given pool.\<close>

definition kernel_state :: "region_source \<Rightarrow> mem \<Rightarrow> kheap \<Rightarrow> live_map \<Rightarrow> bool" where
  "kernel_state mm m e blocks \<longleftrightarrow>
     (\<exists>this_at pool eternal m0 m1 e1. 0 < pool \<and> pool + 2 * MiB + 1 < 2 ^ 32 \<and>
        kmalloc_init this_at pool eternal m0 = Inr (m1, e1) \<and> kmalloc_reachable mm (m1, e1, Map.empty) (m, e, blocks))"

lemma kernel_state_ok:
  assumes "region_source_ok mm" and "kernel_state mm m e blocks"
  shows "kstate_ok global_ok m e blocks" and "\<not> m_expanding e"
proof -
  obtain this_at pool eternal m0 m1 e1 where pool: "0 < pool" "pool + 2 * MiB + 1 < 2 ^ 32"
    and init: "kmalloc_init this_at pool eternal m0 = Inr (m1, e1)"
    and reach: "kmalloc_reachable mm (m1, e1, Map.empty) (m, e, blocks)" using assms(2) unfolding kernel_state_def by blast
  obtain m2 e2 where "kmalloc_init this_at pool eternal m0 = Inr (m2, e2)" "kstate_ok global_ok m2 e2 Map.empty" "\<not> m_expanding e2"
    using kmalloc_init_ok [OF pool] by blast
  then have "run_ok (m1, e1, Map.empty)" using init by (simp add: run_ok_def)
  from kmalloc_reachable_ok [OF assms(1) reach this] show "kstate_ok global_ok m e blocks" and "\<not> m_expanding e"
    by (simp_all add: run_ok_def)
qed

lemma kernel_state_step: "kernel_state mm m e blocks \<Longrightarrow> kmalloc_step mm (m, e, blocks) (m', e', blocks') \<Longrightarrow> kernel_state mm m' e' blocks'"
  unfolding kernel_state_def by (meson kmalloc_next)

lemma kernel_blocks_apart:
  assumes "kstate_ok global_ok m e blocks" and "blocks a = Some k" and "blocks b = Some j" and "a \<noteq> b"
  shows "{a ..< a + k * 32} \<inter> {b ..< b + j * 32} = {}"
proof -
  let ?B = "blocks ++ vector_block (m_expand e)"
  have hok: "heaps_ok kmalloc_config m (all_subheaps e) ?B" using assms(1) by (simp add: state_ok_def)
  moreover have "?B a = Some k" "?B b = Some j"
    using assms by (auto simp: state_ok_def map_add_def split: option.splits)
  ultimately have "\<not> (a \<le> x \<and> x < a + k * 32 \<and> b \<le> x \<and> x < b + j * 32)" for x
    using blocks_apart [of kmalloc_config m "all_subheaps e" ?B a k b j x] assms(4) by simp
  then show ?thesis by (meson atLeastLessThan_iff disjoint_iff)
qed

lemma kmalloc_panics_when_full:
  assumes st: "kstate_ok global_ok m e blocks" and n: "n \<le> global_limit" and p: "kmalloc policy n (m, e) = Some (Inl Panicked)"
  shows "\<forall>sh \<in> set (all_subheaps e). no_room (sh_heap sh)
    (live_in kmalloc_config (sh_heap sh) (blocks ++ vector_block (m_expand e))) (chunks_needed kmalloc_config n)"
proof (rule ccontr)
  let ?B = "blocks ++ vector_block (m_expand e)" and ?shs = "all_subheaps e"
  assume room: "\<not> ?thesis"
  have "\<forall>sh \<in> set ?shs. heap_ok kmalloc_config m (sh_heap sh) (live_in kmalloc_config (sh_heap sh) ?B)"
    using st by (simp add: state_ok_def heaps_ok_def)
  moreover have "n + header_size + CHUNK_SIZE kmalloc_config < 2 ^ 32" using n by (simp add: header_size_def global_limit_def)
  ultimately obtain m' shs ptr where "first_allocation kmalloc_config n m ?shs = Some (Inr (m', shs, ptr))" "ptr \<noteq> 0"
    using first_allocation_result [of ?shs kmalloc_config m ?B n] room by auto
  then show False using kmalloc_found p by fastforce
qed

section \<open>A source of one region\<close>

text \<open>A memory manager with a single place for a region, as an example.\<close>

definition one_region :: region_source where
  "one_region n = (\<lambda>(m, e).
     let r = \<lparr>region_vaddr = 0x40000000, region_size = n\<rparr> in
     if n \<le> 0x10000000 \<and> unused e r then (\<lambda>x. if x \<in> extent r then 0 else m x, Some r) else (m, None))"

lemma one_region_ok: "region_source_ok one_region"
  unfolding region_source_ok_def one_region_def by (auto simp: Let_def)

section \<open>Growing\<close>

text \<open>A heap that was just added holds at most the block of the vector.\<close>

lemma added_heap_use:
  assumes st: "kstate_ok regions_ok m e blocks" and r: "region_ok r" and apart: "\<And>a k. blocks a = Some k \<Longrightarrow> a \<notin> extent r"
    and sh: "sh_heap sh = (region_heap r)\<lparr>m_allocated_chunks := q\<rparr>"
  obtains c where "\<And>i. chunk_used (live_in kmalloc_config (sh_heap sh) (blocks ++ vector_block (m_expand e))) i \<Longrightarrow> c \<le> i \<and> i < c + 876"
proof -
  let ?v = "m_outline_buffer (m_expand e) - header_size" and ?h = "sh_heap sh" and ?B = "blocks ++ vector_block (m_expand e)"
  have "m_capacity (m_expand e) \<le> 7000" using st by (simp add: state_ok_def regions_ok_def vector_ok_def)
  then have k: "chunks_needed kmalloc_config (m_capacity (m_expand e) * 4) \<le> 876"
    using chunks_needed_bounds(2) [of "m_capacity (m_expand e) * 4" kmalloc_config] by (simp add: header_size_def)
  have "c = (?v - m_chunks ?h) div 32 \<and> k \<le> 876" if l: "live_in kmalloc_config ?h ?B c = Some k" for c k
  proof -
    have c: "c < m_total_chunks ?h" and B: "?B (chunk_addr kmalloc_config ?h c) = Some k"
      using l by (simp_all add: live_in_def split: if_splits)
    have "chunk_addr kmalloc_config ?h c \<in> footprint kmalloc_config (region_heap r)"
      using c sh by (simp add: footprint_def chunk_addr_def heap_end_def)
    then have "chunk_addr kmalloc_config ?h c \<in> extent r" using region_heap_footprint [OF r] by blast
    then have "vector_block (m_expand e) (chunk_addr kmalloc_config ?h c) = Some k" using B apart by (auto simp: map_add_Some_iff)
    then have "chunk_addr kmalloc_config ?h c = ?v" "k = chunks_needed kmalloc_config (m_capacity (m_expand e) * 4)"
      by (auto simp: vector_block_def split: if_splits)
    then show ?thesis using k by (auto simp: chunk_addr_def)
  qed
  then show thesis using that [of "(?v - m_chunks ?h) div 32"] unfolding chunk_used_def by fastforce
qed

lemma added_heap_has_room:
  assumes hok: "heap_ok kmalloc_config m (sh_heap sh) live" and r: "region_ok r" and n: "n \<le> 400000"
    and sh: "sh_heap sh = (region_heap r)\<lparr>m_allocated_chunks := q\<rparr>"
    and used: "\<And>i. chunk_used live i \<Longrightarrow> c \<le> i \<and> i < c + 876"
  shows "\<not> no_room (sh_heap sh) live (chunks_needed kmalloc_config n)" and "m_allocated_chunks (sh_heap sh) \<le> 876"
proof -
  have t: "31774 \<le> m_total_chunks (sh_heap sh)" using region_heap_bounds(1) [OF r] sh by simp
  have k: "chunks_needed kmalloc_config n \<le> 12600"
    using n chunks_needed_bounds(2) [of n kmalloc_config] by (simp add: header_size_def)
  define q where "q = (if c < 12600 then 13476 else 0 :: nat)"
  have "q + chunks_needed kmalloc_config n \<le> m_total_chunks (sh_heap sh)" using t k by (simp add: q_def)
  moreover have "\<not> chunk_used live i" if "q \<le> i" "i < q + chunks_needed kmalloc_config n" for i
    using that k used [of i] by (auto simp: q_def split: if_splits)
  ultimately show "\<not> no_room (sh_heap sh) live (chunks_needed kmalloc_config n)" unfolding no_room_def by blast
  have "m_allocated_chunks (sh_heap sh) = card {i. i < m_total_chunks (sh_heap sh) \<and> chunk_used live i}"
    using hok by (simp add: heap_ok_def bitmap_ok_def)
  also have "\<dots> \<le> card {c ..< c + 876}" using used by (intro card_mono) auto
  finally show "m_allocated_chunks (sh_heap sh) \<le> 876" by simp
qed

lemma add_memory_enough:
  assumes st: "kstate_ok global_ok m e blocks" and ex: "m_expanding e" and r: "m_backup_memory (m_expand e) = Some r"
    and n: "n \<le> 400000"
  shows "\<exists>m' e'. add_memory True mm n (m, e) = Some (Inr ((m', e'), True)) \<and> kstate_ok global_ok m' e' blocks \<and>
    (\<exists>sh \<in> set (all_subheaps e'). \<not> no_room (sh_heap sh) (live_in kmalloc_config (sh_heap sh) (blocks ++ vector_block (m_expand e')))
       (chunks_needed kmalloc_config n))"
proof -
  define e1 where "e1 = update_global (\<lambda>x. x\<lparr>m_adding := True, m_backup_memory := None\<rparr>) e"
  obtain m2 e2 where u2: "use_region r (m, e1) = Some (Inr (m2, e2))" and st2: "kstate_ok regions_ok m2 e2 blocks"
    and rok: "region_ok r" and un: "unused_by (all_subheaps e) (m_subheap_memory (m_expand e)) r"
    and new: "\<exists>sh \<in> set (added e2). sh_at sh = region_vaddr r \<and> (\<exists>k. sh_heap sh = (region_heap r)\<lparr>m_allocated_chunks := k\<rparr>)"
    by (rule use_backup [OF st ex r]) (rule that [unfolded e1_def])
  obtain sh q where sh: "sh \<in> set (added e2)" "sh_at sh = region_vaddr r" "sh_heap sh = (region_heap r)\<lparr>m_allocated_chunks := q\<rparr>"
    using new by blast
  let ?live = "live_in kmalloc_config (sh_heap sh) (blocks ++ vector_block (m_expand e2))"
  have hok: "heaps_ok kmalloc_config m (all_subheaps e) (blocks ++ vector_block (m_expand e))"
    and inp: "in_place m (all_subheaps e) (m_subheap_memory (m_expand e)) (spare (m_expand e))"
    using st by (simp_all add: state_ok_def global_ok_def regions_ok_def)
  have apart: "a \<notin> extent r" if "blocks a = Some k" for a k
  proof -
    have "(blocks ++ vector_block (m_expand e)) a = Some k" using st that by (auto simp: state_ok_def map_add_def split: option.splits)
    then obtain s c where "s \<in> set (all_subheaps e)" "c < m_total_chunks (sh_heap s)" "a = chunk_addr kmalloc_config (sh_heap s) c"
      using hok unfolding heaps_ok_def by metis
    then have "a \<in> all_bytes kmalloc_config (all_subheaps e)"
      by (auto simp: all_bytes_def footprint_def chunk_addr_def heap_end_def intro!: bexI [of _ s])
    then show ?thesis using unused_bytes(1) [OF inp un all_subheaps_not_Nil(1)] by blast
  qed
  obtain c where c: "\<And>i. chunk_used ?live i \<Longrightarrow> c \<le> i \<and> i < c + 876" by (rule added_heap_use [OF st2 rok apart sh(3)]) auto
  have all: "sh \<in> set (all_subheaps e2)" using sh(1) by (simp add: all_subheaps_def)
  have hok2: "heaps_ok kmalloc_config m2 (all_subheaps e2) (blocks ++ vector_block (m_expand e2))" using st2 by (simp add: state_ok_def)
  note room = added_heap_has_room [OF heaps_okD(1) [OF hok2 all] rok n sh(3) c]
  obtain j where "j < length (added e2)" "added e2 ! j = sh" using sh(1) by (auto simp: in_set_conv_nth)
  then have "List.find (\<lambda>s. sh_at s = region_vaddr r) (added e2) = Some sh"
    using find_at [of "added e2" j] sh(2) hok2 by (simp add: heaps_ok_def all_subheaps_def)
  then have "free_bytes_at (region_vaddr r) e2 = size_mul (free_chunks (sh_heap sh)) 32" by (simp add: free_bytes_at_def)
  moreover have "m_total_chunks (sh_heap sh) * 32 < 2 ^ 32"
    using heaps_okD(1) [OF hok2 all] by (simp add: heap_ok_def heap_shape_def heap_end_def)
  then have "n \<le> size_mul (free_chunks (sh_heap sh)) 32"
    using room(2) region_heap_bounds(1) [OF rok] n sh(3) by (simp add: free_chunks_def size_mul_id size_sub_id)
  ultimately have "\<not> free_bytes_at (region_vaddr r) e2 < n" by simp
  moreover obtain e3 where "finish_adding True (m2, e2) = Some (Inr ((m2, e3), True))" "kstate_ok global_ok m2 e3 blocks"
    "all_subheaps e3 = all_subheaps e2" "vector_block (m_expand e3) = vector_block (m_expand e2)"
    using st2 by (auto simp: finish_adding_def state_ok_def global_ok_def regions_ok_def spare_def vector_ok_def)
  moreover have "\<not> m_adding (m_expand e)" using st by (simp add: state_ok_def global_ok_def)
  ultimately show ?thesis using u2 r room(1) all by (auto simp: add_memory_def e1_def [symmetric] intro!: bexI [of _ sh])
qed

lemma found_allocation:
  assumes st: "kstate_ok policy_ok m e blocks" and n: "n \<le> global_limit"
    and room: "\<exists>sh \<in> set (all_subheaps e). \<not> no_room (sh_heap sh)
      (live_in kmalloc_config (sh_heap sh) (blocks ++ vector_block (m_expand e))) (chunks_needed kmalloc_config n)"
  shows "\<exists>m' shs ptr. first_allocation kmalloc_config n m (all_subheaps e) = Some (Inr (m', shs, ptr)) \<and> ptr \<noteq> 0"
proof -
  let ?B = "blocks ++ vector_block (m_expand e)" and ?shs = "all_subheaps e"
  have "\<forall>sh \<in> set ?shs. heap_ok kmalloc_config m (sh_heap sh) (live_in kmalloc_config (sh_heap sh) ?B)"
    using st by (simp add: state_ok_def heaps_ok_def)
  moreover have "n + header_size + CHUNK_SIZE kmalloc_config < 2 ^ 32" using n by (simp add: header_size_def global_limit_def)
  ultimately show ?thesis using first_allocation_result [of ?shs kmalloc_config m ?B n] room by blast
qed

lemma kmalloc_grows:
  assumes st: "kstate_ok global_ok m e blocks" and ex: "\<not> m_expanding e" and r: "m_backup_memory (m_expand e) = Some r"
    and n: "n \<le> 400000"
  shows "kmalloc (add_memory True mm) n (m, e) \<noteq> Some (Inl Panicked)"
proof
  let ?cfg = kmalloc_config
  assume p: "kmalloc (add_memory True mm) n (m, e) = Some (Inl Panicked)"
  define e0 where "e0 = update_global (g_kmalloc_call_count_update (\<lambda>k. size_add k 1)) e"
  have lim: "n \<le> global_limit" using n by (simp add: global_limit_def)
  have st0: "kstate_ok global_ok m e0 blocks" "\<not> m_expanding e0" "m_backup_memory (m_expand e0) = Some r"
    using st ex r by (simp_all add: e0_def)
  have "\<forall>sh \<in> set (all_subheaps e). heap_ok ?cfg m (sh_heap sh) (live_in ?cfg (sh_heap sh) (blocks ++ vector_block (m_expand e)))"
    using st by (simp add: state_ok_def heaps_ok_def)
  moreover have "n + header_size + CHUNK_SIZE ?cfg < 2 ^ 32" using n by (simp add: header_size_def)
  moreover have "ptr = 0" if "first_allocation ?cfg n m (all_subheaps e) = Some (Inr (m', shs, ptr))" for m' shs ptr
    using kmalloc_found [OF that] p by fastforce
  ultimately have none: "first_allocation ?cfg n m (all_subheaps e0) = Some (Inr (m, all_subheaps e0, 0))"
    using first_allocation_result [of "all_subheaps e" ?cfg m "blocks ++ vector_block (m_expand e)" n] unfolding e0_def by auto
  define e1 where "e1 = e0\<lparr>m_expanding := True\<rparr>"
  have "kstate_ok global_ok m e1 blocks" "m_expanding e1" "m_backup_memory (m_expand e1) = Some r"
    using heap_expansion.expanding_irrelevant [OF global_expansion [OF one_region_ok] st0(1)] st0(3) by (simp_all add: e1_def)
  from add_memory_enough [OF this n, of mm] obtain m' e' where
    add: "add_memory True mm n (m, e1) = Some (Inr ((m', e'), True))" and st': "kstate_ok global_ok m' e' blocks"
    and room: "\<exists>sh \<in> set (all_subheaps e'). \<not> no_room (sh_heap sh) (live_in ?cfg (sh_heap sh) (blocks ++ vector_block (m_expand e'))) (chunks_needed ?cfg n)"
    by blast
  from found_allocation [OF st' lim room] obtain m2 shs ptr where
    "first_allocation ?cfg n m' (all_subheaps (e'\<lparr>m_expanding := False\<rparr>)) = Some (Inr (m2, shs, ptr))" "ptr \<noteq> 0" by (auto simp: all_subheaps_def)
  then have "\<exists>st. eh_allocate ?cfg (add_memory True mm) n (m, e0) = Some (Inr (st, ptr))"
    using none st0(2) add unfolding eh_allocate_def
    by (subst eh_allocate_loop.simps, simp add: expand_memory_def e1_def [symmetric], subst eh_allocate_loop.simps, simp)
  then show False using p \<open>ptr \<noteq> 0\<close> by (auto simp: kmalloc_def Let_def e0_def)
qed

section \<open>Examples\<close>

text \<open>Before the memory manager is ready the policy is the same for every source.\<close>

interpretation early_heap: heap_expansion kmalloc_config "add_memory False mm" remove_memory vector_block global_ok global_limit for mm
proof -
  have "add_memory False mm = add_memory False one_region" by (simp add: add_memory_def fun_eq_iff)
  then show "heap_expansion kmalloc_config (add_memory False mm) remove_memory vector_block global_ok global_limit"
    using global_expansion [OF one_region_ok] by simp
qed

lemma first_kernel_state:
  obtains m e where "kmalloc_init 0x2000 0x100000 0x400000 (\<lambda>_. 0) = Inr (m, e)" and "kernel_state mm m e Map.empty"
    and "kmalloc policy 100 (m, e) \<noteq> Some (Inl Panicked)"
proof -
  obtain m e where i: "kmalloc_init 0x2000 0x100000 0x400000 (\<lambda>_. 0) = Inr (m, e)" "kstate_ok global_ok m e Map.empty"
    "m_total_chunks (sh_heap (m_heaps e)) = 63550" "vector_block (m_expand e) = Map.empty"
    by (rule kmalloc_init_ok [where pool = "0x100000"]) simp_all
  from i(1) have "kernel_state mm m e Map.empty"
    unfolding kernel_state_def
    by (intro exI [of _ "0x2000 :: nat"] exI [of _ "0x100000 :: nat"] exI [of _ "0x400000 :: nat"] exI [of _ "\<lambda>_ :: nat. 0 :: 8 word"] exI [of _ m] exI [of _ e])
      (auto intro: kmalloc_start)
  moreover have "\<not> no_room (sh_heap (m_heaps e)) (live_in kmalloc_config (sh_heap (m_heaps e)) Map.empty) (chunks_needed kmalloc_config 100)"
    using i(3) by (auto simp: no_room_def live_in_def chunk_used_def chunks_needed_def header_size_def size_add_def size_sub_def intro!: exI [of _ 0])
  then have "kmalloc policy 100 (m, e) \<noteq> Some (Inl Panicked)"
    using kmalloc_panics_when_full [OF i(2), of 100 policy] i(4) by (auto simp: all_subheaps_def global_limit_def)
  ultimately show thesis using i(1) that by blast
qed

section \<open>Properties\<close>







text \<open>
  C3.  What the reserve is for: as long as \<^verbatim>\<open>m_backup_memory\<close> holds a region and the memory manager is ready,
  \<^verbatim>\<open>kmalloc\<close> returns a block for every request of up to 400000 bytes, however full the heaps are.  The
  region becomes a heap, the vector of regions takes its own block from it where it has to grow, and
  the second attempt succeeds.
\<close>

theorem kmalloc_grows_from_reserve:
  assumes "region_source_ok mm" and "kernel_state mm m e blocks" and "m_backup_memory (m_expand e) \<noteq> None" and "n \<le> 400000"
  shows "\<exists>m' e' ptr. kmalloc (add_memory True mm) n (m, e) = Some (Inr ((m', e'), ptr)) \<and>
    kernel_state mm m' e' (blocks(ptr - header_size \<mapsto> chunks_needed kmalloc_config n))"
proof -
  have lim: "n \<le> global_limit" using assms(4) by (simp add: global_limit_def)
  note st = kernel_state_ok [OF assms(1,2)]
  obtain r where "m_backup_memory (m_expand e) = Some r" using assms(3) by blast
  from kmalloc_grows [OF st this assms(4), of mm] kmalloc_ok [OF assms(1) st(1) lim, of True]
  obtain m' e' ptr where r: "kmalloc (add_memory True mm) n (m, e) = Some (Inr ((m', e'), ptr))" by blast
  show ?thesis using r kernel_state_step [OF assms(2) step_kmalloc [OF lim r]] by blast
qed

lemma enabled_state:
  obtains m e where "kernel_state one_region m e Map.empty" and "m_backup_memory (m_expand e) \<noteq> None"
proof -
  obtain m e where i: "kmalloc_init 0x2000 0x100000 0x400000 (\<lambda>_. 0) = Inr (m, e)" "kernel_state one_region m e Map.empty"
    using first_kernel_state [of one_region no_policy] by blast
  obtain m' e' where en: "kmalloc_enable_expand one_region (m, e) = (m', e')" by (cases "kmalloc_enable_expand one_region (m, e)")
  have "kernel_state one_region m' e' Map.empty" by (rule kernel_state_step [OF i(2) step_enable_expand [OF en]])
  moreover have "unused e \<lparr>region_vaddr = 0x40000000, region_size = MiB\<rparr>"
    using i(1) by (auto simp: kmalloc_init_def eh_construct_def heap_construct_fits calculate_chunks_def unused_def unused_by_def
        spare_def extent_def footprint_def heap_end_def all_subheaps_def Let_def)
  then have "m_backup_memory (m_expand e') \<noteq> None"
    using en by (auto simp: kmalloc_enable_expand_def allocate_backup_memory_def one_region_def Let_def split: if_splits)
  ultimately show thesis using that by blast
qed

theorem kmalloc_grows_from_reserve_witness:
  "\<exists>m e m' e' ptr. kernel_state one_region m e Map.empty \<and> m_backup_memory (m_expand e) \<noteq> None \<and>
     kmalloc (add_memory True one_region) 400000 (m, e) = Some (Inr ((m', e'), ptr))"
proof -
  obtain m e where i: "kernel_state one_region m e Map.empty" "m_backup_memory (m_expand e) \<noteq> None" by (rule enabled_state)
  from kmalloc_grows_from_reserve [OF one_region_ok i, of 400000] i show ?thesis by blast
qed

end
