(* ===== verification/Spec2Isabelle.thy ===== *)
theory Spec2Isabelle
  imports Checked AK_Time Bitmap_Correct KHeap CString Double_Buffer TTY KLock Range_Allocator Slab_Allocator
    Kmalloc_Runs
begin

text \<open>
  A verification development for pranaOS, a Unix-like kernel for 32-bit x86 written in C++ (directory
  \<^verbatim>\<open>src/Kernel\<close>) on its own class library (\<^verbatim>\<open>src/AK\<close>), with a C library and applications on top
  (\<^verbatim>\<open>src/UserLand\<close>).  The development covers components of the kernel and of the class library whose
  state is ordinary memory.

  \<^bold>\<open>How code is modelled.\<close>  A function of the code is a function of the logic with the state it reads
  as arguments and the state it writes in its result.  \<^verbatim>\<open>VERIFY\<close> and the other ways to panic are values
  of the sum type \<open>'a res\<close>; a null result or an empty \<^verbatim>\<open>Optional\<close> is \<open>None\<close> or the address 0.  Memory is
  a function from addresses to bytes (\<open>mem\<close>), and addresses and sizes are natural numbers; sums,
  differences and products of \<^verbatim>\<open>size_t\<close> wrap around at \<open>2 ^ 32\<close> (\<open>size_add\<close>, \<open>size_sub\<close>, \<open>size_mul\<close>).
  Integer types are values of \<open>int_type\<close> with their conversions, and bit operations are on machine
  words.  A loop is a recursive function with a termination proof, or, where the code may run for
  ever, a \<open>partial_function\<close> whose value \<open>None\<close> stands for that.  Code outside the sources, hardware
  and the scheduling of threads appear as parameters: page access rights, random numbers, the process
  table, the values other processors store, the interleaving of steps.

  \<^bold>\<open>The theories and the code they model.\<close>
  \<^item> \<open>Kernel_Prelude\<close>: panics as values, the integer types of the target, C++ division.
  \<^item> \<open>Memory\<close>: byte memory, loads and stores of words, the bit-counting builtins, size arithmetic.
  \<^item> \<open>Checked\<close>: \<^verbatim>\<open>AK/Checked.h\<close> and \<^verbatim>\<open>AK/NumericLimits.h\<close>.  A chain of checked operations is exact or
    reports an overflow.
  \<^item> \<open>AK_Time\<close>: \<^verbatim>\<open>AK/Time.h\<close> and \<^verbatim>\<open>Time.cpp\<close>.  Arithmetic and parsing saturate, conversions are exact,
    the order is that of nanoseconds, and the calendar tables agree with each other.
  \<^item> \<open>AK_Vector\<close>: the index operations of \<^verbatim>\<open>AK/Vector.h\<close> and the binary search of
    \<^verbatim>\<open>AK/BinarySearch.h\<close>, whose contract with its comparator is the locale \<open>search_order\<close>.
  \<^item> \<open>Bitmap_View\<close>, \<open>Bitmap_Correct\<close>: \<^verbatim>\<open>AK/BitmapView.h\<close> and \<^verbatim>\<open>AK/Bitmap.h\<close>.  The byte-wise and
    word-wise routines do on memory what they should do on single bits.
  \<^item> \<open>KHeap\<close>: \<^verbatim>\<open>Heap\<close> of \<^verbatim>\<open>Kernel/Heap/Heap.h\<close>, on the bitmap.  Along every run, live blocks are
    disjoint, headers and bitmap agree, and each operation does what it promises.
  \<^item> \<open>Expandable_Heap\<close>: \<^verbatim>\<open>ExpandableHeap\<close> of \<^verbatim>\<open>Kernel/Heap/Heap.h\<close>, a list of such heaps.  What it needs of its
    policy is the locale \<open>heap_expansion\<close>; the operations are proved once inside it.
  \<^item> \<open>Kmalloc\<close>, \<open>Kmalloc_Runs\<close>: \<^verbatim>\<open>Kernel/Heap/kmalloc.cpp\<close>, whose policy is an instance of that locale, and the
    runs of the kernel on it.  The memory manager is a parameter that returns a zeroed region at unused
    addresses (\<open>region_source_ok\<close>) and does not itself allocate from the heap.
  \<^item> \<open>CString\<close>: the string and block routines of \<^verbatim>\<open>Kernel/StdLib.cpp\<close> and of LibC's \<^verbatim>\<open>string.cpp\<close>.
  \<^item> \<open>Safe_Mem\<close>: \<^verbatim>\<open>Kernel/Arch/i386/SafeMem.cpp\<close>, \<^verbatim>\<open>Kernel/Arch/x86/SafeMem.h\<close> and the user copies and
    atomics of \<^verbatim>\<open>Kernel/StdLib.cpp\<close>.  Copies stay inside the range given and report faults; the
    compare-and-exchange loops take effect at one moment.
  \<^item> \<open>User_Buffer\<close>: \<^verbatim>\<open>Kernel/UserOrKernelBuffer.h\<close> and \<^verbatim>\<open>.cpp\<close>, on the copies.
  \<^item> \<open>Double_Buffer\<close>: \<^verbatim>\<open>Kernel/DoubleBuffer.cpp\<close>, on the buffers; an instance of the locale
    \<open>lossless_channel\<close>.
  \<^item> \<open>Circular_Queue\<close>: \<^verbatim>\<open>AK/CircularQueue.h\<close> and \<^verbatim>\<open>AK/CircularDeque.h\<close>; an instance of the locale
    \<open>bounded_deque\<close>, and a refinement of bounded lists.
  \<^item> \<open>TTY\<close>: \<^verbatim>\<open>Kernel/TTY/TTY.cpp\<close>, on the ring and the buffers.  The device, signal delivery and the
    wake-up of readers are events of a trace.
  \<^item> \<open>Wait_Queue\<close>: \<^verbatim>\<open>Kernel/WaitQueue.cpp\<close> with \<^verbatim>\<open>Thread::BlockCondition\<close> of \<^verbatim>\<open>Kernel/Thread.h\<close>.
  \<^item> \<open>KLock\<close>: \<^verbatim>\<open>Kernel/Lock.cpp\<close>, on the wait queue.  The bodies run under the lock word and are
    functions; the loops, waits and wake-ups of any number of threads are the rules of \<open>lock_step\<close>.
    Mutual exclusion, freedom from panics and that no wake-up is lost hold in every reachable state.
  \<^item> \<open>Range_Allocator\<close>: \<^verbatim>\<open>Kernel/VM/Range.cpp\<close> and \<^verbatim>\<open>RangeAllocator.cpp\<close>, on vectors, binary search and
    checked arithmetic.  Free and allocated addresses partition the range in every reachable state.
  \<^item> \<open>Alignment\<close>: the rounding functions of \<^verbatim>\<open>AK/StdLibExtras.h\<close> and \<^verbatim>\<open>Kernel/VM/MemoryManager.h\<close>.
  \<^item> \<open>Slab_Allocator\<close>: \<^verbatim>\<open>Kernel/Heap/SlabAllocator.cpp\<close> and \<^verbatim>\<open>kmalloc_eternal\<close>.  The accesses of any number
    of processors to the free list are the rules of \<open>slab_step\<close>; with one allocating processor the list
    stays sound, with two it need not (\<open>slab_two_allocators_aba\<close>).

  \<^bold>\<open>Bounds.\<close>  No fuel is used except where the code itself counts: the thousand attempts of
  \<^verbatim>\<open>allocate_randomized\<close>.  Hypotheses that a size or counter stays below \<open>2 ^ 32\<close> appear where the
  code would wrap around, and theorems named after the defect show what happens beyond: for example
  \<open>chunks_needed_wraps\<close>, \<open>find_best_fit_can_diverge\<close> and \<open>deallocate_unsorts_user_ranges\<close>.

  Requests to \<^verbatim>\<open>kmalloc\<close> are bounded by \<open>global_limit\<close>, half of the address space, beyond which the
  size of a new region could wrap around.

  \<^bold>\<open>What is not modelled.\<close>  Code whose effect is on hardware or on devices (interrupts, page tables,
  drivers, the context switch), file systems and networking, which work through such devices, system
  calls that combine them, and the applications.  Debug output, performance counters and the
  \<^verbatim>\<open>LOCK_DEBUG\<close> bookkeeping are left out.  Memory orderings weaker than sequential consistency are not
  modelled: each access to an atomic variable is one step.
\<close>

end
